(* ===== verification/Prelude.thy ===== *)
theory Prelude
  imports Main "HOL-Library.Word" "HOL-Library.Multiset"
begin

unbundle bit_operations_syntax

text \<open>
  Shared vocabulary of the development: the machine integer types the sources use, the
  collections of facts the component theories fill, and the generic lemmas on words and lists
  that more than one component needs.
\<close>

section \<open>Machine integers\<close>

type_synonym u8 = "8 word"
type_synonym u16 = "16 word"
type_synonym u32 = "32 word"
type_synonym u64 = "64 word"
type_synonym bytes = "8 word list"

section \<open>Fact collections\<close>

named_theorems inv_intros \<open>an operation keeps the invariant of its component\<close>
named_theorems abs_simps \<open>what an operation does to the abstract value of its component\<close>

section \<open>Unsigned arithmetic that does not wrap\<close>

lemma unat_add_fits:
  fixes a b :: "'a::len word"
  assumes "unat a + unat b < 2 ^ LENGTH('a)"
  shows "unat (a + b) = unat a + unat b"
  using assms by (simp add: unat_word_ariths)

lemma unat_add_one_fits:
  fixes a :: "'a::len word"
  assumes "unat a + 1 < 2 ^ LENGTH('a)"
  shows "unat (a + 1) = unat a + 1"
  using assms by (simp add: unat_word_ariths)

lemma unat_sub_fits:
  fixes a b :: "'a::len word"
  assumes "unat b \<le> unat a"
  shows "unat (a - b) = unat a - unat b"
  using assms by (simp add: unat_sub word_le_nat_alt)

lemma unat_max: "unat (max a b) = max (unat a) (unat b)"
  by (simp add: max_def word_le_nat_alt)

lemma unat_min: "unat (min a b) = min (unat a) (unat b)"
  by (simp add: min_def word_le_nat_alt)

lemma unat_drop_bit_less: "v \<noteq> 0 \<Longrightarrow> 0 < n \<Longrightarrow> unat (drop_bit n v) < unat v"
  for v :: "'a::len word"
proof -
  assume "v \<noteq> 0" "0 < n"
  then have "unat v > 0" "(1::nat) < 2 ^ n"
    using one_less_power [of "2::nat" n] by (simp_all add: unat_gt_0)
  moreover have "unat (drop_bit n v) = unat v div 2 ^ n"
    unfolding unat_drop_bit_eq by (rule drop_bit_eq_div)
  ultimately show ?thesis by simp
qed

section \<open>Words bit by bit\<close>

text \<open>
  An equation between words built from shifts and masks is decided by evaluating each bit:
  rewrite with one of these rules and simplify with \<open>bit_eval\<close>.
\<close>

lemma u64_eqI: "list_all (\<lambda>n. bit x n = bit y n) [0..<64] \<Longrightarrow> x = y" for x y :: u64
  by (intro bit_word_eqI) (auto simp: list_all_iff)

lemma u32_eqI: "list_all (\<lambda>n. bit x n = bit y n) [0..<32] \<Longrightarrow> x = y" for x y :: u32
  by (intro bit_word_eqI) (auto simp: list_all_iff)

lemma u8_eqI: "list_all (\<lambda>n. bit x n = bit y n) [0..<8] \<Longrightarrow> x = y" for x y :: u8
  by (intro bit_word_eqI) (auto simp: list_all_iff)

lemma bit_u8_out: "8 \<le> n \<Longrightarrow> \<not> bit (x :: u8) n"
  using bit_imp_le_length [of x n] by auto

lemma bit_u32_out: "32 \<le> n \<Longrightarrow> \<not> bit (x :: u32) n"
  using bit_imp_le_length [of x n] by auto

lemma bit_u64_out: "64 \<le> n \<Longrightarrow> \<not> bit (x :: u64) n"
  using bit_imp_le_length [of x n] by auto

lemma upt_from_0:
  "[0..<8] = 0 # 1 # [2..<8]" "[0..<32] = 0 # 1 # [2..<32]" "[0..<64] = 0 # 1 # [2..<64]"
  by (simp_all add: upt_conv_Cons)

lemmas bit_eval = bit_simps bit_u8_out bit_u32_out bit_u64_out upt_from_0 upt_rec_numeral

lemma u8_high_bit: "x < 128 \<longleftrightarrow> \<not> bit x 7" for x :: u8
proof -
  have "x < 128 \<longleftrightarrow> take_bit 7 (uint x) = uint x"
    by (simp add: word_less_def take_bit_int_eq_self_iff)
  also have "\<dots> \<longleftrightarrow> \<not> bit x 7"
  proof
    assume t: "take_bit 7 (uint x) = uint x"
    have "\<not> bit (take_bit 7 (uint x)) 7" by (simp add: bit_take_bit_iff)
    then show "\<not> bit x 7" unfolding t by (simp add: bit_uint_iff)
  next
    assume b: "\<not> bit x 7"
    have "bit x n \<Longrightarrow> n < 7" for n
      using b bit_imp_le_length [of x n] by (cases "n = 7") auto
    then show "take_bit 7 (uint x) = uint x"
      by (intro bit_eqI) (auto simp: bit_take_bit_iff bit_uint_iff)
  qed
  finally show ?thesis .
qed

section \<open>Lists\<close>

lemma list_shape4:
  obtains "xs = []" | a where "xs = [a]" | a b where "xs = [a, b]"
  | a b c where "xs = [a, b, c]" | a b c d ys where "xs = a # b # c # d # ys"
  by (metis neq_Nil_conv)

text \<open>\<open>write_at\<close> is what a write of \<open>data\<close> at byte \<open>off\<close> leaves of a buffer that grows on
  demand: bytes between the old end and \<open>off\<close> are the filler \<open>z\<close>.\<close>

definition write_at :: "'a \<Rightarrow> nat \<Rightarrow> 'a list \<Rightarrow> 'a list \<Rightarrow> 'a list" where
  "write_at z off data xs =
     (if data = [] then xs
      else take off xs @ replicate (off - length xs) z @ data @ drop (off + length data) xs)"

lemma length_write_at:
  "length (write_at z off data xs) =
     (if data = [] then length xs else max (length xs) (off + length data))"
  by (cases "off \<le> length xs") (auto simp: write_at_def)

lemma nth_write_at:
  assumes "i < length (write_at z off data xs)"
  shows "write_at z off data xs ! i =
    (if off \<le> i \<and> i < off + length data then data ! (i - off)
     else if i < length xs then xs ! i else z)"
  using assms by (auto simp: write_at_def nth_append min_def split: if_splits)

lemma split_at_last:
  assumes "x \<notin> set d" "x \<notin> set e"
  shows "a @ x # d = b @ x # e \<longleftrightarrow> a = b \<and> d = e"
proof
  have last: "takeWhile (\<lambda>y. y \<noteq> x) (rev (c @ x # f)) = rev f" if "x \<notin> set f" for c f
  proof -
    have "takeWhile (\<lambda>y. y \<noteq> x) (rev f @ x # rev c) = rev f @ takeWhile (\<lambda>y. y \<noteq> x) (x # rev c)"
      by (rule takeWhile_append2) (use that in auto)
    then show ?thesis by simp
  qed
  assume eq: "a @ x # d = b @ x # e"
  then have "rev d = rev e" using last[OF assms(1), of a] last[OF assms(2), of b] by metis
  then have "d = e" by simp
  then show "a = b \<and> d = e" using eq by simp
qed simp

text \<open>A symmetric relation between all pairs of a list does not depend on the list's order.\<close>

lemma sorted_wrt_perm:
  assumes sym: "\<And>x y. R x y \<Longrightarrow> R y x"
  shows "mset xs = mset ys \<Longrightarrow> sorted_wrt R xs \<Longrightarrow> sorted_wrt R ys"
proof (induction xs arbitrary: ys)
  case Nil
  then show ?case by simp
next
  case (Cons x xs)
  from Cons.prems(1) have "x \<in> set ys"
    by (metis list.set_intros(1) set_mset_mset)
  then obtain as bs where ys: "ys = as @ x # bs"
    by (auto simp: in_set_conv_decomp)
  with Cons.prems(1) have m: "mset xs = mset (as @ bs)" by simp
  with Cons have "sorted_wrt R (as @ bs)" by simp
  moreover have "\<forall>y \<in> set (as @ bs). R x y"
    using Cons.prems(2) mset_eq_setD [OF m] by simp
  ultimately show ?case by (auto simp: ys sorted_wrt_append intro: sym)
qed

section \<open>Machines driven by a list of operations\<close>

text \<open>
  A component whose operations are run one after another: whatever list of legal operations the
  callers make, an invariant that every single operation keeps holds at the end.
\<close>

locale op_machine =
  fixes step :: "'op \<Rightarrow> 's \<Rightarrow> 's"
    and legal :: "'op \<Rightarrow> bool"
    and inv :: "'s \<Rightarrow> bool"
  assumes step_inv: "inv s \<Longrightarrow> legal e \<Longrightarrow> inv (step e s)"
begin

lemma run_inv: "inv s \<Longrightarrow> list_all legal es \<Longrightarrow> inv (fold step es s)"
  by (induction es arbitrary: s) (auto intro: step_inv)

end

text \<open>
  A machine with an abstract counterpart: when every single legal operation does to the
  abstraction what the abstract operation does, so does every sequence of them.
\<close>

locale simulation = op_machine step legal inv
  for step :: "'op \<Rightarrow> 's \<Rightarrow> 's" and legal :: "'op \<Rightarrow> bool" and inv :: "'s \<Rightarrow> bool" +
  fixes absf :: "'s \<Rightarrow> 'a"
    and astep :: "'op \<Rightarrow> 'a \<Rightarrow> 'a"
  assumes step_sim: "inv s \<Longrightarrow> legal e \<Longrightarrow> absf (step e s) = astep e (absf s)"
begin

lemma run_sim: "inv s \<Longrightarrow> list_all legal es \<Longrightarrow> absf (fold step es s) = fold astep es (absf s)"
  by (induction es arbitrary: s) (auto simp: step_sim step_inv)

lemma run_correct:
  "inv s \<Longrightarrow> list_all legal es \<Longrightarrow>
     inv (fold step es s) \<and> absf (fold step es s) = fold astep es (absf s)"
  using run_inv run_sim by blast

end

section \<open>Binary encodings\<close>

text \<open>
  An encoding whose decoder reads one value from the front of a buffer and reports how many bytes
  it used. From the single round trip follow injectivity, prefix freeness, and the round trip of
  whole sequences laid out one after the other.
\<close>

primrec dec_seq :: "(bytes \<Rightarrow> (nat \<times> 'a) option) \<Rightarrow> nat \<Rightarrow> bytes \<Rightarrow> ('a list \<times> bytes) option" where
  "dec_seq dec 0 buf = Some ([], buf)"
| "dec_seq dec (Suc k) buf =
     (case dec buf of
        None \<Rightarrow> None
      | Some (n, x) \<Rightarrow> (case dec_seq dec k (drop n buf) of
            None \<Rightarrow> None
          | Some (xs, rest) \<Rightarrow> Some (x # xs, rest)))"

locale codec =
  fixes enc :: "'a \<Rightarrow> bytes"
    and dec :: "bytes \<Rightarrow> (nat \<times> 'a) option"
    and valid :: "'a \<Rightarrow> bool"
  assumes dec_enc: "valid x \<Longrightarrow> dec (enc x @ rest) = Some (length (enc x), x)"
begin

lemma enc_prefix_free: "valid x \<Longrightarrow> valid y \<Longrightarrow> enc x @ r = enc y @ r' \<Longrightarrow> x = y"
  using dec_enc [of x r] dec_enc [of y r'] by simp

lemma enc_inj: "valid x \<Longrightarrow> valid y \<Longrightarrow> enc x = enc y \<Longrightarrow> x = y"
  using enc_prefix_free [of x y "[]" "[]"] by simp

lemma dec_seq_concat:
  "\<forall>x \<in> set xs. valid x \<Longrightarrow>
   dec_seq dec (length xs) (concat (map enc xs) @ rest) = Some (xs, rest)"
  by (induction xs) (simp_all add: dec_enc)

end

end
