(* ===== verification/Interfaces.thy ===== *)
theory Interfaces
  imports Prelude
begin

text \<open>
  The contracts between the components of the application, as locales: what the provider of an
  interface promises is in the assumptions, what a client may rely on is proved once from them.
  Every locale is interpreted on the model's own definitions in the theory of the provider.
\<close>

section \<open>Requests for a range of bytes\<close>

text \<open>The bytes \<open>[st, st + len)\<close> of a request, and the condition that its end does not wrap.\<close>

definition fits :: "u64 \<Rightarrow> u64 \<Rightarrow> bool" where
  "fits st len \<longleftrightarrow> unat st + unat len < 2 ^ 64"

definition span :: "u64 \<Rightarrow> u64 \<Rightarrow> nat set" where
  "span st len = {unat st..<unat st + unat len}"

lemma span_nonempty: "len \<noteq> 0 \<Longrightarrow> span st len \<noteq> {}"
  by (simp add: span_def unat_gt_0)

section \<open>An index of cached byte ranges\<close>

text \<open>
  What the router relies on: adding and removing a range act on the set of bytes known for a key
  as union and difference, leave every other key alone, and the membership query is exact.
\<close>

locale byte_ranges =
  fixes add remove :: "'k \<Rightarrow> u64 \<Rightarrow> u64 \<Rightarrow> 's \<Rightarrow> 's"
    and cached :: "'k \<Rightarrow> u64 \<Rightarrow> u64 \<Rightarrow> 's \<Rightarrow> bool"
    and bytes :: "'s \<Rightarrow> 'k \<Rightarrow> nat set"
    and legal :: "'k \<Rightarrow> u64 \<Rightarrow> u64 \<Rightarrow> bool"
    and inv :: "'s \<Rightarrow> bool"
  assumes inv_add: "inv s \<Longrightarrow> legal k st n \<Longrightarrow> inv (add k st n s)"
    and inv_remove: "inv s \<Longrightarrow> legal k st n \<Longrightarrow> inv (remove k st n s)"
    and bytes_add: "inv s \<Longrightarrow> legal k st n \<Longrightarrow>
      bytes (add k st n s) k' = (if k' = k then bytes s k \<union> span st n else bytes s k')"
    and bytes_remove: "inv s \<Longrightarrow> legal k st n \<Longrightarrow>
      bytes (remove k st n s) k' = (if k' = k then bytes s k - span st n else bytes s k')"
    and cached_iff: "inv s \<Longrightarrow> legal k st n \<Longrightarrow> cached k st n s \<longleftrightarrow> span st n \<subseteq> bytes s k"
    and legal_nonempty: "legal k st n \<Longrightarrow> n \<noteq> 0"
begin

lemma cached_after_add: "inv s \<Longrightarrow> legal k st n \<Longrightarrow> cached k st n (add k st n s)"
  by (simp add: cached_iff inv_add bytes_add)

lemma cached_kept_by_add:
  "inv s \<Longrightarrow> legal k st n \<Longrightarrow> legal k' st' n' \<Longrightarrow> cached k st n s \<Longrightarrow>
   cached k st n (add k' st' n' s)"
  by (auto simp: cached_iff inv_add bytes_add)

lemma not_cached_after_remove:
  "inv s \<Longrightarrow> legal k st n \<Longrightarrow> legal k st' n' \<Longrightarrow> span st n \<inter> span st' n' \<noteq> {} \<Longrightarrow>
   \<not> cached k st n (remove k st' n' s)"
  by (auto simp: cached_iff inv_remove bytes_remove)

lemma add_undoes_remove:
  "inv s \<Longrightarrow> legal k st n \<Longrightarrow> cached k st n s \<Longrightarrow>
   bytes (add k st n (remove k st n s)) k' = bytes s k'"
  by (auto simp: cached_iff inv_remove bytes_add bytes_remove)

text \<open>However a span is cut into pieces and in whatever order the pieces arrive.\<close>

lemma bytes_add_all:
  "inv s \<Longrightarrow> \<forall>(st, n) \<in> set ps. legal k st n \<Longrightarrow>
   inv (fold (\<lambda>(st, n). add k st n) ps s) \<and>
   bytes (fold (\<lambda>(st, n). add k st n) ps s) k = bytes s k \<union> (\<Union>(st, n) \<in> set ps. span st n)"
proof (induction ps arbitrary: s)
  case Nil
  then show ?case by simp
next
  case (Cons p ps)
  obtain st n where p: "p = (st, n)" by fastforce
  with Cons.prems have "inv (add k st n s)" "bytes (add k st n s) k = bytes s k \<union> span st n"
    by (auto simp: inv_add bytes_add)
  with Cons.IH [of "add k st n s"] Cons.prems(2) show ?case by (simp add: p Un_assoc)
qed

end

section \<open>Exclusive claims on byte ranges\<close>

text \<open>
  The download marks: a claim succeeds exactly when it meets no claim still held, and giving a
  claim back frees exactly its bytes.
\<close>

locale range_claims =
  fixes claim :: "'k \<Rightarrow> u64 \<Rightarrow> u64 \<Rightarrow> 's \<Rightarrow> bool \<times> 's"
    and release :: "'k \<Rightarrow> u64 \<Rightarrow> u64 \<Rightarrow> 's \<Rightarrow> 's"
    and held :: "'s \<Rightarrow> 'k \<Rightarrow> (u64 \<times> u64) set"
    and legal :: "'k \<Rightarrow> u64 \<Rightarrow> u64 \<Rightarrow> bool"
    and inv :: "'s \<Rightarrow> bool"
  assumes inv_claim: "inv s \<Longrightarrow> legal k st n \<Longrightarrow> inv (snd (claim k st n s))"
    and inv_release: "inv s \<Longrightarrow> legal k st n \<Longrightarrow> inv (release k st n s)"
    and claim_iff: "inv s \<Longrightarrow> legal k st n \<Longrightarrow>
      fst (claim k st n s) \<longleftrightarrow> (\<forall>(a, m) \<in> held s k. span st n \<inter> span a m = {})"
    and held_claim: "inv s \<Longrightarrow> legal k st n \<Longrightarrow>
      held (snd (claim k st n s)) k' =
        (if k' = k \<and> fst (claim k st n s) then insert (st, n) (held s k) else held s k')"
    and held_release: "inv s \<Longrightarrow> legal k st n \<Longrightarrow>
      held (release k st n s) k' = (if k' = k then held s k - {(st, n)} else held s k')"
    and held_legal: "inv s \<Longrightarrow> (a, m) \<in> held s k \<Longrightarrow> legal k a m"
    and legal_nonempty: "legal k st n \<Longrightarrow> n \<noteq> 0"
begin

lemma claim_excludes:
  assumes "inv s" "legal k st n" "legal k st' n'"
    and "fst (claim k st n s)" "span st n \<inter> span st' n' \<noteq> {}"
  shows "\<not> fst (claim k st' n' (snd (claim k st n s)))"
  using assms by (auto simp: claim_iff inv_claim held_claim)

lemma claim_release:
  assumes "inv s" "legal k st n" "fst (claim k st n s)"
  shows "held (release k st n (snd (claim k st n s))) k' = held s k'"
proof -
  have "(st, n) \<notin> held s k"
    using assms span_nonempty [OF legal_nonempty [OF assms(2)]] by (auto simp: claim_iff)
  then show ?thesis using assms by (simp add: held_release held_claim inv_claim)
qed

end

section \<open>A dictionary that may run out of memory\<close>

text \<open>
  \<open>update\<close> stores under a key, or removes it when there is no new value, and gives the old value. For a
  new key it may refuse for want of memory; then it gives the new value back and changes nothing.
  Keys with the same name are the same key.
\<close>

locale dictionary =
  fixes lookup :: "'s \<Rightarrow> 'k \<Rightarrow> 'v option"
    and update :: "'a \<Rightarrow> 's \<Rightarrow> 'k \<Rightarrow> 'v option \<Rightarrow> 'v option \<times> 's"
    and contents :: "'s \<Rightarrow> 'c \<Rightarrow> 'v option"
    and name :: "'k \<Rightarrow> 'c"
    and legal :: "'k \<Rightarrow> bool"
    and env :: "'a \<Rightarrow> 's \<Rightarrow> bool"
    and inv :: "'s \<Rightarrow> bool"
  assumes lookup: "inv s \<Longrightarrow> legal k \<Longrightarrow> lookup s k = contents s (name k)"
    and inv_update: "inv s \<Longrightarrow> legal k \<Longrightarrow> env a s \<Longrightarrow> inv (snd (update a s k d))"
    and update_present: "inv s \<Longrightarrow> legal k \<Longrightarrow> env a s \<Longrightarrow> contents s (name k) = Some v \<Longrightarrow>
      fst (update a s k d) = Some v \<and> contents (snd (update a s k d)) = (contents s)(name k := d)"
    and update_absent: "inv s \<Longrightarrow> legal k \<Longrightarrow> env a s \<Longrightarrow> contents s (name k) = None \<Longrightarrow>
      fst (update a s k d) = None \<and> contents (snd (update a s k d)) = (contents s)(name k := d)
      \<or> d \<noteq> None \<and> fst (update a s k d) = d \<and> snd (update a s k d) = s"
begin

definition refused :: "'a \<Rightarrow> 's \<Rightarrow> 'k \<Rightarrow> 'v option \<Rightarrow> bool" where
  "refused a s k d \<longleftrightarrow> lookup s k = None \<and> d \<noteq> None \<and> fst (update a s k d) = d"

lemma contents_update:
  "inv s \<Longrightarrow> legal k \<Longrightarrow> env a s \<Longrightarrow>
   contents (snd (update a s k d)) = (if refused a s k d then contents s else (contents s)(name k := d))"
  using update_present[of s k a] update_absent[of s k a d]
  by (cases "contents s (name k)") (auto simp: refused_def lookup)

lemma lookup_update:
  "inv s \<Longrightarrow> legal k \<Longrightarrow> legal k' \<Longrightarrow> env a s \<Longrightarrow>
   lookup (snd (update a s k d)) k' =
     (if name k' = name k \<and> \<not> refused a s k d then d else lookup s k')"
  by (simp add: lookup inv_update contents_update)

lemma removal_not_refused: "\<not> refused a s k None"
  by (simp add: refused_def)

lemma gives_old_value:
  "inv s \<Longrightarrow> legal k \<Longrightarrow> env a s \<Longrightarrow> fst (update a s k d) = (if refused a s k d then d else lookup s k)"
  using update_present[of s k a] update_absent[of s k a d]
  by (cases "contents s (name k)") (auto simp: refused_def lookup)

end

end
