(* ===== verification/LZ_Cache_Index.thy ===== *)
theory LZ_Cache_Index
  imports Interfaces
begin

text \<open>
  \<open>Player/.../LZCacheIndex.m\<close>: the book-keeping of the streaming cache. For every key it
  keeps the byte ranges already cached (\<open>map\<close>), the ranges being downloaded (\<open>loadingMap\<close>)
  and the total length of the resource (\<open>totalMap\<close>). Every operation runs as one block on
  the serial dispatch queue of its key, so an operation is one atomic state change; a block
  enqueued with \<open>dispatch_async\<close> runs before every block enqueued later on the same queue, so
  a later query sees it and the model applies it at once. \<open>NSUInteger\<close> is a 64-bit word, a
  key that may be \<open>nil\<close> is an option.
\<close>

section \<open>Data model\<close>

record cache_range =
  rstart :: u64
  rend :: u64

type_synonym nskey = "string option"

record lz_index =
  ranges :: "string \<rightharpoonup> cache_range list"
  totals :: "string \<rightharpoonup> u64"
  loading :: "string \<rightharpoonup> cache_range list"

definition empty_index :: lz_index where
  "empty_index = \<lparr>ranges = Map.empty, totals = Map.empty, loading = Map.empty\<rparr>"

definition isValidKey :: "nskey \<Rightarrow> bool" where
  "isValidKey key = (case key of None \<Rightarrow> False | Some k \<Rightarrow> length k > 0)"

section \<open>Ranges being downloaded\<close>

definition overlaps :: "u64 \<Rightarrow> u64 \<Rightarrow> cache_range \<Rightarrow> bool" where
  "overlaps st en r = (st \<le> rend r \<and> en \<ge> rstart r)"

definition isRangeLoadingForKey :: "nskey \<Rightarrow> u64 \<Rightarrow> u64 \<Rightarrow> lz_index \<Rightarrow> bool" where
  "isRangeLoadingForKey key st len s =
     (if \<not> isValidKey key \<or> len = 0 then False
      else case loading s (the key) of
          None \<Rightarrow> False
        | Some loadingRanges \<Rightarrow> list_ex (overlaps st (st + len - 1)) loadingRanges)"

text \<open>\<open>markRangeLoadingForKey\<close> creates the key's array even when the mark is refused.\<close>

definition markRangeLoadingForKey ::
  "nskey \<Rightarrow> u64 \<Rightarrow> u64 \<Rightarrow> lz_index \<Rightarrow> bool \<times> lz_index" where
  "markRangeLoadingForKey key st len s =
     (if \<not> isValidKey key \<or> len = 0 then (False, s)
      else
        let loadingRanges = (case loading s (the key) of None \<Rightarrow> [] | Some rs \<Rightarrow> rs);
            en = st + len - 1;
            canMark = \<not> list_ex (overlaps st en) loadingRanges;
            loadingRanges' =
              (if canMark then loadingRanges @ [\<lparr>rstart = st, rend = en\<rparr>] else loadingRanges)
        in (canMark, s\<lparr>loading := (loading s)(the key \<mapsto> loadingRanges')\<rparr>))"

definition unmarkRangeLoadingForKey ::
  "nskey \<Rightarrow> u64 \<Rightarrow> u64 \<Rightarrow> lz_index \<Rightarrow> lz_index" where
  "unmarkRangeLoadingForKey key st len s =
     (if \<not> isValidKey key \<or> len = 0 then s
      else case loading s (the key) of
          None \<Rightarrow> s
        | Some loadingRanges \<Rightarrow>
            let en = st + len - 1;
                left = filter (\<lambda>r. \<not> (rstart r = st \<and> rend r = en)) loadingRanges
            in if left = [] then s\<lparr>loading := (loading s)(the key := None)\<rparr>
               else s\<lparr>loading := (loading s)(the key \<mapsto> left)\<rparr>)"

section \<open>Cached ranges\<close>

text \<open>
  The loop of \<open>addRangeForKey\<close> walks the array while the new range grows: \<open>absorb\<close> returns the
  grown range and the elements that stay.
\<close>

definition touches :: "cache_range \<Rightarrow> cache_range \<Rightarrow> bool" where
  "touches newRange r = (rstart newRange \<le> rend r + 1 \<and> rend newRange + 1 \<ge> rstart r)"

fun absorb :: "cache_range \<Rightarrow> cache_range list \<Rightarrow> cache_range \<times> cache_range list" where
  "absorb newRange [] = (newRange, [])"
| "absorb newRange (r # rs) =
     (if touches newRange r
      then absorb \<lparr>rstart = min (rstart newRange) (rstart r),
                   rend = max (rend newRange) (rend r)\<rparr> rs
      else let (grown, kept) = absorb newRange rs in (grown, r # kept))"

definition add_range :: "u64 \<Rightarrow> u64 \<Rightarrow> cache_range list \<Rightarrow> cache_range list" where
  "add_range st en rs =
     (let (newRange, kept) = absorb \<lparr>rstart = st, rend = en\<rparr> rs
      in sort_key rstart (kept @ [newRange]))"

definition addRangeForKey :: "nskey \<Rightarrow> u64 \<Rightarrow> u64 \<Rightarrow> lz_index \<Rightarrow> lz_index" where
  "addRangeForKey key st len s =
     (if \<not> isValidKey key \<or> len = 0 then s
      else
        let en = st + len - 1;
            rs = (case ranges s (the key) of None \<Rightarrow> [] | Some rs \<Rightarrow> rs)
        in s\<lparr>ranges := (ranges s)(the key \<mapsto> add_range st en rs)\<rparr>)"

text \<open>
  \<open>cut_range\<close> is the body of the loop of \<open>removeRangeForKey\<close>: what is left of \<open>r\<close> in the array
  (nothing when \<open>r\<close> goes to \<open>toRemove\<close>) and what goes to \<open>toAdd\<close>.
\<close>

definition cut_range ::
  "u64 \<Rightarrow> u64 \<Rightarrow> cache_range \<Rightarrow> cache_range list \<times> cache_range list" where
  "cut_range st en r =
     (if st \<le> rstart r \<and> en \<ge> rend r then ([], [])
      else if st \<le> rstart r \<and> en < rend r \<and> en \<ge> rstart r then ([r\<lparr>rstart := en + 1\<rparr>], [])
      else if st > rstart r \<and> st \<le> rend r \<and> en \<ge> rend r then ([r\<lparr>rend := st - 1\<rparr>], [])
      else if st > rstart r \<and> en < rend r
        then ([r\<lparr>rend := st - 1\<rparr>], [\<lparr>rstart = en + 1, rend = rend r\<rparr>])
      else ([r], []))"

definition remove_range :: "u64 \<Rightarrow> u64 \<Rightarrow> cache_range list \<Rightarrow> cache_range list" where
  "remove_range st en rs =
     concat (map (fst \<circ> cut_range st en) rs) @ concat (map (snd \<circ> cut_range st en) rs)"

definition removeRangeForKey :: "nskey \<Rightarrow> u64 \<Rightarrow> u64 \<Rightarrow> lz_index \<Rightarrow> lz_index" where
  "removeRangeForKey key st len s =
     (if \<not> isValidKey key \<or> len = 0 then s
      else case ranges s (the key) of
          None \<Rightarrow> s
        | Some rs \<Rightarrow>
            s\<lparr>ranges := (ranges s)(the key \<mapsto> remove_range st (st + len - 1) rs)\<rparr>)"

section \<open>Queries\<close>

definition isRangeCachedForKey :: "nskey \<Rightarrow> u64 \<Rightarrow> u64 \<Rightarrow> lz_index \<Rightarrow> bool" where
  "isRangeCachedForKey key st len s =
     (if \<not> isValidKey key \<or> len = 0 then True
      else case ranges s (the key) of
          None \<Rightarrow> False
        | Some rs \<Rightarrow> list_ex (\<lambda>r. st \<ge> rstart r \<and> st + len - 1 \<le> rend r) rs)"

fun first_gap :: "u64 \<Rightarrow> cache_range list \<Rightarrow> u64" where
  "first_gap p [] = p"
| "first_gap p (r # rs) = (if p < rstart r then p else first_gap (max p (rend r + 1)) rs)"

definition nextMissingOffsetForKey :: "nskey \<Rightarrow> lz_index \<Rightarrow> u64" where
  "nextMissingOffsetForKey key s =
     (if \<not> isValidKey key then 0
      else case ranges s (the key) of
          None \<Rightarrow> 0
        | Some rs \<Rightarrow> if rs = [] then 0 else first_gap 0 (sort_key rstart rs))"

definition isCompletedForKey :: "nskey \<Rightarrow> lz_index \<Rightarrow> bool" where
  "isCompletedForKey key s =
     (if \<not> isValidKey key then False
      else case totals s (the key) of
          None \<Rightarrow> False
        | Some tot \<Rightarrow>
            let p = (case ranges s (the key) of
                        None \<Rightarrow> 0
                      | Some rs \<Rightarrow> if rs = [] then 0 else first_gap 0 (sort_key rstart rs))
            in p \<ge> tot)"

definition setTotalLength :: "u64 \<Rightarrow> nskey \<Rightarrow> lz_index \<Rightarrow> lz_index" where
  "setTotalLength len key s =
     (if \<not> isValidKey key then s else s\<lparr>totals := (totals s)(the key \<mapsto> len)\<rparr>)"

definition totalLengthForKey :: "nskey \<Rightarrow> lz_index \<Rightarrow> u64 option" where
  "totalLengthForKey key s = (if \<not> isValidKey key then None else totals s (the key))"

definition cachedTotalLengthForKey :: "nskey \<Rightarrow> lz_index \<Rightarrow> u64" where
  "cachedTotalLengthForKey key s =
     (if \<not> isValidKey key then 0
      else case ranges s (the key) of
          None \<Rightarrow> 0
        | Some rs \<Rightarrow> fold (\<lambda>r total. total + (rend r - rstart r + 1)) rs 0)"

definition clearForKey :: "nskey \<Rightarrow> lz_index \<Rightarrow> lz_index" where
  "clearForKey key s =
     (if \<not> isValidKey key then s
      else s\<lparr>ranges := (ranges s)(the key := None), totals := (totals s)(the key := None)\<rparr>)"

section \<open>What a list of ranges stands for\<close>

text \<open>The bytes a range covers, as a set of natural numbers: both ends are included.\<close>

definition range_bytes :: "cache_range \<Rightarrow> nat set" where
  "range_bytes r = {unat (rstart r)..unat (rend r)}"

definition covered :: "cache_range list \<Rightarrow> nat set" where
  "covered rs = (\<Union>r \<in> set rs. range_bytes r)"

text \<open>
  A range is proper when it is not empty and its end is not the largest \<open>NSUInteger\<close>, so that
  the \<open>end + 1\<close> of the code does not wrap. Cached ranges keep a gap of at least one byte from
  each other: neighbours have been merged.
\<close>

definition proper :: "cache_range \<Rightarrow> bool" where
  "proper r \<longleftrightarrow> rstart r \<le> rend r \<and> unat (rend r) + 1 < 2 ^ 64"

definition gap :: "cache_range \<Rightarrow> cache_range \<Rightarrow> bool" where
  "gap r s \<longleftrightarrow> unat (rend r) + 1 < unat (rstart s) \<or> unat (rend s) + 1 < unat (rstart r)"

definition separated :: "cache_range list \<Rightarrow> bool" where
  "separated rs \<longleftrightarrow> (\<forall>r \<in> set rs. proper r) \<and> sorted_wrt gap rs"

section \<open>Ranges and their bytes\<close>

lemma proper_fits:
  assumes "fits st len" "len \<noteq> 0"
  shows "unat (st + len - 1) = unat st + unat len - 1"
    and "proper \<lparr>rstart = st, rend = st + len - 1\<rparr>"
    and "range_bytes \<lparr>rstart = st, rend = st + len - 1\<rparr> = span st len"
proof -
  have len: "0 < unat len" using assms(2) by (simp add: unat_gt_0)
  have add: "unat (st + len) = unat st + unat len"
    using assms(1) by (intro unat_add_fits) (simp add: fits_def)
  then have "unat (1::u64) \<le> unat (st + len)" using len by simp
  then show en: "unat (st + len - 1) = unat st + unat len - 1"
    using add by (simp add: unat_sub_fits)
  show "proper \<lparr>rstart = st, rend = st + len - 1\<rparr>"
    using assms(1) len en by (simp add: proper_def fits_def word_le_nat_alt)
  show "range_bytes \<lparr>rstart = st, rend = st + len - 1\<rparr> = span st len"
    using len en by (auto simp: range_bytes_def span_def)
qed

lemma proper_end: "proper r \<Longrightarrow> unat (rend r + 1) = unat (rend r) + 1"
  by (intro unat_add_one_fits) (simp add: proper_def)

lemma proper_nonempty: "proper r \<Longrightarrow> unat (rstart r) \<in> range_bytes r"
  by (simp add: proper_def range_bytes_def word_le_nat_alt)

lemma gap_sym: "gap r s \<Longrightarrow> gap s r"
  by (auto simp: gap_def)

text \<open>Two proper ranges keep a gap exactly when no byte of one is equal or next to one of the
  other: this is what lets a gap survive hulls and cuts.\<close>

lemma gap_iff_far:
  assumes "proper r" "proper s"
  shows "gap r s \<longleftrightarrow> (\<forall>x \<in> range_bytes r. \<forall>y \<in> range_bytes s. x + 1 < y \<or> y + 1 < x)"
proof
  assume "gap r s"
  then show "\<forall>x \<in> range_bytes r. \<forall>y \<in> range_bytes s. x + 1 < y \<or> y + 1 < x"
    by (auto simp: gap_def range_bytes_def)
next
  assume far: "\<forall>x \<in> range_bytes r. \<forall>y \<in> range_bytes s. x + 1 < y \<or> y + 1 < x"
  show "gap r s"
  proof (cases "unat (rstart r) \<le> unat (rstart s)")
    case True
    define x where "x = min (unat (rend r)) (unat (rstart s))"
    have "x \<in> range_bytes r" "unat (rstart s) \<in> range_bytes s"
      using assms True by (auto simp: x_def range_bytes_def proper_def word_le_nat_alt)
    with far have "x + 1 < unat (rstart s) \<or> unat (rstart s) + 1 < x" by blast
    then show ?thesis by (auto simp: x_def gap_def)
  next
    case False
    define y where "y = min (unat (rend s)) (unat (rstart r))"
    have "unat (rstart r) \<in> range_bytes r" "y \<in> range_bytes s"
      using assms False by (auto simp: y_def range_bytes_def proper_def word_le_nat_alt)
    with far have "unat (rstart r) + 1 < y \<or> y + 1 < unat (rstart r)" by blast
    then show ?thesis by (auto simp: y_def gap_def)
  qed
qed

lemma touches_iff_not_gap:
  assumes "proper n" "proper r"
  shows "touches n r \<longleftrightarrow> \<not> gap n r"
  using assms by (auto simp: touches_def gap_def word_le_nat_alt proper_end)

lemma hull_bytes:
  assumes "proper n" "proper r" "touches n r"
  defines "h \<equiv> \<lparr>rstart = min (rstart n) (rstart r), rend = max (rend n) (rend r)\<rparr>"
  shows "proper h" and "range_bytes h = range_bytes n \<union> range_bytes r"
proof -
  have t: "unat (rstart n) \<le> unat (rend r) + 1" "unat (rstart r) \<le> unat (rend n) + 1"
    using assms by (auto simp: touches_def word_le_nat_alt proper_end)
  have p: "unat (rstart n) \<le> unat (rend n)" "unat (rstart r) \<le> unat (rend r)"
    using assms by (auto simp: proper_def word_le_nat_alt)
  show "proper h"
    using assms(1,2) p by (auto simp: h_def proper_def word_le_nat_alt unat_min unat_max)
  show "range_bytes h = range_bytes n \<union> range_bytes r"
    using t p by (auto simp: h_def range_bytes_def unat_min unat_max)
qed

lemma covered_simps [simp]:
  "covered [] = {}"
  "covered (r # rs) = range_bytes r \<union> covered rs"
  "covered (rs @ rs') = covered rs \<union> covered rs'"
  by (auto simp: covered_def)

lemma covered_cong: "set rs = set rs' \<Longrightarrow> covered rs = covered rs'"
  by (simp add: covered_def)

lemma separated_simps [simp]:
  "separated []"
  "separated (r # rs) \<longleftrightarrow> proper r \<and> (\<forall>s \<in> set rs. gap r s) \<and> separated rs"
  by (auto simp: separated_def)

lemma separated_append:
  "separated (rs @ rs') \<longleftrightarrow>
     separated rs \<and> separated rs' \<and> (\<forall>r \<in> set rs. \<forall>s \<in> set rs'. gap r s)"
  by (auto simp: separated_def sorted_wrt_append)

lemma separated_proper: "separated rs \<Longrightarrow> r \<in> set rs \<Longrightarrow> proper r"
  by (simp add: separated_def)

lemma separated_perm: "mset rs = mset rs' \<Longrightarrow> separated rs \<Longrightarrow> separated rs'"
  unfolding separated_def
  using sorted_wrt_perm [of gap rs rs'] gap_sym mset_eq_setD by metis

lemma separated_gap:
  "separated rs \<Longrightarrow> r \<in> set rs \<Longrightarrow> s \<in> set rs \<Longrightarrow> r \<noteq> s \<Longrightarrow> gap r s"
  by (induction rs) (auto intro: gap_sym)

section \<open>Adding and removing\<close>

lemma absorb_correct:
  assumes "proper n" "separated rs" "absorb n rs = (n', kept)"
  shows "proper n' \<and> separated (kept @ [n']) \<and> set kept \<subseteq> set rs
    \<and> range_bytes n' \<union> covered kept = range_bytes n \<union> covered rs
    \<and> (\<forall>s. proper s \<longrightarrow> gap n s \<longrightarrow> (\<forall>r \<in> set rs. gap r s) \<longrightarrow> gap n' s)"
  using assms
proof (induction n rs arbitrary: n' kept rule: absorb.induct)
  case (1 n)
  then show ?case by (auto simp: separated_def)
next
  case (2 n r rs)
  let ?h = "\<lparr>rstart = min (rstart n) (rstart r), rend = max (rend n) (rend r)\<rparr>"
  show ?case
  proof (cases "touches n r")
    case True
    then have h: "proper ?h" "range_bytes ?h = range_bytes n \<union> range_bytes r"
      using "2.prems" hull_bytes [of n r] by auto
    from True "2.prems" have eq: "absorb ?h rs = (n', kept)" "separated rs" by simp_all
    have hgap: "gap ?h s" if "proper s" "gap n s" "gap r s" for s
      using that h "2.prems"(1,2) gap_iff_far [of n s] gap_iff_far [of r s] gap_iff_far [of ?h s]
      by auto
    from "2.IH"(1) [OF True h(1) eq(2,1)] show ?thesis
      using h(2) hgap by (auto simp: Un_assoc)
  next
    case False
    then obtain kept' where eq: "absorb n rs = (n', kept')" and kept: "kept = r # kept'"
      using "2.prems"(3) by (auto split: prod.splits)
    have nr: "gap n r" using False "2.prems" touches_iff_not_gap [of n r] by auto
    have rs: "separated rs" and r: "proper r" and rgap: "\<forall>s \<in> set rs. gap r s"
      using "2.prems"(2) by auto
    note IH = "2.IH"(2) [OF False "2.prems"(1) rs eq]
    then have "gap n' r" using nr r rgap gap_sym by blast
    then show ?thesis using IH r rgap by (auto simp: kept intro: gap_sym)
  qed
qed

lemma add_range_correct:
  assumes "fits st len" "len \<noteq> 0" "separated rs"
  shows "separated (add_range st (st + len - 1) rs)"
    and "covered (add_range st (st + len - 1) rs) = covered rs \<union> span st len"
    and "sorted (map rstart (add_range st (st + len - 1) rs))"
proof -
  obtain n' kept where eq: "absorb \<lparr>rstart = st, rend = st + len - 1\<rparr> rs = (n', kept)"
    by fastforce
  note a = absorb_correct [OF proper_fits(2) [OF assms(1,2)] assms(3) eq]
  then show "separated (add_range st (st + len - 1) rs)"
    by (auto simp: add_range_def eq intro: separated_perm [of "kept @ [n']"])
  show "sorted (map rstart (add_range st (st + len - 1) rs))"
    by (simp add: add_range_def eq)
  have "covered (sort_key rstart (kept @ [n'])) = covered (kept @ [n'])"
    by (intro covered_cong) simp
  then show "covered (add_range st (st + len - 1) rs) = covered rs \<union> span st len"
    using a proper_fits(3) [OF assms(1,2)] by (auto simp: add_range_def eq)
qed

lemma cut_range_correct:
  assumes "proper r" "st \<le> en" "unat en + 1 < 2 ^ 64"
  shows "separated (fst (cut_range st en r) @ snd (cut_range st en r))"
    and "covered (fst (cut_range st en r) @ snd (cut_range st en r)) =
           range_bytes r - {unat st..unat en}"
proof -
  have e: "unat (en + 1) = unat en + 1" using assms(3) by (intro unat_add_one_fits) simp
  have s: "unat (st - 1) = unat st - 1" if "st > rstart r"
    using that by (intro trans [OF unat_sub_fits]) (auto simp: word_less_nat_alt)
  note d = assms(1,2) e s
  show "separated (fst (cut_range st en r) @ snd (cut_range st en r))"
    using d by (auto simp: cut_range_def proper_def gap_def word_le_nat_alt word_less_nat_alt)
  show "covered (fst (cut_range st en r) @ snd (cut_range st en r)) =
          range_bytes r - {unat st..unat en}"
    using d
    by (auto simp: cut_range_def proper_def range_bytes_def word_le_nat_alt word_less_nat_alt)
qed

lemma covered_subset_bytes: "p \<in> set rs \<Longrightarrow> range_bytes p \<subseteq> covered rs"
  by (auto simp: covered_def)

lemma remove_range_correct:
  assumes "separated rs" "st \<le> en" "unat en + 1 < 2 ^ 64"
  shows "separated (remove_range st en rs)"
    and "covered (remove_range st en rs) = covered rs - {unat st..unat en}"
proof -
  let ?pieces = "\<lambda>r. fst (cut_range st en r) @ snd (cut_range st en r)"
  have m: "mset (concat (map ?pieces rs)) = mset (remove_range st en rs)"
    by (induction rs) (auto simp: remove_range_def)
  have sub: "range_bytes p \<subseteq> range_bytes r"
    if "proper r" "p \<in> set (?pieces r)" for p r
    using that cut_range_correct(2) [OF that(1) assms(2,3)] covered_subset_bytes [OF that(2)]
    by auto
  have sep: "separated (concat (map ?pieces rs))" using assms(1)
  proof (induction rs)
    case Nil
    then show ?case by simp
  next
    case (Cons r rs)
    have "gap p q" if "p \<in> set (?pieces r)" "r' \<in> set rs" "q \<in> set (?pieces r')" for p q r'
    proof -
      have pr: "proper r" "proper r'" "gap r r'"
        using Cons.prems that by (auto dest: separated_proper)
      have pq: "proper p" "proper q"
        using that cut_range_correct(1) [OF pr(1) assms(2,3)]
          cut_range_correct(1) [OF pr(2) assms(2,3)] by (auto dest: separated_proper)
      show ?thesis
        using pr sub [OF pr(1) that(1)] sub [OF pr(2) that(3)]
        by (auto simp: gap_iff_far [OF pq] gap_iff_far [OF pr(1,2)])
    qed
    moreover have "separated (?pieces r)"
      using Cons.prems by (intro cut_range_correct(1) assms) simp
    ultimately show ?case using Cons
      by (simp only: list.map concat.simps separated_append [of "?pieces r"]) auto
  qed
  then show "separated (remove_range st en rs)" by (rule separated_perm [OF m])
  have "covered (remove_range st en rs) = covered (concat (map ?pieces rs))"
    by (intro covered_cong mset_eq_setD [OF m [symmetric]])
  also have "\<dots> = covered rs - {unat st..unat en}"
    using assms(1)
  proof (induction rs)
    case Nil
    then show ?case by simp
  next
    case (Cons r rs)
    then show ?case
      using cut_range_correct(2) [OF _ assms(2,3), of r]
      by (simp only: list.map concat.simps covered_simps separated_simps) auto
  qed
  finally show "covered (remove_range st en rs) = covered rs - {unat st..unat en}" .
qed

lemma fits_end:
  assumes "fits st len" "len \<noteq> 0"
  shows "st \<le> st + len - 1" "unat (st + len - 1) + 1 < 2 ^ 64"
    and "{unat st..unat (st + len - 1)} = span st len"
  using proper_fits [OF assms] by (auto simp: proper_def range_bytes_def)

section \<open>Queries on separated ranges\<close>

text \<open>A span inside the covered bytes lies inside a single range: going up one byte at a time
  never crosses a gap.\<close>

lemma one_range_covers:
  assumes sep: "separated rs" and sub: "{a..b} \<subseteq> covered rs" and "a \<le> b"
  shows "\<exists>r \<in> set rs. {a..b} \<subseteq> range_bytes r"
  using \<open>a \<le> b\<close> sub
proof (induction b rule: dec_induct)
  case base
  then show ?case by (auto simp: covered_def)
next
  case (step n)
  then obtain r where r: "r \<in> set rs" "{a..n} \<subseteq> range_bytes r" by fastforce
  have "Suc n \<in> {a..Suc n}" using step.hyps(1) by simp
  with step.prems have "Suc n \<in> covered rs" by blast
  then obtain s where s: "s \<in> set rs" "Suc n \<in> range_bytes s"
    by (auto simp: covered_def)
  have "r = s"
  proof (rule ccontr)
    assume "r \<noteq> s"
    then have "gap r s" using separated_gap [OF sep r(1) s(1)] by simp
    moreover have "n \<in> range_bytes r" using r(2) step.hyps(1) by auto
    ultimately show False
      using s(2) gap_iff_far [of r s] separated_proper [OF sep] r(1) s(1) by fastforce
  qed
  moreover have "{a..Suc n} = insert (Suc n) {a..n}" using step.hyps(1) by auto
  ultimately have "{a..Suc n} \<subseteq> range_bytes r" using r s by simp
  with r(1) show ?case by blast
qed

lemma first_gap_ge: "\<forall>r \<in> set rs. proper r \<Longrightarrow> unat p \<le> unat (first_gap p rs)"
  by (induction p rs rule: first_gap.induct)
    (auto simp: proper_end unat_max dest: order.trans [rotated])

lemma first_gap_below:
  assumes "\<forall>r \<in> set rs. proper r" "unat p \<le> n" "n < unat (first_gap p rs)"
  shows "n \<in> covered rs"
  using assms
proof (induction p rs rule: first_gap.induct)
  case (1 p)
  then show ?case by simp
next
  case (2 p r rs)
  show ?case
  proof (cases "p < rstart r")
    case True
    with "2.prems" show ?thesis by simp
  next
    case False
    show ?thesis
    proof (cases "n \<le> unat (rend r)")
      case True
      with False "2.prems" show ?thesis
        by (auto simp: range_bytes_def word_less_nat_alt)
    next
      case n: False
      then have "n \<in> covered rs"
        using "2.prems" by (intro "2.IH" [OF False]) (auto simp: False unat_max proper_end)
      then show ?thesis by simp
    qed
  qed
qed

lemma first_gap_not_covered:
  assumes "\<forall>r \<in> set rs. proper r" "sorted (map rstart rs)"
  shows "unat (first_gap p rs) \<notin> covered rs"
  using assms
proof (induction p rs rule: first_gap.induct)
  case (1 p)
  then show ?case by simp
next
  case (2 p r rs)
  show ?case
  proof (cases "p < rstart r")
    case True
    with "2.prems" show ?thesis
      by (force simp: covered_def range_bytes_def word_less_nat_alt word_le_nat_alt)
  next
    case False
    have "unat (max p (rend r + 1)) \<le> unat (first_gap (max p (rend r + 1)) rs)"
      using "2.prems" by (intro first_gap_ge) simp
    then have "unat (rend r) < unat (first_gap (max p (rend r + 1)) rs)"
      using "2.prems" by (auto simp: unat_max proper_end)
    then show ?thesis
      using False "2.IH" [OF False] "2.prems" by (auto simp: range_bytes_def)
  qed
qed

lemma first_gap_least:
  assumes "\<forall>r \<in> set rs. proper r"
  shows "unat (first_gap 0 (sort_key rstart rs)) = (LEAST n. n \<notin> covered rs)"
proof (rule Least_equality [symmetric])
  have c: "covered (sort_key rstart rs) = covered rs" by (intro covered_cong) simp
  show "unat (first_gap 0 (sort_key rstart rs)) \<notin> covered rs"
    using assms first_gap_not_covered [of "sort_key rstart rs"] by (simp add: c)
  show "unat (first_gap 0 (sort_key rstart rs)) \<le> n" if "n \<notin> covered rs" for n
    using that assms first_gap_below [of "sort_key rstart rs" 0 n] by (fastforce simp: c)
qed

lemma finite_covered [simp]: "finite (covered rs)"
  by (simp add: covered_def range_bytes_def)

lemma covered_bound: "separated rs \<Longrightarrow> covered rs \<subseteq> {..<2 ^ 64 - 1}"
  by (auto simp: covered_def range_bytes_def separated_def proper_def)

lemma total_is_card:
  assumes "separated rs" "unat acc + card (covered rs) < 2 ^ 64"
  shows "unat (fold (\<lambda>r total. total + (rend r - rstart r + 1)) rs acc) =
    unat acc + card (covered rs)"
  using assms
proof (induction rs arbitrary: acc)
  case Nil
  then show ?case by simp
next
  case (Cons r rs)
  have le: "unat (rstart r) \<le> unat (rend r)" and p: "proper r"
    using Cons.prems(1) by (simp_all add: proper_def word_le_nat_alt)
  have "range_bytes r \<inter> covered rs = {}"
    using Cons.prems(1) by (force simp: covered_def range_bytes_def gap_def)
  then have card: "card (covered (r # rs)) = card (range_bytes r) + card (covered rs)"
    by (simp add: card_Un_disjoint range_bytes_def)
  have cr: "card (range_bytes r) = unat (rend r) - unat (rstart r) + 1"
    using le by (simp add: range_bytes_def)
  have "unat (rend r - rstart r) = unat (rend r) - unat (rstart r)"
    using le by (rule unat_sub_fits)
  then have len: "unat (rend r - rstart r + 1) = card (range_bytes r)"
    using p unfolding cr by (subst unat_add_one_fits) (auto simp: proper_def)
  then have "unat (acc + (rend r - rstart r + 1)) = unat acc + card (range_bytes r)"
    using Cons.prems(2) card by (subst unat_add_fits) auto
  with Cons.IH [of "acc + (rend r - rstart r + 1)"] Cons.prems card show ?case by simp
qed

section \<open>The index as a whole\<close>

definition index_bytes :: "lz_index \<Rightarrow> nskey \<Rightarrow> nat set" where
  "index_bytes s key =
     (case key of None \<Rightarrow> {} | Some k \<Rightarrow> (case ranges s k of None \<Rightarrow> {} | Some rs \<Rightarrow> covered rs))"

definition apart :: "cache_range \<Rightarrow> cache_range \<Rightarrow> bool" where
  "apart r s \<longleftrightarrow> range_bytes r \<inter> range_bytes s = {}"

definition index_inv :: "lz_index \<Rightarrow> bool" where
  "index_inv s \<longleftrightarrow>
     (\<forall>k rs. ranges s k = Some rs \<longrightarrow> separated rs) \<and>
     (\<forall>k rs. loading s k = Some rs \<longrightarrow>
        k \<noteq> [] \<and> (\<forall>r \<in> set rs. proper r) \<and> sorted_wrt apart rs)"

definition legal_request :: "nskey \<Rightarrow> u64 \<Rightarrow> u64 \<Rightarrow> bool" where
  "legal_request key st len \<longleftrightarrow> isValidKey key \<and> len \<noteq> 0 \<and> fits st len"

lemma isValidKey_simps [simp]: "\<not> isValidKey None" "isValidKey (Some k) \<longleftrightarrow> k \<noteq> []"
  by (simp_all add: isValidKey_def)

lemma legal_requestE:
  assumes "legal_request key st len"
  obtains k where "key = Some k" "k \<noteq> []" "len \<noteq> 0" "fits st len"
  using assms by (cases key) (auto simp: legal_request_def)

lemma index_inv_empty [inv_intros]: "index_inv empty_index"
  by (simp add: index_inv_def empty_index_def)

lemma index_inv_ranges: "index_inv s \<Longrightarrow> ranges s k = Some rs \<Longrightarrow> separated rs"
  by (simp add: index_inv_def)

lemma index_inv_add [inv_intros]:
  assumes "index_inv s" "legal_request key st len"
  shows "index_inv (addRangeForKey key st len s)"
proof -
  have "separated (add_range st (st + len - 1)
      (case ranges s (the key) of None \<Rightarrow> [] | Some rs \<Rightarrow> rs))"
    using assms by (intro add_range_correct)
      (auto simp: legal_request_def split: option.split dest: index_inv_ranges)
  then show ?thesis using assms(1) by (auto simp: index_inv_def addRangeForKey_def Let_def)
qed

lemma index_inv_remove [inv_intros]:
  assumes "index_inv s" "legal_request key st len"
  shows "index_inv (removeRangeForKey key st len s)"
  using assms fits_end [of st len]
  by (auto simp: index_inv_def removeRangeForKey_def legal_request_def remove_range_correct
      split: option.split)

lemma index_bytes_add [abs_simps]:
  assumes "index_inv s" "legal_request key st len"
  shows "index_bytes (addRangeForKey key st len s) key' =
    (if key' = key then index_bytes s key \<union> span st len else index_bytes s key')"
proof -
  obtain k where k: "key = Some k" "k \<noteq> []" "len \<noteq> 0" "fits st len"
    using assms(2) by (rule legal_requestE)
  note c = add_range_correct(2) [OF k(4,3)]
  show ?thesis
    using k c [OF index_inv_ranges [OF assms(1)], of k] c [of "[]"]
    by (cases key') (auto simp: index_bytes_def addRangeForKey_def Let_def split: option.split)
qed

lemma index_bytes_remove [abs_simps]:
  assumes "index_inv s" "legal_request key st len"
  shows "index_bytes (removeRangeForKey key st len s) key' =
    (if key' = key then index_bytes s key - span st len else index_bytes s key')"
proof -
  obtain k where k: "key = Some k" "k \<noteq> []" "len \<noteq> 0" "fits st len"
    using assms(2) by (rule legal_requestE)
  note c = remove_range_correct(2) [OF index_inv_ranges [OF assms(1)] fits_end(1,2) [OF k(4,3)],
      unfolded fits_end(3) [OF k(4,3)], of k]
  show ?thesis
    using k c
    by (cases key') (auto simp: index_bytes_def removeRangeForKey_def split: option.split)
qed

lemma isRangeCached_iff:
  assumes "index_inv s" "legal_request key st len"
  shows "isRangeCachedForKey key st len s \<longleftrightarrow> span st len \<subseteq> index_bytes s key"
proof -
  obtain k where k: "key = Some k" "k \<noteq> []" "len \<noteq> 0" "fits st len"
    using assms(2) by (rule legal_requestE)
  note e = fits_end [OF k(4,3)]
  have "span st len \<subseteq> covered rs \<longleftrightarrow> (\<exists>r \<in> set rs. rstart r \<le> st \<and> st + len - 1 \<le> rend r)"
    if "ranges s k = Some rs" for rs
  proof -
    have "rstart r \<le> st \<and> st + len - 1 \<le> rend r \<longleftrightarrow> span st len \<subseteq> range_bytes r" for r
      using e(1) unfolding e(3) [symmetric]
      by (auto simp: range_bytes_def word_le_nat_alt)
    moreover have "\<exists>r \<in> set rs. span st len \<subseteq> range_bytes r" if "span st len \<subseteq> covered rs"
      using one_range_covers [OF index_inv_ranges [OF assms(1) \<open>ranges s k = Some rs\<close>],
          of "unat st" "unat (st + len - 1)"] e(1) that
      unfolding e(3) by (auto simp: word_le_nat_alt)
    ultimately show ?thesis using covered_subset_bytes [of _ rs] by blast
  qed
  then show ?thesis
    using span_nonempty [OF k(3)] k
    by (auto simp: isRangeCachedForKey_def index_bytes_def list_ex_iff split: option.split)
qed

interpretation index: byte_ranges addRangeForKey removeRangeForKey isRangeCachedForKey
    index_bytes legal_request index_inv
  by unfold_locales
    (auto simp: index_inv_add index_inv_remove index_bytes_add index_bytes_remove
      isRangeCached_iff legal_request_def)

section \<open>Progress of a download\<close>

lemma nextMissing_least:
  assumes "index_inv s" "isValidKey key"
  shows "unat (nextMissingOffsetForKey key s) = (LEAST n. n \<notin> index_bytes s key)"
  using assms first_gap_least
  by (cases key)
    (auto simp: nextMissingOffsetForKey_def index_bytes_def index_inv_def separated_def
      split: option.split)

lemma below_least_iff: "(\<forall>n < t. n \<in> A) \<longleftrightarrow> t \<le> (LEAST n. n \<notin> A)" if fin: "finite (A :: nat set)"
proof -
  obtain m where m: "m \<notin> A" using ex_new_if_finite [OF infinite_UNIV_nat fin] by blast
  show ?thesis
    using LeastI [of "\<lambda>n. n \<notin> A" m] m not_less_Least [of _ "\<lambda>n. n \<notin> A"]
    by (meson leI le_less_trans less_le_trans)
qed

lemma finite_index_bytes [simp]: "finite (index_bytes s key)"
  by (auto simp: index_bytes_def split: option.split)

lemma isCompleted_iff:
  assumes "index_inv s" "isValidKey key"
  shows "isCompletedForKey key s \<longleftrightarrow>
    (\<exists>t. totalLengthForKey key s = Some t \<and> {..<unat t} \<subseteq> index_bytes s key)"
proof -
  have "isCompletedForKey key s \<longleftrightarrow>
    (\<exists>t. totalLengthForKey key s = Some t \<and> unat t \<le> unat (nextMissingOffsetForKey key s))"
    using assms(2)
    by (auto simp: isCompletedForKey_def totalLengthForKey_def nextMissingOffsetForKey_def
        word_le_nat_alt split: option.split)
  then show ?thesis
    using below_least_iff [OF finite_index_bytes, of _ s key] assms
    by (auto simp: nextMissing_least subset_iff)
qed

lemma cachedTotalLength_card:
  assumes "index_inv s" "isValidKey key"
  shows "unat (cachedTotalLengthForKey key s) = card (index_bytes s key)"
proof -
  have "unat (fold (\<lambda>r total. total + (rend r - rstart r + 1)) rs 0) = card (covered rs)"
    if "separated rs" for rs
    using total_is_card [OF that, of 0] card_mono [OF _ covered_bound [OF that]] by simp
  then show ?thesis using assms
    by (cases key)
      (auto simp: cachedTotalLengthForKey_def index_bytes_def split: option.split
        dest: index_inv_ranges)
qed

section \<open>Download marks\<close>

definition claim_of :: "cache_range \<Rightarrow> u64 \<times> u64" where
  "claim_of r = (rstart r, rend r - rstart r + 1)"

definition held_claims :: "lz_index \<Rightarrow> nskey \<Rightarrow> (u64 \<times> u64) set" where
  "held_claims s key =
     (case key of
        None \<Rightarrow> {}
      | Some k \<Rightarrow> (case loading s k of None \<Rightarrow> {} | Some rs \<Rightarrow> claim_of ` set rs))"

lemma claim_of_proper:
  assumes "proper r"
  shows "snd (claim_of r) \<noteq> 0" "fits (fst (claim_of r)) (snd (claim_of r))"
    and "span (fst (claim_of r)) (snd (claim_of r)) = range_bytes r"
proof -
  have le: "unat (rstart r) \<le> unat (rend r)"
    using assms by (simp add: proper_def word_le_nat_alt)
  have n: "unat (rend r - rstart r + 1) = unat (rend r) - unat (rstart r) + 1"
    using assms le by (subst unat_add_one_fits) (auto simp: unat_sub_fits proper_def)
  then have "unat (rend r - rstart r + 1) \<noteq> 0" by simp
  then show "snd (claim_of r) \<noteq> 0" unfolding claim_of_def by (metis snd_conv unat_0)
  show "fits (fst (claim_of r)) (snd (claim_of r))"
    using assms le n by (simp add: claim_of_def fits_def proper_def)
  show "span (fst (claim_of r)) (snd (claim_of r)) = range_bytes r"
    using le n by (auto simp: claim_of_def span_def range_bytes_def)
qed

lemma claim_of_eq_iff: "claim_of r = (st, n) \<longleftrightarrow> rstart r = st \<and> rend r = st + n - 1"
  by (auto simp: claim_of_def algebra_simps)

lemma overlaps_iff:
  assumes "fits st n" "n \<noteq> 0" "proper r"
  shows "overlaps st (st + n - 1) r \<longleftrightarrow> span st n \<inter> range_bytes r \<noteq> {}"
proof -
  have "unat (rstart r) \<le> unat (rend r)" "unat st \<le> unat (st + n - 1)"
    using assms(3) fits_end [OF assms(1,2)] by (simp_all add: proper_def word_le_nat_alt)
  then have "overlaps st (st + n - 1) r \<longleftrightarrow>
    max (unat st) (unat (rstart r)) \<in> {unat st..unat (st + n - 1)} \<inter> range_bytes r"
    by (auto simp: overlaps_def range_bytes_def word_le_nat_alt)
  also have "\<dots> \<longleftrightarrow> {unat st..unat (st + n - 1)} \<inter> range_bytes r \<noteq> {}"
    by (auto simp: range_bytes_def)
  finally show ?thesis by (simp add: fits_end(3) [OF assms(1,2)])
qed

lemma index_inv_loading:
  "index_inv s \<Longrightarrow> loading s k = Some rs \<Longrightarrow>
   k \<noteq> [] \<and> (\<forall>r \<in> set rs. proper r) \<and> sorted_wrt apart rs"
  by (simp add: index_inv_def)

lemma index_inv_update_loading:
  assumes "index_inv s" "k \<noteq> []" "\<forall>r \<in> set rs. proper r" "sorted_wrt apart rs"
  shows "index_inv (s\<lparr>loading := (loading s)(k \<mapsto> rs)\<rparr>)"
  using assms by (auto simp: index_inv_def)

lemma mark_iff:
  assumes "index_inv s" "legal_request key st n"
  shows "fst (markRangeLoadingForKey key st n s) \<longleftrightarrow>
    (\<forall>(a, m) \<in> held_claims s key. span st n \<inter> span a m = {})"
proof -
  obtain k where k: "key = Some k" "k \<noteq> []" "n \<noteq> 0" "fits st n"
    using assms(2) by (rule legal_requestE)
  have o: "overlaps st (st + n - 1) r \<longleftrightarrow>
      span st n \<inter> span (fst (claim_of r)) (snd (claim_of r)) \<noteq> {}" if "proper r" for r
    using overlaps_iff [OF k(4,3) that] claim_of_proper(3) [OF that] by simp
  show ?thesis
  proof (cases "loading s k")
    case None
    then show ?thesis using k by (simp add: markRangeLoadingForKey_def held_claims_def Let_def)
  next
    case (Some rs)
    then have "\<forall>r \<in> set rs. proper r" using index_inv_loading [OF assms(1)] by simp
    then have "list_ex (overlaps st (st + n - 1)) rs \<longleftrightarrow>
        (\<exists>r \<in> set rs. span st n \<inter> span (fst (claim_of r)) (snd (claim_of r)) \<noteq> {})"
      using o by (auto simp: list_ex_iff)
    then show ?thesis using k Some
      by (simp add: markRangeLoadingForKey_def held_claims_def Let_def split_beta)
  qed
qed

lemma index_inv_mark [inv_intros]:
  assumes "index_inv s" "legal_request key st n"
  shows "index_inv (snd (markRangeLoadingForKey key st n s))"
proof -
  obtain k where k: "key = Some k" "k \<noteq> []" "n \<noteq> 0" "fits st n"
    using assms(2) by (rule legal_requestE)
  define rs where "rs = (case loading s k of None \<Rightarrow> [] | Some rs \<Rightarrow> rs)"
  have rs: "\<forall>r \<in> set rs. proper r" "sorted_wrt apart rs"
    unfolding rs_def
    using index_inv_loading [OF assms(1), of k] by (cases "loading s k"; simp)+
  have "apart r \<lparr>rstart = st, rend = st + n - 1\<rparr>"
    if "r \<in> set rs" "\<not> overlaps st (st + n - 1) r" for r
    using that rs overlaps_iff [OF k(4,3), of r] proper_fits(3) [OF k(4,3)]
    by (auto simp: apart_def)
  then show ?thesis
    using k rs proper_fits(2) [OF k(4,3)] assms(1)
    by (auto simp: markRangeLoadingForKey_def Let_def sorted_wrt_append list_ex_iff
        rs_def [symmetric] intro!: index_inv_update_loading)
qed

lemma held_mark:
  assumes "legal_request key st n"
  shows "held_claims (snd (markRangeLoadingForKey key st n s)) key' =
    (if key' = key \<and> fst (markRangeLoadingForKey key st n s)
     then insert (st, n) (held_claims s key) else held_claims s key')"
proof -
  obtain k where k: "key = Some k" "k \<noteq> []" "n \<noteq> 0" "fits st n"
    using assms by (rule legal_requestE)
  have "claim_of \<lparr>rstart = st, rend = st + n - 1\<rparr> = (st, n)" by (simp add: claim_of_eq_iff)
  then show ?thesis using k
    by (cases key') (auto simp: markRangeLoadingForKey_def held_claims_def Let_def
        split: option.split)
qed

lemma index_inv_unmark [inv_intros]:
  assumes "index_inv s"
  shows "index_inv (unmarkRangeLoadingForKey key st n s)"
proof -
  have "(\<forall>r \<in> set (filter P rs). proper r) \<and> sorted_wrt apart (filter P rs)"
    if "loading s k = Some rs" for k rs P
    using index_inv_loading [OF assms that] sorted_wrt_filter by auto
  then show ?thesis using assms
    by (auto simp: index_inv_def unmarkRangeLoadingForKey_def Let_def split: option.split)
qed

lemma held_unmark:
  assumes "legal_request key st n"
  shows "held_claims (unmarkRangeLoadingForKey key st n s) key' =
    (if key' = key then held_claims s key - {(st, n)} else held_claims s key')"
proof -
  obtain k where k: "key = Some k" "k \<noteq> []" "n \<noteq> 0" "fits st n"
    using assms by (rule legal_requestE)
  have "claim_of ` set (filter (\<lambda>r. \<not> (rstart r = st \<and> rend r = st + n - 1)) rs) =
      claim_of ` set rs - {(st, n)}" for rs
    unfolding claim_of_eq_iff [symmetric] by auto
  moreover have "filter (\<lambda>r. \<not> (rstart r = st \<and> rend r = st + n - 1)) rs = [] \<Longrightarrow>
      claim_of ` set rs - {(st, n)} = {}" for rs
    unfolding claim_of_eq_iff [symmetric] by (auto simp: filter_empty_conv)
  ultimately show ?thesis using k
    by (cases key') (auto simp: unmarkRangeLoadingForKey_def held_claims_def Let_def
        split: option.split)
qed

lemma held_legal:
  assumes "index_inv s" "(a, m) \<in> held_claims s key"
  shows "legal_request key a m"
proof -
  obtain k rs r where "key = Some k" "loading s k = Some rs" "r \<in> set rs" "claim_of r = (a, m)"
    using assms(2) by (auto simp: held_claims_def split: option.splits)
  then show ?thesis
    using assms(1) index_inv_loading [of s k rs] claim_of_proper [of r]
    by (auto simp: legal_request_def)
qed

interpretation marks: range_claims markRangeLoadingForKey unmarkRangeLoadingForKey
    held_claims legal_request index_inv
  by unfold_locales
    (auto simp: index_inv_mark index_inv_unmark mark_iff held_mark held_unmark
      intro: held_legal elim: legal_requestE)

section \<open>The index as a whole\<close>

text \<open>The calls that change the index, and what they stand for on the bytes, claims and totals.\<close>

datatype index_op =
    OpAdd nskey u64 u64
  | OpRemove nskey u64 u64
  | OpMark nskey u64 u64
  | OpUnmark nskey u64 u64
  | OpSetTotal u64 nskey
  | OpClear nskey

fun index_step :: "index_op \<Rightarrow> lz_index \<Rightarrow> lz_index" where
  "index_step (OpAdd key st len) s = addRangeForKey key st len s"
| "index_step (OpRemove key st len) s = removeRangeForKey key st len s"
| "index_step (OpMark key st len) s = snd (markRangeLoadingForKey key st len s)"
| "index_step (OpUnmark key st len) s = unmarkRangeLoadingForKey key st len s"
| "index_step (OpSetTotal len key) s = setTotalLength len key s"
| "index_step (OpClear key) s = clearForKey key s"

fun index_legal :: "index_op \<Rightarrow> bool" where
  "index_legal (OpAdd key st len) = legal_request key st len"
| "index_legal (OpRemove key st len) = legal_request key st len"
| "index_legal (OpMark key st len) = legal_request key st len"
| "index_legal (OpUnmark key st len) = legal_request key st len"
| "index_legal (OpSetTotal len key) = isValidKey key"
| "index_legal (OpClear key) = isValidKey key"

record abstract_index =
  known :: "nskey \<Rightarrow> nat set"
  claimed :: "nskey \<Rightarrow> (u64 \<times> u64) set"
  size_of :: "nskey \<Rightarrow> u64 option"

definition index_abs :: "lz_index \<Rightarrow> abstract_index" where
  "index_abs s = \<lparr>known = index_bytes s, claimed = held_claims s,
                  size_of = (\<lambda>key. totalLengthForKey key s)\<rparr>"

fun index_astep :: "index_op \<Rightarrow> abstract_index \<Rightarrow> abstract_index" where
  "index_astep (OpAdd key st len) a = a\<lparr>known := (known a)(key := known a key \<union> span st len)\<rparr>"
| "index_astep (OpRemove key st len) a = a\<lparr>known := (known a)(key := known a key - span st len)\<rparr>"
| "index_astep (OpMark key st len) a =
     (if \<forall>(b, m) \<in> claimed a key. span st len \<inter> span b m = {}
      then a\<lparr>claimed := (claimed a)(key := insert (st, len) (claimed a key))\<rparr> else a)"
| "index_astep (OpUnmark key st len) a =
     a\<lparr>claimed := (claimed a)(key := claimed a key - {(st, len)})\<rparr>"
| "index_astep (OpSetTotal len key) a = a\<lparr>size_of := (size_of a)(key := Some len)\<rparr>"
| "index_astep (OpClear key) a =
     a\<lparr>known := (known a)(key := {}), size_of := (size_of a)(key := None)\<rparr>"

text \<open>What an operation leaves alone: adding and removing do not touch claims and totals, marking
  does not touch ranges and totals.\<close>

lemma held_claims_cong: "loading s = loading s' \<Longrightarrow> held_claims s = held_claims s'"
  by (simp add: held_claims_def fun_eq_iff cong: option.case_cong)

lemma index_bytes_cong: "ranges s = ranges s' \<Longrightarrow> index_bytes s = index_bytes s'"
  by (simp add: index_bytes_def fun_eq_iff cong: option.case_cong)

lemma totals_cong: "totals s = totals s' \<Longrightarrow> totalLengthForKey key s = totalLengthForKey key s'"
  by (simp add: totalLengthForKey_def)

lemma frame:
  "loading (addRangeForKey key st len s) = loading s" "totals (addRangeForKey key st len s) = totals s"
  "loading (removeRangeForKey key st len s) = loading s" "totals (removeRangeForKey key st len s) = totals s"
  "ranges (snd (markRangeLoadingForKey key st len s)) = ranges s"
  "totals (snd (markRangeLoadingForKey key st len s)) = totals s"
  "ranges (unmarkRangeLoadingForKey key st len s) = ranges s"
  "totals (unmarkRangeLoadingForKey key st len s) = totals s"
  "loading (setTotalLength n key s) = loading s" "ranges (setTotalLength n key s) = ranges s"
  "loading (clearForKey key s) = loading s"
  by (auto simp: addRangeForKey_def removeRangeForKey_def markRangeLoadingForKey_def Let_def
      unmarkRangeLoadingForKey_def setTotalLength_def clearForKey_def split: option.split)

lemmas index_frame = frame(1,3,9,11)[THEN held_claims_cong] frame(5,7,10)[THEN index_bytes_cong]
  frame(2,4,6,8)[THEN totals_cong]

lemma index_inv_setTotal [inv_intros]: "index_inv s \<Longrightarrow> index_inv (setTotalLength n key s)"
  by (simp add: setTotalLength_def index_inv_def)

lemma index_inv_clear [inv_intros]: "index_inv s \<Longrightarrow> index_inv (clearForKey key s)"
  by (auto simp: clearForKey_def index_inv_def)

lemma index_clear_abs:
  "isValidKey key \<Longrightarrow> index_bytes (clearForKey key s) key' = (if key' = key then {} else index_bytes s key')"
  "isValidKey key \<Longrightarrow> totalLengthForKey key' (clearForKey key s) =
     (if key' = key then None else totalLengthForKey key' s)"
  "isValidKey key \<Longrightarrow> totalLengthForKey key' (setTotalLength n key s) =
     (if key' = key then Some n else totalLengthForKey key' s)"
  by (cases key; cases key';
      auto simp: clearForKey_def setTotalLength_def index_bytes_def totalLengthForKey_def)+

lemma index_step_sim:
  assumes "index_inv s" "index_legal e"
  shows "index_abs (index_step e s) = index_astep e (index_abs s)"
  using assms
  by (cases e)
    (auto simp: index_abs_def index_frame index_clear_abs index_bytes_add index_bytes_remove
      held_mark held_unmark mark_iff fun_eq_iff split: if_splits)

interpretation index_ops: simulation index_step index_legal index_inv index_abs index_astep
proof
  fix s e
  assume "index_inv s" "index_legal e"
  then show "index_inv (index_step e s)"
    by (cases e) (auto intro: inv_intros)
  show "index_abs (index_step e s) = index_astep e (index_abs s)"
    using \<open>index_inv s\<close> \<open>index_legal e\<close> by (rule index_step_sim)
qed

lemma index_abs_empty: "index_abs empty_index = \<lparr>known = (\<lambda>_. {}), claimed = (\<lambda>_. {}), size_of = (\<lambda>_. None)\<rparr>"
  by (auto simp: index_abs_def empty_index_def index_bytes_def held_claims_def totalLengthForKey_def
      fun_eq_iff split: option.split)

section \<open>Properties\<close>

text \<open>C1. Whatever legal calls are made on a new index, in any order and on any keys, no two ranges of
  a key overlap or touch, and the index stands for exactly the bytes added and not removed since, the
  claims marked and not given back, and the last total set. (The order of the ranges in their array is
  no part of this: \<open>removeRangeForKey\<close> puts the right half of a range it cuts at the end, and every
  query that needs the order sorts first.)\<close>

theorem index_refines_sets:
  assumes "list_all index_legal es"
  shows "index_inv (fold index_step es empty_index)
    \<and> index_abs (fold index_step es empty_index) =
        fold index_astep es \<lparr>known = (\<lambda>_. {}), claimed = (\<lambda>_. {}), size_of = (\<lambda>_. None)\<rparr>"
  using index_ops.run_correct[OF index_inv_empty assms] unfolding index_abs_empty .

theorem index_refines_sets_witness:
  defines "es \<equiv> [OpMark (Some ''k'') 0 10, OpAdd (Some ''k'') 0 10, OpUnmark (Some ''k'') 0 10]"
  shows "index_inv (fold index_step es empty_index)
    \<and> known (index_abs (fold index_step es empty_index)) (Some ''k'') = span 0 10
    \<and> claimed (index_abs (fold index_step es empty_index)) (Some ''k'') = {}"
proof -
  have "list_all index_legal es" by (simp add: es_def legal_request_def fits_def)
  from index_refines_sets[OF this] show ?thesis by (simp add: es_def)
qed

text \<open>C4. Adding a range to sorted, separated ranges gives sorted, separated ranges that cover
  exactly the old bytes and the new ones: neighbours and overlapping ranges are merged into one.\<close>

theorem add_range_normalises:
  assumes "separated rs" and "fits st len" and "len \<noteq> 0"
  shows "separated (add_range st (st + len - 1) rs)
    \<and> sorted (map rstart (add_range st (st + len - 1) rs))
    \<and> covered (add_range st (st + len - 1) rs) = covered rs \<union> span st len"
  using add_range_correct[OF assms(2,3,1)] by blast

theorem add_range_normalises_witness:
  "add_range 10 (10 + 10 - 1) [\<lparr>rstart = 0, rend = 9\<rparr>, \<lparr>rstart = 20, rend = 29\<rparr>, \<lparr>rstart = 40, rend = 49\<rparr>]
      = [\<lparr>rstart = 0, rend = 29\<rparr>, \<lparr>rstart = 40, rend = 49\<rparr>]
   \<and> covered [\<lparr>rstart = 0, rend = 29\<rparr>, \<lparr>rstart = 40, rend = 49\<rparr>] =
     covered [\<lparr>rstart = 0, rend = 9\<rparr>, \<lparr>rstart = 20, rend = 29\<rparr>, \<lparr>rstart = 40, rend = 49\<rparr>] \<union> span 10 10"
  using add_range_normalises[of "[\<lparr>rstart = 0, rend = 9\<rparr>, \<lparr>rstart = 20, rend = 29\<rparr>, \<lparr>rstart = 40, rend = 49\<rparr>]" 10 10]
  by (simp add: add_range_def touches_def proper_def gap_def fits_def)

text \<open>C8. The resume offset is the least byte not cached, and a resource counts as complete exactly
  when its total length is known and every byte below it is cached.\<close>

theorem resume_offset_and_completion:
  assumes "index_inv s" and "isValidKey key"
  shows "unat (nextMissingOffsetForKey key s) = (LEAST n. n \<notin> index_bytes s key)
    \<and> (isCompletedForKey key s \<longleftrightarrow>
        (\<exists>t. totalLengthForKey key s = Some t \<and> {..<unat t} \<subseteq> index_bytes s key))"
  using nextMissing_least[OF assms] isCompleted_iff[OF assms] by blast

theorem resume_offset_and_completion_witness:
  "unat (nextMissingOffsetForKey (Some ''k'') (addRangeForKey (Some ''k'') 0 5 empty_index)) =
      (LEAST n. n \<notin> index_bytes (addRangeForKey (Some ''k'') 0 5 empty_index) (Some ''k''))
   \<and> nextMissingOffsetForKey (Some ''k'') (addRangeForKey (Some ''k'') 0 5 empty_index) = 5"
  using resume_offset_and_completion[of "addRangeForKey (Some ''k'') 0 5 empty_index" "Some ''k''"]
    index_inv_add[OF index_inv_empty, of "Some ''k''" 0 5]
  by (simp add: legal_request_def fits_def addRangeForKey_def empty_index_def add_range_def
      nextMissingOffsetForKey_def)

text \<open>C5. Single flight: a mark is granted exactly when no mark still held for the key overlaps it. A
  granted mark makes every overlapping mark fail, and giving it back restores the marks held before, so
  that the range can be marked again; a refused mark leaves the marks as they are.\<close>

theorem mark_is_exclusive:
  assumes "index_inv s" and "legal_request key st n"
  defines "granted \<equiv> fst (markRangeLoadingForKey key st n s)"
    and "s' \<equiv> snd (markRangeLoadingForKey key st n s)"
  shows "(granted \<longleftrightarrow> (\<forall>(a, m) \<in> held_claims s key. span st n \<inter> span a m = {}))
    \<and> (granted \<longrightarrow>
        (\<forall>st' n'. legal_request key st' n' \<longrightarrow> span st n \<inter> span st' n' \<noteq> {} \<longrightarrow> \<not> fst (markRangeLoadingForKey key st' n' s'))
        \<and> (\<forall>key'. held_claims (unmarkRangeLoadingForKey key st n s') key' = held_claims s key')
        \<and> fst (markRangeLoadingForKey key st n (unmarkRangeLoadingForKey key st n s')))
    \<and> (\<not> granted \<longrightarrow> (\<forall>key'. held_claims s' key' = held_claims s key'))"
proof -
  have inv: "index_inv (unmarkRangeLoadingForKey key st n s')"
    using assms(1,2) by (auto simp: s'_def intro: inv_intros)
  have kept: "held_claims (unmarkRangeLoadingForKey key st n s') k = held_claims s k" if granted for k
    using marks.claim_release[OF assms(1,2)] that by (simp add: s'_def granted_def)
  have excl: "\<not> fst (markRangeLoadingForKey key st' n' s')"
    if "granted" "legal_request key st' n'" "span st n \<inter> span st' n' \<noteq> {}" for st' n'
    using marks.claim_excludes[OF assms(1,2) that(2) _ that(3)] that(1) by (simp add: s'_def granted_def)
  have again: "fst (markRangeLoadingForKey key st n (unmarkRangeLoadingForKey key st n s'))" if granted
    using mark_iff[OF inv assms(2)] mark_iff[OF assms(1,2)] kept[OF that] that by (simp add: granted_def)
  have "held_claims s' k = held_claims s k" if "\<not> granted" for k
    using held_mark[OF assms(2), of s k] that by (auto simp: s'_def granted_def)
  then show ?thesis using mark_iff[OF assms(1,2)] kept excl again by (simp add: granted_def)
qed

theorem mark_is_exclusive_witness:
  "fst (markRangeLoadingForKey (Some ''k'') 0 10 empty_index)
   \<and> \<not> fst (markRangeLoadingForKey (Some ''k'') 5 10 (snd (markRangeLoadingForKey (Some ''k'') 0 10 empty_index)))"
proof -
  have "unat (5::u64) \<in> span 0 10 \<inter> span 5 10" by (simp add: span_def)
  then have "span 0 10 \<inter> span 5 10 \<noteq> {}" by blast
  moreover have l: "legal_request (Some ''k'') 0 10" "legal_request (Some ''k'') 5 10" by (simp_all add: legal_request_def fits_def)
  moreover have "fst (markRangeLoadingForKey (Some ''k'') 0 10 empty_index)"
    by (simp add: markRangeLoadingForKey_def empty_index_def)
  ultimately show ?thesis using mark_is_exclusive[OF index_inv_empty l(1)] by blast
qed

text \<open>C9. The cached length reported for a key is the number of its cached bytes, without wrapping
  and without counting a byte twice.\<close>

theorem cached_length_counts_bytes:
  assumes "index_inv s" and "isValidKey key"
  shows "unat (cachedTotalLengthForKey key s) = card (index_bytes s key)"
  by (rule cachedTotalLength_card[OF assms])

theorem cached_length_counts_bytes_witness:
  "card (index_bytes (addRangeForKey (Some ''k'') 7 3 empty_index) (Some ''k'')) = 3"
  using cached_length_counts_bytes[of "addRangeForKey (Some ''k'') 7 3 empty_index" "Some ''k''"]
    index_inv_add[OF index_inv_empty, of "Some ''k''" 7 3]
  by (simp add: legal_request_def fits_def addRangeForKey_def empty_index_def add_range_def
      cachedTotalLengthForKey_def)

end
