(* ===== verification/Sqlite_Varint.thy ===== *)
theory Sqlite_Varint
  imports Prelude "HOL-Library.Monad_Syntax"
begin

text \<open>
  The variable-length integers of the database file (\<open>src/util.c\<close>): \<open>sqlite3PutVarint\<close>,
  \<open>sqlite3GetVarint\<close>, \<open>sqlite3GetVarint32\<close>, \<open>sqlite3VarintLen\<close>, and the big-endian four byte
  integers. A buffer is a list of bytes; a read behind its end is \<open>None\<close>, where the C code would
  read memory it does not own. The registers \<open>a\<close>, \<open>b\<close>, \<open>s\<close> keep their width of 32 bits.
\<close>

section \<open>Writing\<close>

definition rd :: "bytes \<Rightarrow> nat \<Rightarrow> u8 option" where
  "rd p i = (if i < length p then Some (p ! i) else None)"

text \<open>The \<open>do ... while\<close> loop of \<open>putVarint64\<close>: the groups of seven bits, lowest first.\<close>

function put_groups :: "u64 \<Rightarrow> bytes" where
  "put_groups v =
     (let g = ucast ((v AND 0x7f) OR 0x80); v' = drop_bit 7 v
      in if v' \<noteq> 0 then g # put_groups v' else [g])"
  by pat_completeness auto
termination
  by (relation "measure unat") (auto intro!: unat_drop_bit_less)

declare put_groups.simps [simp del]

text \<open>The loop \<open>for(i=7; i>=0; i--)\<close> of the nine byte case, filling \<open>p[i]\<close> downwards.\<close>

fun put_nine :: "nat \<Rightarrow> u64 \<Rightarrow> bytes \<Rightarrow> bytes" where
  "put_nine 0 v p = p"
| "put_nine (Suc i) v p = put_nine i (drop_bit 7 v) (ucast ((v AND 0x7f) OR 0x80) # p)"

definition putVarint64 :: "u64 \<Rightarrow> bytes" where
  "putVarint64 v =
     (if v AND push_bit 32 0xff000000 \<noteq> 0 then put_nine 8 (drop_bit 8 v) [ucast v]
      else case put_groups v of
          [] \<Rightarrow> []
        | b # buf \<Rightarrow> rev ((b AND 0x7f) # buf))"

definition sqlite3PutVarint :: "u64 \<Rightarrow> bytes" where
  "sqlite3PutVarint v =
     (if v \<le> 0x7f then [ucast (v AND 0x7f)]
      else if v \<le> 0x3fff
        then [ucast ((drop_bit 7 v AND 0x7f) OR 0x80), ucast (v AND 0x7f)]
      else putVarint64 v)"

section \<open>Reading\<close>

abbreviation (input) SLOT_2_0 :: u32 where "SLOT_2_0 \<equiv> 0x001fc07f"
abbreviation (input) SLOT_4_2_0 :: u32 where "SLOT_4_2_0 \<equiv> 0xf01fc07f"

text \<open>
  \<open>sqlite3GetVarint\<close> after the four byte case, one definition for each further byte, in the order
  the code falls through them; the registers are passed on.
\<close>

definition getVarint_9 :: "bytes \<Rightarrow> u32 \<Rightarrow> u32 \<Rightarrow> u32 \<Rightarrow> (nat \<times> u64) option" where
  "getVarint_9 p a b s = do {
     p8 \<leftarrow> rd p 8;
     let a = push_bit 15 a OR ucast p8;
     let b = b AND SLOT_2_0;
     let b = push_bit 8 b;
     let a = a OR b;
     let s = push_bit 4 s;
     p4 \<leftarrow> rd p 4;
     let b = ucast p4;
     let b = b AND 0x7f;
     let b = drop_bit 3 b;
     let s = s OR b;
     Some (9, push_bit 32 (ucast s) OR ucast a)
   }"

definition getVarint_8 :: "bytes \<Rightarrow> u32 \<Rightarrow> u32 \<Rightarrow> u32 \<Rightarrow> (nat \<times> u64) option" where
  "getVarint_8 p a b s = do {
     let a = a AND SLOT_2_0;
     p7 \<leftarrow> rd p 7;
     let b = push_bit 14 b OR ucast p7;
     if b AND 0x80 = 0 then do {
       let b = b AND SLOT_4_2_0;
       let a = push_bit 7 a;
       let a = a OR b;
       let s = drop_bit 4 s;
       Some (8, push_bit 32 (ucast s) OR ucast a)
     } else getVarint_9 p a b s
   }"

definition getVarint_7 :: "bytes \<Rightarrow> u32 \<Rightarrow> u32 \<Rightarrow> u32 \<Rightarrow> (nat \<times> u64) option" where
  "getVarint_7 p a b s = do {
     p6 \<leftarrow> rd p 6;
     let a = push_bit 14 a OR ucast p6;
     if a AND 0x80 = 0 then do {
       let a = a AND SLOT_4_2_0;
       let b = b AND SLOT_2_0;
       let b = push_bit 7 b;
       let a = a OR b;
       let s = drop_bit 11 s;
       Some (7, push_bit 32 (ucast s) OR ucast a)
     } else getVarint_8 p a b s
   }"

definition getVarint_6 :: "bytes \<Rightarrow> u32 \<Rightarrow> u32 \<Rightarrow> u32 \<Rightarrow> (nat \<times> u64) option" where
  "getVarint_6 p a b s = do {
     p5 \<leftarrow> rd p 5;
     let b = push_bit 14 b OR ucast p5;
     if b AND 0x80 = 0 then do {
       let a = a AND SLOT_2_0;
       let a = push_bit 7 a;
       let a = a OR b;
       let s = drop_bit 18 s;
       Some (6, push_bit 32 (ucast s) OR ucast a)
     } else getVarint_7 p a b s
   }"

definition getVarint_5 :: "bytes \<Rightarrow> u32 \<Rightarrow> u32 \<Rightarrow> (nat \<times> u64) option" where
  "getVarint_5 p a b = do {
     let b = b AND SLOT_2_0;
     let s = a;
     p4 \<leftarrow> rd p 4;
     let a = push_bit 14 a OR ucast p4;
     if a AND 0x80 = 0 then do {
       let b = push_bit 7 b;
       let a = a OR b;
       let s = drop_bit 18 s;
       Some (5, push_bit 32 (ucast s) OR ucast a)
     } else do {
     let s = push_bit 7 s;
     let s = s OR b;
     getVarint_6 p a b s
     }
   }"

definition sqlite3GetVarint :: "bytes \<Rightarrow> (nat \<times> u64) option" where
  "sqlite3GetVarint p = do {
     p0 \<leftarrow> rd p 0;
     let a = (ucast p0 :: u32);
     if a AND 0x80 = 0 then Some (1, ucast a) else do {
     p1 \<leftarrow> rd p 1;
     let b = (ucast p1 :: u32);
     if b AND 0x80 = 0 then do {
       let a = a AND 0x7f;
       let a = push_bit 7 a;
       let a = a OR b;
       Some (2, ucast a)
     } else do {
     p2 \<leftarrow> rd p 2;
     let a = push_bit 14 a OR ucast p2;
     if a AND 0x80 = 0 then do {
       let a = a AND SLOT_2_0;
       let b = b AND 0x7f;
       let b = push_bit 7 b;
       let a = a OR b;
       Some (3, ucast a)
     } else do {
     let a = a AND SLOT_2_0;
     p3 \<leftarrow> rd p 3;
     let b = push_bit 14 b OR ucast p3;
     if b AND 0x80 = 0 then do {
       let b = b AND SLOT_2_0;
       let a = push_bit 7 a;
       let a = a OR b;
       Some (4, ucast a)
     } else getVarint_5 p a b
     }}}}"

text \<open>
  \<open>sqlite3GetVarint32\<close>: its one byte case is compiled out, because \<open>getVarint32\<close> is a macro that
  handles it before the call.
\<close>

definition sqlite3GetVarint32 :: "bytes \<Rightarrow> (nat \<times> u32) option" where
  "sqlite3GetVarint32 p = do {
     p0 \<leftarrow> rd p 0;
     let a = (ucast p0 :: u32);
     p1 \<leftarrow> rd p 1;
     let b = (ucast p1 :: u32);
     if b AND 0x80 = 0 then do {
       let a = a AND 0x7f;
       let a = push_bit 7 a;
       Some (2, a OR b)
     } else do {
     p2 \<leftarrow> rd p 2;
     let a = push_bit 14 a OR ucast p2;
     if a AND 0x80 = 0 then do {
       let a = a AND (push_bit 14 0x7f OR 0x7f);
       let b = b AND 0x7f;
       let b = push_bit 7 b;
       Some (3, a OR b)
     } else do {
     (n, v64) \<leftarrow> sqlite3GetVarint p;
     if v64 AND 0xffffffff \<noteq> v64 then Some (n, 0xffffffff) else Some (n, ucast v64)
     }}}"

section \<open>Lengths and fixed width integers\<close>

function varint_len_loop :: "nat \<Rightarrow> u64 \<Rightarrow> nat" where
  "varint_len_loop i v =
     (let v' = drop_bit 7 v in if v' \<noteq> 0 then varint_len_loop (i + 1) v' else i)"
  by pat_completeness auto
termination
  by (relation "measure (\<lambda>(i, v). unat v)") (auto intro!: unat_drop_bit_less)

declare varint_len_loop.simps [simp del]

definition sqlite3VarintLen :: "u64 \<Rightarrow> nat" where
  "sqlite3VarintLen v = varint_len_loop 1 v"

definition sqlite3Get4byte :: "bytes \<Rightarrow> (nat \<times> u32) option" where
  "sqlite3Get4byte p = do {
     p0 \<leftarrow> rd p 0; p1 \<leftarrow> rd p 1; p2 \<leftarrow> rd p 2; p3 \<leftarrow> rd p 3;
     Some (4, push_bit 24 (ucast p0) OR push_bit 16 (ucast p1) OR push_bit 8 (ucast p2) OR ucast p3)
   }"

definition sqlite3Put4byte :: "u32 \<Rightarrow> bytes" where
  "sqlite3Put4byte v =
     [ucast (drop_bit 24 v), ucast (drop_bit 16 v), ucast (drop_bit 8 v), ucast v]"

section \<open>The unrolled reader is the loop\<close>

text \<open>
  The format, as a loop over the bytes: seven bits of each byte, highest group first, as long as
  the high bit is set; a ninth byte counts with all its eight bits.
\<close>

fun varint_ref :: "nat \<Rightarrow> u64 \<Rightarrow> bytes \<Rightarrow> (nat \<times> u64) option" where
  "varint_ref i acc [] = None"
| "varint_ref i acc (x # xs) =
     (if i = 8 then Some (9, push_bit 8 acc OR ucast x)
      else if bit x 7 then varint_ref (i + 1) (push_bit 7 acc OR (ucast x AND 0x7f)) xs
      else Some (i + 1, push_bit 7 acc OR (ucast x AND 0x7f)))"

lemma rd_simps [simp]:
  "rd [] i = None"
  "rd (x # xs) 0 = Some x"
  "rd (x # xs) (Suc i) = rd xs i"
  "rd (x # xs) (numeral w) = rd xs (pred_numeral w)"
  by (auto simp: rd_def nth_Cons numeral_eq_Suc)

lemma high_bit_clear: "(a :: u32) AND 0x80 = 0 \<longleftrightarrow> \<not> bit a 7"
proof -
  have "a AND 0x80 = (if bit a 7 then 0x80 else 0)"
    by (rule u32_eqI) (simp add: bit_eval)
  then show ?thesis by simp
qed

abbreviation (input) group7 :: "u64 \<Rightarrow> u8 \<Rightarrow> u64" where
  "group7 acc x \<equiv> push_bit 7 acc OR (ucast x AND 0x7f)"

abbreviation (input) four_groups :: "u8 \<Rightarrow> u8 \<Rightarrow> u8 \<Rightarrow> u8 \<Rightarrow> u64" where
  "four_groups p0 p1 p2 p3 \<equiv> group7 (group7 (group7 (ucast p0 AND 0x7f) p1) p2) p3"

text \<open>The registers, as functions of the bytes read: \<open>two x y\<close> is \<open>x<<14 | y\<close>, masked.\<close>

abbreviation (input) two :: "u8 \<Rightarrow> u8 \<Rightarrow> u32" where
  "two x y \<equiv> (push_bit 14 (ucast x) OR ucast y) AND SLOT_2_0"

lemmas stage_simps = high_bit_clear Let_def bit_simps

lemma getVarint_9_ref:
  assumes "bit p4 7" "bit p5 7" "bit p6 7" "bit p7 7"
  shows "getVarint_9 (p0 # p1 # p2 # p3 # p4 # p5 # p6 # p7 # xs)
      ((push_bit 14 (push_bit 14 (two p0 p2) OR ucast p4) OR ucast p6) AND SLOT_2_0)
      (push_bit 14 (push_bit 14 (two p1 p3) OR ucast p5) OR ucast p7)
      (push_bit 7 (two p0 p2) OR two p1 p3) =
    varint_ref 8 (group7 (group7 (group7 (group7 (four_groups p0 p1 p2 p3) p4) p5) p6) p7) xs"
  by (cases xs) (simp_all add: getVarint_9_def Let_def, rule u64_eqI, simp add: bit_eval)

lemma getVarint_8_ref:
  assumes "bit p4 7" "bit p5 7" "bit p6 7"
  shows "getVarint_8 (p0 # p1 # p2 # p3 # p4 # p5 # p6 # xs)
      (push_bit 14 (push_bit 14 (two p0 p2) OR ucast p4) OR ucast p6)
      (push_bit 14 (two p1 p3) OR ucast p5)
      (push_bit 7 (two p0 p2) OR two p1 p3) =
    varint_ref 7 (group7 (group7 (group7 (four_groups p0 p1 p2 p3) p4) p5) p6) xs"
proof (cases xs)
  case Nil
  then show ?thesis by (simp add: getVarint_8_def)
next
  case (Cons p7 ys)
  show ?thesis
  proof (cases "bit p7 7")
    case True
    with Cons getVarint_9_ref [OF assms True, of p0 p1 p2 p3 ys] show ?thesis
      by (simp add: getVarint_8_def stage_simps)
  next
    case False
    with Cons assms show ?thesis
      by (simp add: getVarint_8_def stage_simps) (rule u64_eqI, simp add: bit_eval)
  qed
qed

lemma getVarint_7_ref:
  assumes "bit p4 7" "bit p5 7"
  shows "getVarint_7 (p0 # p1 # p2 # p3 # p4 # p5 # xs)
      (push_bit 14 (two p0 p2) OR ucast p4)
      (push_bit 14 (two p1 p3) OR ucast p5)
      (push_bit 7 (two p0 p2) OR two p1 p3) =
    varint_ref 6 (group7 (group7 (four_groups p0 p1 p2 p3) p4) p5) xs"
proof (cases xs)
  case Nil
  then show ?thesis by (simp add: getVarint_7_def)
next
  case (Cons p6 ys)
  show ?thesis
  proof (cases "bit p6 7")
    case True
    with Cons getVarint_8_ref [OF assms True, of p0 p1 p2 p3 ys] show ?thesis
      by (simp add: getVarint_7_def stage_simps)
  next
    case False
    with Cons assms show ?thesis
      by (simp add: getVarint_7_def stage_simps) (rule u64_eqI, simp add: bit_eval)
  qed
qed

lemma getVarint_6_ref:
  assumes "bit p4 7"
  shows "getVarint_6 (p0 # p1 # p2 # p3 # p4 # xs)
      (push_bit 14 (two p0 p2) OR ucast p4) (two p1 p3)
      (push_bit 7 (two p0 p2) OR two p1 p3) =
    varint_ref 5 (group7 (four_groups p0 p1 p2 p3) p4) xs"
proof (cases xs)
  case Nil
  then show ?thesis by (simp add: getVarint_6_def)
next
  case (Cons p5 ys)
  show ?thesis
  proof (cases "bit p5 7")
    case True
    with Cons getVarint_7_ref [OF assms True, of p0 p1 p2 p3 ys] show ?thesis
      by (simp add: getVarint_6_def stage_simps)
  next
    case False
    with Cons assms show ?thesis
      by (simp add: getVarint_6_def stage_simps) (rule u64_eqI, simp add: bit_eval)
  qed
qed

lemma getVarint_5_ref:
  "getVarint_5 (p0 # p1 # p2 # p3 # xs) (two p0 p2) (push_bit 14 (ucast p1) OR ucast p3) =
    varint_ref 4 (four_groups p0 p1 p2 p3) xs"
proof (cases xs)
  case Nil
  then show ?thesis by (simp add: getVarint_5_def)
next
  case (Cons p4 ys)
  show ?thesis
  proof (cases "bit p4 7")
    case True
    with Cons getVarint_6_ref [OF True, of p0 p1 p2 p3 ys] show ?thesis
      by (simp add: getVarint_5_def stage_simps)
  next
    case False
    with Cons show ?thesis
      by (simp add: getVarint_5_def stage_simps) (rule u64_eqI, simp add: bit_eval)
  qed
qed

lemma Suc_4: "Suc (Suc (Suc (Suc 0))) = 4"
  by simp

lemma getVarint_ref: "sqlite3GetVarint p = varint_ref 0 0 p"
proof (cases p rule: list_shape4)
  case (2 p0)
  then show ?thesis
    by (auto simp: sqlite3GetVarint_def stage_simps) (rule u64_eqI, simp add: bit_eval)
next
  case (3 p0 p1)
  then show ?thesis
    by (auto simp: sqlite3GetVarint_def stage_simps) (rule u64_eqI, simp add: bit_eval)+
next
  case (4 p0 p1 p2)
  then show ?thesis
    by (auto simp: sqlite3GetVarint_def stage_simps) (rule u64_eqI, simp add: bit_eval)+
next
  case (5 p0 p1 p2 p3 xs)
  then show ?thesis using getVarint_5_ref [of p0 p1 p2 p3 xs]
    by (auto simp: sqlite3GetVarint_def stage_simps Suc_4) (rule u64_eqI, simp add: bit_eval)+
qed (simp add: sqlite3GetVarint_def)

section \<open>Round trip\<close>

text \<open>Each byte the writer emits before the last one carries the high bit and seven bits of the
  value; reading it appends these bits to what has been read so far.\<close>

abbreviation (input) cont :: "u64 \<Rightarrow> u8" where
  "cont v \<equiv> ucast ((v AND 0x7f) OR 0x80)"

lemma bit_cont: "bit (cont v) 7" "\<not> bit (cont v AND 0x7f) 7"
  by (simp_all add: bit_simps)

lemma group7_cont: "group7 (drop_bit 7 v) (cont v) = v"
  by (rule u64_eqI) (simp add: bit_eval)

lemma group7_last: "group7 (drop_bit 7 v) (cont v AND 0x7f) = v"
  by (rule u64_eqI) (simp add: bit_eval)

lemma push8_last: "push_bit 8 (drop_bit 8 v) OR ucast (ucast v :: u8) = (v :: u64)"
  by (rule u64_eqI) (simp add: bit_eval)

lemma put_groups_nonempty: "put_groups v \<noteq> []"
  by (subst put_groups.simps) (simp add: Let_def)

lemma put_groups_unfold:
  "put_groups v = cont v # (if drop_bit 7 v = 0 then [] else put_groups (drop_bit 7 v))"
  by (subst put_groups.simps) (simp add: Let_def)

lemma length_put_groups_le: "drop_bit (7 * n) v = 0 \<Longrightarrow> 0 < n \<Longrightarrow> length (put_groups v) \<le> n"
proof (induction n arbitrary: v)
  case 0
  then show ?case by simp
next
  case (Suc n)
  show ?case
  proof (cases "drop_bit 7 v = 0")
    case True
    then show ?thesis by (subst put_groups_unfold) simp
  next
    case False
    have "drop_bit (7 * n) (drop_bit 7 v) = 0" using Suc.prems(1) by (simp add: add.commute)
    with False Suc.IH [of "drop_bit 7 v"] show ?thesis
      by (subst put_groups_unfold) (cases "n = 0"; simp)
  qed
qed

lemma length_put_groups_ge: "drop_bit (7 * n) v \<noteq> 0 \<Longrightarrow> Suc n \<le> length (put_groups v)"
proof (induction n arbitrary: v)
  case 0
  then show ?case by (subst put_groups_unfold) simp
next
  case (Suc n)
  then have "drop_bit (7 * n) (drop_bit 7 v) \<noteq> 0" by (simp add: add.commute)
  moreover from this have "drop_bit 7 v \<noteq> 0" by fastforce
  ultimately show ?case using Suc.IH [of "drop_bit 7 v"] by (subst put_groups_unfold) simp
qed

lemma varint_ref_cont:
  assumes "i < 8"
  shows "varint_ref i (drop_bit 7 v) (cont v # xs) = varint_ref (Suc i) v xs"
  using assms bit_cont(1) [of v] group7_cont [of v] by simp

lemma varint_ref_last:
  assumes "i < 8"
  shows "varint_ref i (drop_bit 7 v) ((cont v AND 0x7f) # xs) = Some (Suc i, v)"
  using assms bit_cont(2) [of v] group7_last [of v] by simp

lemma varint_ref_groups:
  "length (put_groups v) \<le> 8 \<Longrightarrow>
   varint_ref 0 0 (rev (put_groups v) @ xs) = varint_ref (length (put_groups v)) v xs"
proof (induction v arbitrary: xs rule: put_groups.induct)
  case (1 v)
  show ?case
  proof (cases "drop_bit 7 v = 0")
    case True
    then show ?thesis using varint_ref_cont [of 0 v xs]
      by (subst (1 2) put_groups_unfold) simp
  next
    case False
    then have len: "length (put_groups v) = Suc (length (put_groups (drop_bit 7 v)))"
      by (subst put_groups_unfold) simp
    have "rev (put_groups v) @ xs = rev (put_groups (drop_bit 7 v)) @ cont v # xs"
      using False by (subst put_groups_unfold) simp
    with "1.IH" [OF refl refl False, of "cont v # xs"] "1.prems" len show ?thesis
      by (simp add: varint_ref_cont del: varint_ref.simps)
  qed
qed

lemma put_groups_tl_reads:
  assumes "put_groups v = b # buf" "length (put_groups v) \<le> 8"
  shows "varint_ref 0 0 (rev ((b AND 0x7f) # buf) @ rest) = Some (length (put_groups v), v)"
proof (cases "drop_bit 7 v = 0")
  case True
  then have "b = cont v" "buf = []" using assms(1) put_groups_unfold [of v] by simp_all
  then show ?thesis using varint_ref_last [of 0 v rest] True assms(1) by simp
next
  case False
  then have b: "b = cont v" "buf = put_groups (drop_bit 7 v)"
    using assms(1) put_groups_unfold [of v] by simp_all
  then have "length buf < 8" using assms by simp
  then show ?thesis using assms(1) varint_ref_groups [of "drop_bit 7 v"]
    by (simp add: b varint_ref_last del: varint_ref.simps)
qed

lemma put_nine_reads:
  "drop_bit (7 * i) v = 0 \<Longrightarrow> i \<le> 8 \<Longrightarrow> varint_ref 0 0 (put_nine i v p) = varint_ref i v p"
proof (induction i arbitrary: v p)
  case 0
  then show ?case by simp
next
  case (Suc i)
  then have "drop_bit (7 * i) (drop_bit 7 v) = 0" by (simp add: add.commute)
  with Suc show ?case by (simp add: varint_ref_cont del: varint_ref.simps)
qed

lemma put_nine_append: "put_nine i v p @ q = put_nine i v (p @ q)"
  by (induction i arbitrary: v p) simp_all

lemma length_put_nine: "length (put_nine i v p) = i + length p"
  by (induction i arbitrary: v p) simp_all

lemma nine_byte_iff: "v AND 0xff00000000000000 = 0 \<longleftrightarrow> drop_bit 56 v = 0" for v :: u64
proof -
  have "v AND 0xff00000000000000 = push_bit 56 (drop_bit 56 v)"
    by (rule u64_eqI) (simp add: bit_eval)
  moreover have "drop_bit 56 (push_bit 56 (drop_bit 56 v)) = drop_bit 56 v"
    by (rule u64_eqI) (simp add: bit_eval)
  ultimately show ?thesis by (metis push_bit_of_0 drop_bit_of_0)
qed

lemma drop_bit_eq_0: "unat v < 2 ^ n \<Longrightarrow> drop_bit n v = 0" for v :: u64
proof -
  assume "unat v < 2 ^ n"
  then have "unat (drop_bit n v) = 0"
    by (simp only: unat_drop_bit_eq) (simp add: drop_bit_eq_div)
  then show ?thesis by (simp only: unat_eq_zero)
qed

lemma putVarint64_reads:
  "varint_ref 0 0 (putVarint64 v @ rest) = Some (length (putVarint64 v), v)"
proof (cases "drop_bit 56 v = 0")
  case True
  then have len: "length (put_groups v) \<le> 8" using length_put_groups_le [of 8 v] by simp
  obtain b buf where "put_groups v = b # buf" using put_groups_nonempty [of v] by (cases "put_groups v") auto
  with True len put_groups_tl_reads [OF this len] show ?thesis
    by (simp add: putVarint64_def nine_byte_iff)
next
  case False
  have "drop_bit 56 (drop_bit 8 v) = 0" by (rule u64_eqI) (simp add: bit_eval)
  then have "varint_ref 0 0 (put_nine 8 (drop_bit 8 v) ([ucast v] @ rest)) = Some (9, v)"
    using put_nine_reads [of 8 "drop_bit 8 v"] push8_last [of v] by simp
  with False show ?thesis
    by (simp add: putVarint64_def nine_byte_iff put_nine_append length_put_nine)
qed

lemma PutVarint_reads:
  "sqlite3GetVarint (sqlite3PutVarint v @ rest) = Some (length (sqlite3PutVarint v), v)"
proof -
  consider "v \<le> 0x7f" | "\<not> v \<le> 0x7f" "v \<le> 0x3fff" | "\<not> v \<le> 0x3fff" by blast
  then show ?thesis
  proof cases
    case 1
    then have "drop_bit 7 v = 0" by (intro drop_bit_eq_0) (simp add: word_le_nat_alt)
    moreover have "ucast (v AND 0x7f) = cont v AND (0x7f :: u8)"
      by (rule u8_eqI) (simp add: bit_eval)
    ultimately show ?thesis
      using 1 varint_ref_last [of 0 v rest] by (simp add: sqlite3PutVarint_def getVarint_ref)
  next
    case 2
    then have "drop_bit 14 v = 0" by (intro drop_bit_eq_0) (simp add: word_le_nat_alt)
    moreover have "cont (drop_bit 7 v) = (ucast ((drop_bit 7 v AND 0x7f) OR 0x80) :: u8)" ..
    moreover have "ucast (v AND 0x7f) = cont v AND (0x7f :: u8)"
      by (rule u8_eqI) (simp add: bit_eval)
    ultimately show ?thesis
      using 2 varint_ref_cont [of 0 "drop_bit 7 v" "(cont v AND 0x7f) # rest"]
        varint_ref_last [of 1 v rest]
      by (simp add: sqlite3PutVarint_def getVarint_ref del: varint_ref.simps)
  next
    case 3
    then have "\<not> v \<le> 0x7f" by (auto simp: word_le_nat_alt)
    with 3 putVarint64_reads [of v rest] show ?thesis
      by (simp add: sqlite3PutVarint_def getVarint_ref)
  qed
qed

interpretation varint: codec sqlite3PutVarint sqlite3GetVarint "\<lambda>_. True"
  by unfold_locales (rule PutVarint_reads)

section \<open>Lengths\<close>

lemma length_PutVarint_le: "1 \<le> length (sqlite3PutVarint v)" "length (sqlite3PutVarint v) \<le> 9"
proof -
  have "length (putVarint64 v) = (if drop_bit 56 v = 0 then length (put_groups v) else 9)"
    using put_groups_nonempty [of v]
    by (auto simp: putVarint64_def nine_byte_iff length_put_nine split: list.split)
  moreover have "length (put_groups v) \<le> 8" if "drop_bit 56 v = 0"
    using length_put_groups_le [of 8 v] that by simp
  moreover have "1 \<le> length (put_groups v)" by (subst put_groups_unfold) simp
  ultimately show "1 \<le> length (sqlite3PutVarint v)" "length (sqlite3PutVarint v) \<le> 9"
    by (auto simp: sqlite3PutVarint_def)
qed

lemma length_PutVarint:
  "length (sqlite3PutVarint v) = (if drop_bit 56 v = 0 then length (put_groups v) else 9)"
proof -
  have 1: "length (put_groups v) = 1" if "v \<le> 0x7f"
  proof -
    have "drop_bit 7 v = 0" using that by (intro drop_bit_eq_0) (simp add: word_le_nat_alt)
    then show ?thesis by (subst put_groups_unfold) simp
  qed
  have 2: "length (put_groups v) = 2" if "\<not> v \<le> 0x7f" "v \<le> 0x3fff"
  proof -
    have "drop_bit 14 v = 0" using that by (intro drop_bit_eq_0) (simp add: word_le_nat_alt)
    then have "length (put_groups v) \<le> 2" using length_put_groups_le [of 2 v] by simp
    moreover have "unat (drop_bit 7 v) \<noteq> 0"
      using that(1) by (simp only: unat_drop_bit_eq) (simp add: drop_bit_eq_div word_le_nat_alt)
    then have "drop_bit (7 * 1) v \<noteq> 0" by (auto simp del: drop_bit_eq_div)
    then have "2 \<le> length (put_groups v)"
      using length_put_groups_ge [of 1 v] by simp
    ultimately show ?thesis by simp
  qed
  have "drop_bit 56 v = 0" if "v \<le> 0x3fff"
    using that by (intro drop_bit_eq_0) (simp add: word_le_nat_alt)
  moreover have "v \<le> 0x3fff" if "v \<le> 0x7f" using that by (simp add: word_le_nat_alt)
  ultimately show ?thesis using 1 2 put_groups_nonempty [of v]
    by (auto simp: sqlite3PutVarint_def putVarint64_def nine_byte_iff length_put_nine
        split: list.split)
qed

lemma varint_len_loop_groups: "varint_len_loop i v + 1 = i + length (put_groups v)"
proof (induction i v rule: varint_len_loop.induct)
  case (1 i v)
  then show ?case
    by (subst varint_len_loop.simps, subst put_groups_unfold) (auto simp: Let_def)
qed

lemma VarintLen_groups: "sqlite3VarintLen v = length (put_groups v)"
  using varint_len_loop_groups [of 1 v] by (simp add: sqlite3VarintLen_def)

lemma VarintLen_vs_PutVarint:
  "sqlite3VarintLen v = (if bit v 63 then 10 else length (sqlite3PutVarint v))"
proof (cases "drop_bit 56 v = 0")
  case True
  then have "\<not> bit (drop_bit 56 v) 7" by simp
  then have "\<not> bit v 63" by (simp add: bit_simps)
  with True show ?thesis by (simp add: VarintLen_groups length_PutVarint)
next
  case False
  have len: "length (sqlite3PutVarint v) = 9" using False by (simp add: length_PutVarint)
  have ge9: "9 \<le> length (put_groups v)" using length_put_groups_ge [of 8 v] False by simp
  have d63: "drop_bit 63 v = (if bit v 63 then 1 else 0)"
    by (rule u64_eqI) (simp add: bit_eval)
  show ?thesis
  proof (cases "bit v 63")
    case True
    have "drop_bit 70 v = 0" by (rule u64_eqI) (simp add: bit_eval)
    then have "length (put_groups v) \<le> 10" using length_put_groups_le [of 10 v] by simp
    moreover have "10 \<le> length (put_groups v)"
      using length_put_groups_ge [of 9 v] d63 True by simp
    ultimately show ?thesis using True by (simp add: VarintLen_groups)
  next
    case b: False
    then have "length (put_groups v) \<le> 9" using length_put_groups_le [of 9 v] d63 by simp
    with ge9 len b show ?thesis by (simp add: VarintLen_groups)
  qed
qed

section \<open>32-bit readers\<close>

lemma low_32_iff: "v AND 0xffffffff = v \<longleftrightarrow> unat v < 2 ^ 32" for v :: u64
proof -
  have "v AND 0xffffffff = take_bit 32 v" by (rule u64_eqI) (simp add: bit_eval)
  moreover have "take_bit 32 v = v \<longleftrightarrow> unat (take_bit 32 v) = unat v"
    by (rule word_unat_eq_iff)
  ultimately show ?thesis by (simp only: unsigned_take_bit_eq take_bit_nat_eq_self_iff)
qed

lemma GetVarint32_saturates:
  assumes "bit p0 7"
  shows "sqlite3GetVarint32 (p0 # p) =
    map_option (\<lambda>(n, v). (n, if unat v < 2 ^ 32 then ucast v else 0xffffffff))
      (sqlite3GetVarint (p0 # p))"
proof -
  have small: "unat (ucast (x :: u32) :: u64) < 2 ^ 32" for x
  proof -
    have "unat x < 2 ^ LENGTH(32)" by (rule unsigned_less)
    then show ?thesis by (simp add: unsigned_ucast_eq take_bit_nat_def)
  qed
  have narrow: "ucast (ucast (x :: u32) :: u64) = x" for x by (rule u32_eqI) (simp add: bit_eval)
  consider "p = []" | p1 where "p = [p1]" | p1 p2 xs where "p = p1 # p2 # xs"
    by (metis neq_Nil_conv)
  then show ?thesis
  proof cases
    case 1
    then show ?thesis using assms by (simp add: sqlite3GetVarint32_def sqlite3GetVarint_def
          stage_simps)
  next
    case 2
    then show ?thesis using assms small
      by (simp add: sqlite3GetVarint32_def sqlite3GetVarint_def stage_simps narrow)
  next
    case 3
    have low: "v AND 0xffffffff \<noteq> v \<longleftrightarrow> \<not> unat v < 2 ^ 32" for v :: u64
      by (simp only: low_32_iff)
    show ?thesis
    proof (cases "bit p1 7 \<and> bit p2 7")
      case True
      then have "sqlite3GetVarint32 (p0 # p) = do {
          (n, v64) \<leftarrow> sqlite3GetVarint (p0 # p);
          if v64 AND 0xffffffff \<noteq> v64 then Some (n, 0xffffffff) else Some (n, ucast v64) }"
        using 3 by (simp add: sqlite3GetVarint32_def stage_simps)
      then show ?thesis
        by (simp only: low) (cases "sqlite3GetVarint (p0 # p)"; auto)
    next
      case False
      then show ?thesis using assms small 3
        by (auto simp: sqlite3GetVarint32_def sqlite3GetVarint_def stage_simps narrow)
    qed
  qed
qed

lemma Get4byte_Put4byte: "sqlite3Get4byte (sqlite3Put4byte v @ rest) = Some (4, v)"
  by (simp add: sqlite3Get4byte_def sqlite3Put4byte_def)
    (rule u32_eqI, simp add: bit_eval)

interpretation be32: codec sqlite3Put4byte sqlite3Get4byte "\<lambda>_. True"
  by unfold_locales (simp only: Get4byte_Put4byte, simp add: sqlite3Put4byte_def)

section \<open>Properties\<close>

text \<open>C3. The unrolled decoder, with its five hand-optimised stages and their masks, computes the
  same value and the same byte count as the plain definition of the format: seven bits of every
  byte but the ninth, which gives all eight. It fails exactly when the buffer ends too early.\<close>

theorem getVarint_is_reference: "sqlite3GetVarint buf = varint_ref 0 0 buf"
  by (rule getVarint_ref)

text \<open>C7. Any sequence of 64-bit values written one after the other is read back, whatever bytes
  follow, and two different values never have encodings of which one starts with the other.\<close>

theorem varint_stream_roundtrip:
  "dec_seq sqlite3GetVarint (length vs) (concat (map sqlite3PutVarint vs) @ rest) = Some (vs, rest)
   \<and> (sqlite3PutVarint v @ r = sqlite3PutVarint w @ r' \<longleftrightarrow> v = w \<and> r = r')"
  using varint.dec_seq_concat[of vs rest] varint.enc_prefix_free[where x = v and y = w and r = r and r' = r'] by auto

text \<open>A varint takes one to nine bytes, and \<open>sqlite3VarintLen\<close> gives the number of bytes written
  except for values with the top bit set, for which it says 10 while nine are written.\<close>

theorem varint_length:
  "1 \<le> length (sqlite3PutVarint v) \<and> length (sqlite3PutVarint v) \<le> 9
   \<and> sqlite3VarintLen v = (if bit v 63 then 10 else length (sqlite3PutVarint v))"
  using length_PutVarint_le VarintLen_vs_PutVarint by blast

text \<open>The 32-bit reader agrees with the 64-bit one on the bytes used, and gives the value when it
  is below \<open>2 ^ 32\<close> and the largest 32-bit number otherwise. (One-byte values are read by the macro
  \<open>getVarint32\<close>, so the function is called with the top bit of the first byte set.)\<close>

theorem getVarint32_saturates:
  assumes "bit p0 7"
  shows "sqlite3GetVarint32 (p0 # p) =
    map_option (\<lambda>(n, v). (n, if unat v < 2 ^ 32 then ucast v else 0xffffffff))
      (sqlite3GetVarint (p0 # p))"
  by (rule GetVarint32_saturates[OF assms])

theorem getVarint32_saturates_witness:
  "sqlite3GetVarint32 [0x81, 0x80, 0x80, 0x80, 0x80, 0x00] =
    map_option (\<lambda>(n, v). (n, if unat v < 2 ^ 32 then ucast v else 0xffffffff))
      (sqlite3GetVarint [0x81, 0x80, 0x80, 0x80, 0x80, 0x00])"
  by (rule getVarint32_saturates) (simp add: bit_numeral_rec)

end
