(* ===== verification/Sqlite_Bitvec.thy ===== *)
theory Sqlite_Bitvec
  imports Prelude
begin

text \<open>
  \<open>src/bitvec.c\<close>: a set of numbers between 1 and \<open>iSize\<close>, kept as a plain bitmap when it is
  small, as a hash table with linear probing while it has few members, and as 62 subordinate
  bit vectors otherwise. The structure of 512 bytes has room for 496 bytes of bitmap, 124 hash
  slots, or 62 pointers (\<open>BITVEC_NELEM\<close>, \<open>BITVEC_NINT\<close>, \<open>BITVEC_NPTR\<close> on a 64-bit machine).

  The union is the datatype \<open>bv_union\<close>. \<open>u32\<close> values are natural numbers; the two places where
  32-bit arithmetic can wrap (\<open>i--\<close> at 0 and \<open>iSize + BITVEC_NPTR - 1\<close>) are written with \<open>mod\<close>.
  Allocation is an argument: \<open>fails n\<close> says whether the \<open>n\<close>-th allocation returns NULL, and the
  counter of allocations made so far is passed along. A null vector, on which Set and Clear do
  nothing and Test is false, is an option in \<open>sqlite3BitvecTest\<close> and left out of the other two.
\<close>

section \<open>Data model\<close>

abbreviation (input) BITVEC_NELEM :: nat where "BITVEC_NELEM \<equiv> 496"
abbreviation (input) BITVEC_NBIT :: nat where "BITVEC_NBIT \<equiv> 3968"
abbreviation (input) BITVEC_NINT :: nat where "BITVEC_NINT \<equiv> 124"
abbreviation (input) BITVEC_MXHASH :: nat where "BITVEC_MXHASH \<equiv> 62"
abbreviation (input) BITVEC_NPTR :: nat where "BITVEC_NPTR \<equiv> 62"
abbreviation (input) BITVEC_HASH :: "nat \<Rightarrow> nat" where "BITVEC_HASH x \<equiv> x mod BITVEC_NINT"

datatype bitvec = Bitvec (iSize: nat) (nSet: nat) (iDivisor: nat) (u: bv_union)
  and bv_union = aBitmap "u8 list" | aHash "nat list" | apSub "bitvec option list"

datatype rc = SQLITE_OK | SQLITE_NOMEM

definition sqlite3BitvecCreate :: "nat \<Rightarrow> bitvec" where
  "sqlite3BitvecCreate n =
     Bitvec n 0 0 (if n \<le> BITVEC_NBIT then aBitmap (replicate BITVEC_NELEM 0)
                   else aHash (replicate BITVEC_NINT 0))"

definition sqlite3BitvecSize :: "bitvec \<Rightarrow> nat" where
  "sqlite3BitvecSize p = iSize p"

lemma size_sub_vector [termination_simp]:
  "k < length ps \<Longrightarrow> ps ! k = Some q \<Longrightarrow> size q < Suc (Suc (size_list (size_option size) ps))"
proof -
  assume k: "k < length ps" "ps ! k = Some q"
  have "size_option size (ps ! k) \<le> size_list (size_option size) ps"
    using k(1) by (intro size_list_estimation') auto
  then show ?thesis using k(2) by simp
qed

section \<open>Test\<close>

text \<open>The loop over the hash slots; the count bounds it by one turn around the table.\<close>

fun test_hash :: "nat \<Rightarrow> nat list \<Rightarrow> nat \<Rightarrow> nat \<Rightarrow> bool" where
  "test_hash 0 a h i = False"
| "test_hash (Suc k) a h i =
     (if a ! h \<noteq> 0 then (if a ! h = i then True else test_hash k a ((h + 1) mod BITVEC_NINT) i)
      else False)"

text \<open>
  The body of \<open>sqlite3BitvecTestNotNull\<close> after the range check, \<open>i\<close> counted from 0; one equation
  for each representation, the recursion being the loop down the tree.
\<close>

fun test_loop :: "bitvec \<Rightarrow> nat \<Rightarrow> bool" where
  "test_loop (Bitvec n s d (apSub ps)) i =
     (if d \<noteq> 0 \<and> i div d < length ps
      then (case ps ! (i div d) of None \<Rightarrow> False | Some q \<Rightarrow> test_loop q (i mod d))
      else False)"
| "test_loop (Bitvec n s d (aBitmap bm)) i =
     ((bm ! (i div 8)) AND push_bit (i mod 8) 1 \<noteq> 0)"
| "test_loop (Bitvec n s d (aHash a)) i = test_hash BITVEC_NINT a (BITVEC_HASH i) (i + 1)"

definition sqlite3BitvecTestNotNull :: "bitvec \<Rightarrow> nat \<Rightarrow> bool" where
  "sqlite3BitvecTestNotNull p i =
     (let i = (i + 2 ^ 32 - 1) mod 2 ^ 32
      in if i \<ge> iSize p then False else test_loop p i)"

definition sqlite3BitvecTest :: "bitvec option \<Rightarrow> nat \<Rightarrow> bool" where
  "sqlite3BitvecTest p i = (case p of None \<Rightarrow> False | Some q \<Rightarrow> sqlite3BitvecTestNotNull q i)"

section \<open>Set\<close>

datatype probe = Present | Free nat | Full

text \<open>The \<open>do ... while\<close> loop after a collision: the value is there, or the first free slot.\<close>

fun set_probe :: "nat \<Rightarrow> nat list \<Rightarrow> nat \<Rightarrow> nat \<Rightarrow> probe" where
  "set_probe 0 a h i = Full"
| "set_probe (Suc k) a h i =
     (if a ! h = i then Present
      else let h = (if h + 1 \<ge> BITVEC_NINT then 0 else h + 1)
           in if a ! h \<noteq> 0 then set_probe k a h i else Free h)"

definition bitmap_set :: "nat \<Rightarrow> u8 list \<Rightarrow> u8 list" where
  "bitmap_set i bm = bm[i div 8 := bm ! (i div 8) OR push_bit (i mod 8) 1]"

definition or_rc :: "rc \<Rightarrow> rc \<Rightarrow> rc" where
  "or_rc a b = (if a = SQLITE_OK then b else a)"

text \<open>
  \<open>sqlite3BitvecSet\<close> with \<open>i\<close> counted from 0. The first argument bounds the number of levels the
  call goes down (a self-call to split a full hash table counts as one); \<open>None\<close> when it runs out.
\<close>

fun set_loop ::
  "(nat \<Rightarrow> bool) \<Rightarrow> nat \<Rightarrow> bitvec \<Rightarrow> nat \<Rightarrow> nat \<Rightarrow> (rc \<times> bitvec \<times> nat) option" where
  "set_loop fails 0 p i m = None"
| "set_loop fails (Suc fuel) (Bitvec n s d (apSub ps)) i m =
     (if d = 0 \<or> length ps \<le> i div d then None
      else
        let bin = i div d; i = i mod d in
        (case ps ! bin of
           None \<Rightarrow>
             if fails m then Some (SQLITE_NOMEM, Bitvec n s d (apSub ps), m + 1)
             else (case set_loop fails fuel (sqlite3BitvecCreate d) i (m + 1) of
                 None \<Rightarrow> None
               | Some (rc, q, m') \<Rightarrow> Some (rc, Bitvec n s d (apSub (ps[bin := Some q])), m'))
         | Some q \<Rightarrow>
             (case set_loop fails fuel q i m of
                None \<Rightarrow> None
              | Some (rc, q', m') \<Rightarrow> Some (rc, Bitvec n s d (apSub (ps[bin := Some q'])), m'))))"
| "set_loop fails (Suc fuel) (Bitvec n s d (aBitmap bm)) i m =
     Some (SQLITE_OK, Bitvec n s d (aBitmap (bitmap_set i bm)), m)"
| "set_loop fails (Suc fuel) (Bitvec n s d (aHash a)) i m =
     (let h = BITVEC_HASH i; i = i + 1;
          finish = (\<lambda>h. Some (SQLITE_OK, Bitvec n (s + 1) d (aHash (a[h := i])), m));
          rehash = (\<lambda>h.
            if s \<ge> BITVEC_MXHASH then
              if fails m then Some (SQLITE_NOMEM, Bitvec n s d (aHash a), m + 1)
              else
                let p = Bitvec n s ((n + BITVEC_NPTR - 1) div BITVEC_NPTR)
                          (apSub (replicate BITVEC_NPTR None))
                in fold (\<lambda>v st. case st of None \<Rightarrow> None | Some (rc, p, m) \<Rightarrow>
                       if v = 0 then Some (rc, p, m)
                       else (case set_loop fails fuel p (v - 1) m of
                           None \<Rightarrow> None
                         | Some (rc', p', m') \<Rightarrow> Some (or_rc rc rc', p', m')))
                     a (set_loop fails fuel p (i - 1) (m + 1))
            else finish h)
      in if a ! h = 0 then (if s < BITVEC_NINT - 1 then finish h else rehash h)
         else (case set_probe BITVEC_NINT a h i of
             Present \<Rightarrow> Some (SQLITE_OK, Bitvec n s d (aHash a), m)
           | Free h \<Rightarrow> rehash h
           | Full \<Rightarrow> None))"

definition sqlite3BitvecSet ::
  "(nat \<Rightarrow> bool) \<Rightarrow> bitvec \<Rightarrow> nat \<Rightarrow> nat \<Rightarrow> (rc \<times> bitvec \<times> nat) option" where
  "sqlite3BitvecSet fails p i m = set_loop fails 9 p (i - 1) m"

section \<open>Clear\<close>

definition bitmap_clear :: "nat \<Rightarrow> u8 list \<Rightarrow> u8 list" where
  "bitmap_clear i bm = bm[i div 8 := bm ! (i div 8) AND NOT (push_bit (i mod 8) 1)]"

text \<open>The inner loop of the rebuild: the first free slot from \<open>h\<close> on.\<close>

fun free_slot :: "nat \<Rightarrow> nat list \<Rightarrow> nat \<Rightarrow> nat" where
  "free_slot 0 a h = h"
| "free_slot (Suc k) a h =
     (if a ! h \<noteq> 0 then free_slot k a (if h + 1 \<ge> BITVEC_NINT then 0 else h + 1) else h)"

definition reinsert :: "nat \<Rightarrow> nat list \<times> nat \<Rightarrow> nat list \<times> nat" where
  "reinsert v = (\<lambda>(a, s). (a[free_slot BITVEC_NINT a (BITVEC_HASH (v - 1)) := v], s + 1))"

fun clear_loop :: "bitvec \<Rightarrow> nat \<Rightarrow> bitvec" where
  "clear_loop (Bitvec n s d (apSub ps)) i =
     (if d \<noteq> 0 \<and> i div d < length ps
      then (case ps ! (i div d) of
          None \<Rightarrow> Bitvec n s d (apSub ps)
        | Some q \<Rightarrow> Bitvec n s d (apSub (ps[i div d := Some (clear_loop q (i mod d))])))
      else Bitvec n s d (apSub ps))"
| "clear_loop (Bitvec n s d (aBitmap bm)) i = Bitvec n s d (aBitmap (bitmap_clear i bm))"
| "clear_loop (Bitvec n s d (aHash a)) i =
     (let (a', s') = fold (\<lambda>v st. if v \<noteq> 0 \<and> v \<noteq> i + 1 then reinsert v st else st)
                       a (replicate BITVEC_NINT 0, 0)
      in Bitvec n s' d (aHash a'))"

definition sqlite3BitvecClear :: "bitvec \<Rightarrow> nat \<Rightarrow> bitvec" where
  "sqlite3BitvecClear p i = clear_loop p (i - 1)"


section \<open>Linear probing\<close>

text \<open>
  The table invariant: from the home slot of every value in the table, the probe sequence meets
  the value before it meets a free slot.
\<close>

definition reaches :: "nat list \<Rightarrow> nat \<Rightarrow> nat \<Rightarrow> bool" where
  "reaches a h d \<longleftrightarrow> d < BITVEC_NINT \<and> (\<forall>e<d. a ! ((h + e) mod BITVEC_NINT) \<noteq> 0)"

definition found :: "nat list \<Rightarrow> nat \<Rightarrow> bool" where
  "found a v \<longleftrightarrow> (\<exists>d<BITVEC_NINT. reaches a (v - 1) d \<and> a ! ((v - 1 + d) mod BITVEC_NINT) = v)"

definition hash_ok :: "nat list \<Rightarrow> bool" where
  "hash_ok a \<longleftrightarrow> length a = BITVEC_NINT \<and> (\<forall>v\<in>set a. v \<noteq> 0 \<longrightarrow> found a v)"

abbreviation (input) used :: "nat list \<Rightarrow> nat" where
  "used a \<equiv> length (filter (\<lambda>v. v \<noteq> 0) a)"

lemma next_slot: "h < 124 \<Longrightarrow> (if h + 1 \<ge> 124 then 0 else h + 1) = (h + 1) mod (124::nat)"
  by (cases "h = 123") auto

lemma slot_shift: "((h + 1) mod 124 + d) mod 124 = (h + Suc d) mod (124::nat)"
  by (simp add: mod_simps)

lemma reaches_Suc:
  "(\<forall>e<Suc d. P ((h + e) mod 124)) \<longleftrightarrow> P (h mod 124) \<and> (\<forall>e<d. P (((h + 1) mod 124 + e) mod (124::nat)))"
  unfolding slot_shift by (auto simp: less_Suc_eq_0_disj)

lemma test_hash_iff:
  "h < 124 \<Longrightarrow> i \<noteq> 0 \<Longrightarrow>
     test_hash k a h i \<longleftrightarrow>
       (\<exists>d<k. (\<forall>e<d. a ! ((h + e) mod 124) \<noteq> 0) \<and> a ! ((h + d) mod 124) = i)"
proof (induction k arbitrary: h)
  case (Suc k)
  have IH: "test_hash k a ((h + 1) mod 124) i \<longleftrightarrow>
      (\<exists>d<k. (\<forall>e<d. a ! ((h + Suc e) mod 124) \<noteq> 0) \<and> a ! ((h + Suc d) mod 124) = i)"
    using Suc.IH[of "(h + 1) mod 124"] Suc.prems unfolding slot_shift by simp
  have split: "(\<exists>d<Suc k. P d) \<longleftrightarrow> P 0 \<or> (\<exists>d<k. P (Suc d))" for P
    by (auto simp: less_Suc_eq_0_disj)
  have split_all: "(\<forall>e<Suc d. Q e) \<longleftrightarrow> Q 0 \<and> (\<forall>e<d. Q (Suc e))" for Q :: "nat \<Rightarrow> bool" and d
    by (auto simp: less_Suc_eq_0_disj)
  show ?case using Suc.prems
    by (simp only: test_hash.simps IH split split_all) auto
qed simp

lemma test_hash_found: "test_hash 124 a (i mod 124) (i + 1) \<longleftrightarrow> found a (i + 1)"
  unfolding found_def reaches_def by (subst test_hash_iff) (auto simp: mod_simps)

lemma found_in_set: "length a = 124 \<Longrightarrow> found a v \<Longrightarrow> v \<in> set a"
  unfolding found_def by (metis nth_mem mod_less_divisor zero_less_numeral)

lemma test_hash_set: "hash_ok a \<Longrightarrow> test_hash 124 a (i mod 124) (i + 1) \<longleftrightarrow> i + 1 \<in> set a"
  unfolding test_hash_found using found_in_set by (auto simp: hash_ok_def)

lemma used_update:
  "h < length a \<Longrightarrow> a ! h = 0 \<Longrightarrow> v \<noteq> 0 \<Longrightarrow> used (a[h := v]) = Suc (used a)"
  by (induction a arbitrary: h) (auto split: nat.split simp: nth_Cons')

lemma set_update_free:
  "h < length a \<Longrightarrow> a ! h = 0 \<Longrightarrow> w \<noteq> 0 \<Longrightarrow> w \<in> set (a[h := v]) \<longleftrightarrow> w = v \<or> w \<in> set a"
  by (induction a arbitrary: h) (auto split: nat.split simp: nth_Cons')

lemma hash_ok_update:
  assumes a: "hash_ok a" and h: "a ! ((v - 1 + d) mod 124) = 0" and r: "reaches a (v - 1) d"
    and v: "v \<noteq> 0"
  shows "hash_ok (a[(v - 1 + d) mod 124 := v])"
proof -
  let ?h = "(v - 1 + d) mod 124" and ?b = "a[(v - 1 + d) mod 124 := v]"
  have len: "length a = 124" and hl: "?h < length a" using a by (auto simp: hash_ok_def)
  have keep: "?b ! s \<noteq> 0" if "a ! s \<noteq> 0" for s
    using that v hl nth_list_update_eq[OF hl, of v] nth_list_update_neq[of ?h s a v]
    by (cases "s = ?h") metis+
  have "found ?b w" if w: "w \<in> set ?b" "w \<noteq> 0" for w
  proof (cases "w = v")
    case True
    have "reaches ?b (v - 1) d" using r keep unfolding reaches_def by blast
    moreover have "?b ! ((v - 1 + d) mod 124) = v" using hl by simp
    ultimately show ?thesis using True unfolding found_def reaches_def by blast
  next
    case False
    then have "found a w" using w a set_update_free[OF hl h, of w v] by (auto simp: hash_ok_def)
    then obtain e where e: "reaches a (w - 1) e" "a ! ((w - 1 + e) mod 124) = w"
      by (auto simp: found_def)
    then have "(w - 1 + e) mod 124 \<noteq> ?h" using h w(2) by metis
    then have "?b ! ((w - 1 + e) mod 124) = w" using e(2) by simp
    moreover have "reaches ?b (w - 1) e" using e(1) keep unfolding reaches_def by blast
    ultimately show ?thesis unfolding found_def reaches_def by blast
  qed
  then show ?thesis using len by (simp add: hash_ok_def)
qed

lemma free_slot_exists:
  assumes "length a = 124" "used a \<noteq> 124"
  shows "\<exists>d<124. a ! ((h + d) mod 124) = 0"
proof -
  have "\<not> (\<forall>v\<in>set a. v \<noteq> 0)"
  proof
    assume "\<forall>v\<in>set a. v \<noteq> 0"
    then have "filter (\<lambda>v. v \<noteq> 0) a = a" by (simp add: filter_True)
    then show False using assms by simp
  qed
  then obtain s where s: "s < 124" "a ! s = 0" using assms(1) by (auto simp: in_set_conv_nth)
  define r where "r = h mod 124"
  have r: "r < 124" "(h + d) mod 124 = (r + d) mod 124" for d by (simp_all add: r_def mod_simps)
  have "\<exists>d<124. (r + d) mod 124 = s"
  proof (cases "r \<le> s")
    case True
    then show ?thesis using s(1) by (intro exI[of _ "s - r"]) auto
  next
    case False
    then have "r + (s + 124 - r) = s + 124" using r(1) by simp
    then show ?thesis using s(1) False by (intro exI[of _ "s + 124 - r"]) auto
  qed
  then show ?thesis using s(2) r(2) by auto
qed

lemma free_slot_spec:
  "h < 124 \<Longrightarrow> \<exists>d<k. a ! ((h + d) mod 124) = 0 \<Longrightarrow>
     \<exists>d<k. free_slot k a h = (h + d) mod 124 \<and> a ! ((h + d) mod 124) = 0
         \<and> (\<forall>e<d. a ! ((h + e) mod 124) \<noteq> 0)"
proof (induction k arbitrary: h)
  case (Suc k)
  show ?case
  proof (cases "a ! h = 0")
    case True
    then show ?thesis using Suc.prems(1) by (intro exI[of _ 0]) simp
  next
    case False
    let ?g = "(h + 1) mod 124"
    obtain d where d: "d < Suc k" "a ! ((h + d) mod 124) = 0" using Suc.prems(2) by blast
    then obtain d' where "d = Suc d'" using False Suc.prems(1) by (cases d) auto
    then have "\<exists>d<k. a ! ((?g + d) mod 124) = 0" using d unfolding slot_shift by auto
    then obtain c where c: "c < k" "free_slot k a ?g = (?g + c) mod 124"
        "a ! ((?g + c) mod 124) = 0" "\<forall>e<c. a ! ((?g + e) mod 124) \<noteq> 0"
      using Suc.IH[of ?g] by auto
    have "\<forall>e<Suc c. a ! ((h + e) mod 124) \<noteq> 0"
      using c(4) False Suc.prems(1) reaches_Suc[of c "\<lambda>s. a ! s \<noteq> 0" h] by simp
    moreover have "free_slot (Suc k) a h = (h + Suc c) mod 124"
      using c(2) False Suc.prems(1) next_slot[of h] slot_shift[of h c] by simp
    ultimately show ?thesis using c(1,3) unfolding slot_shift by (intro exI[of _ "Suc c"]) simp
  qed
qed simp

lemma set_probe_spec:
  "h < 124 \<Longrightarrow> a ! h \<noteq> 0 \<Longrightarrow>
     (case set_probe k a h i of
        Present \<Rightarrow> \<exists>d<k. a ! ((h + d) mod 124) = i
      | Free s \<Rightarrow> \<exists>d\<le>k. s = (h + d) mod 124 \<and> a ! s = 0 \<and> (\<forall>e<d. a ! ((h + e) mod 124) \<noteq> 0)
      | Full \<Rightarrow> \<forall>d\<le>k. a ! ((h + d) mod 124) \<noteq> 0)"
proof (induction k arbitrary: h)
  case (Suc k)
  let ?g = "(h + 1) mod 124"
  have g: "set_probe (Suc k) a h i =
      (if a ! h = i then Present else if a ! ?g \<noteq> 0 then set_probe k a ?g i else Free ?g)"
    unfolding set_probe.simps Let_def next_slot[OF Suc.prems(1)] by (rule refl)
  show ?case
  proof (cases "a ! h = i")
    case True
    then show ?thesis using Suc.prems(1) by (auto intro!: exI[of _ 0])
  next
    case ne: False
    show ?thesis
    proof (cases "a ! ?g = 0")
      case True
      then have "set_probe (Suc k) a h i = Free ?g" using ne g by simp
      then show ?thesis using ne True Suc.prems by (auto intro!: exI[of _ 1])
    next
      case False
      then have IH: "case set_probe k a ?g i of
          Present \<Rightarrow> \<exists>d<k. a ! ((h + Suc d) mod 124) = i
        | Free s \<Rightarrow> \<exists>d\<le>k. s = (h + Suc d) mod 124 \<and> a ! s = 0 \<and> (\<forall>e<d. a ! ((h + Suc e) mod 124) \<noteq> 0)
        | Full \<Rightarrow> \<forall>d\<le>k. a ! ((h + Suc d) mod 124) \<noteq> 0"
        using Suc.IH[of ?g] unfolding slot_shift by simp
      have r: "set_probe (Suc k) a h i = set_probe k a ?g i" using g ne False by simp
      show ?thesis
      proof (cases "set_probe k a ?g i")
        case Present
        then show ?thesis using IH unfolding r by auto
      next
        case (Free s)
        then obtain d where d: "d \<le> k" "s = (h + Suc d) mod 124" "a ! s = 0"
            "\<forall>e<d. a ! ((h + Suc e) mod 124) \<noteq> 0" using IH by auto
        have "\<forall>e<Suc d. a ! ((h + e) mod 124) \<noteq> 0"
          using d(4) Suc.prems by (auto simp: less_Suc_eq_0_disj)
        then show ?thesis using Free d(1,2,3) unfolding r by (auto intro!: exI[of _ "Suc d"])
      next
        case Full
        have "a ! ((h + d) mod 124) \<noteq> 0" if "d \<le> Suc k" for d
          using that Full IH Suc.prems by (cases d) auto
        then show ?thesis using Full unfolding r by simp
      qed
    qed
  qed
qed simp

section \<open>The invariant of a bit vector\<close>

fun bv_inv :: "bitvec \<Rightarrow> bool" where
  "bv_inv (Bitvec n s d (aBitmap bm)) \<longleftrightarrow> n \<le> BITVEC_NBIT \<and> length bm = BITVEC_NELEM"
| "bv_inv (Bitvec n s d (aHash a)) \<longleftrightarrow>
     BITVEC_NBIT < n \<and> n < 2 ^ 32 \<and> hash_ok a \<and> s = used a \<and> s < BITVEC_NINT
     \<and> (\<forall>v\<in>set a. v \<le> n)"
| "bv_inv (Bitvec n s d (apSub ps)) \<longleftrightarrow>
     BITVEC_NBIT < n \<and> n < 2 ^ 32 \<and> d = (n + 61) div 62 \<and> length ps = BITVEC_NPTR
     \<and> list_all (\<lambda>x. case x of None \<Rightarrow> True | Some q \<Rightarrow> iSize q = d \<and> bv_inv q) ps"

definition is_sub :: "bitvec \<Rightarrow> bool" where
  "is_sub p = (case u p of apSub _ \<Rightarrow> True | _ \<Rightarrow> False)"

lemma used_replicate: "used (replicate k 0) = 0"
  by (induction k) auto

lemma hash_ok_empty: "hash_ok (replicate 124 0)"
  by (simp add: hash_ok_def)

lemma bv_inv_Create: "n < 2 ^ 32 \<Longrightarrow> bv_inv (sqlite3BitvecCreate n)"
  by (auto simp: sqlite3BitvecCreate_def hash_ok_empty used_replicate)

lemma test_Create: "i < n \<Longrightarrow> \<not> test_loop (sqlite3BitvecCreate n) i"
  using test_hash_set[OF hash_ok_empty, of i]
  by (auto simp: sqlite3BitvecCreate_def)

lemma iSize_Create: "iSize (sqlite3BitvecCreate n) = n"
  by (simp add: sqlite3BitvecCreate_def)

lemma bin_less: "i < n \<Longrightarrow> i div ((n + 61) div 62) < (62::nat)"
  by (rule less_mult_imp_div_less) (simp; presburger?)

lemma mask_test: "x AND push_bit k 1 \<noteq> 0 \<longleftrightarrow> bit x k" for x :: u8
  by (simp add: push_bit_of_1 and_exp_eq_0_iff_not_bit)

lemma mod8_eqD: "i div 8 = j div 8 \<Longrightarrow> i mod 8 = j mod 8 \<Longrightarrow> i = (j::nat)"
  by (metis div_mult_mod_eq)

lemma bitmap_set_test:
  "i < 8 * length bm \<Longrightarrow> j < 8 * length bm \<Longrightarrow>
     bit (bitmap_set i bm ! (j div 8)) (j mod 8) \<longleftrightarrow> j = i \<or> bit (bm ! (j div 8)) (j mod 8)"
  by (auto simp: bitmap_set_def nth_list_update bit_or_iff bit_push_bit_iff bit_1_iff push_bit_of_1
        bit_exp_iff dest: mod8_eqD)

lemma bitmap_clear_test:
  "i < 8 * length bm \<Longrightarrow> j < 8 * length bm \<Longrightarrow>
     bit (bitmap_clear i bm ! (j div 8)) (j mod 8) \<longleftrightarrow> j \<noteq> i \<and> bit (bm ! (j div 8)) (j mod 8)"
  by (auto simp: bitmap_clear_def nth_list_update bit_and_iff bit_not_iff bit_push_bit_iff bit_1_iff
        push_bit_of_1 bit_exp_iff dest: mod8_eqD)

section \<open>What Set does\<close>

text \<open>
  A result of Set is right for the target set \<open>S\<close>: the vector is well formed and has its size,
  it holds nothing outside \<open>S\<close>, it holds all of \<open>S\<close> when the code is \<open>SQLITE_OK\<close>, and the code is
  \<open>SQLITE_OK\<close> when no allocation failed.
\<close>

definition set_post ::
  "(nat \<Rightarrow> bool) \<Rightarrow> nat \<Rightarrow> bool \<Rightarrow> nat set \<Rightarrow> nat \<Rightarrow> (rc \<times> bitvec \<times> nat) option \<Rightarrow> bool" where
  "set_post fails n b S m r = (case r of None \<Rightarrow> False | Some (rc, p, m') \<Rightarrow>
      bv_inv p \<and> iSize p = n \<and> (b \<longrightarrow> is_sub p) \<and> m \<le> m'
      \<and> (\<forall>j<n. test_loop p j \<longrightarrow> j \<in> S)
      \<and> (rc = SQLITE_OK \<longrightarrow> (\<forall>j<n. j \<in> S \<longrightarrow> test_loop p j))
      \<and> ((\<forall>k. m \<le> k \<and> k < m' \<longrightarrow> \<not> fails k) \<longrightarrow> rc = SQLITE_OK))"

definition bv_bits :: "bitvec \<Rightarrow> nat set" where
  "bv_bits p = {j. j < iSize p \<and> test_loop p j}"

text \<open>The levels of recursion a call can need.\<close>

definition enough :: "bitvec \<Rightarrow> nat \<Rightarrow> bool" where
  "enough p fuel \<longleftrightarrow>
     (\<exists>k. iSize p \<le> BITVEC_NBIT * 62 ^ k \<and> 2 * k + (if is_sub p then 0 else 1) \<le> fuel)"

lemma set_postE:
  assumes "set_post fails n b S m r"
  obtains rc p m' where "r = Some (rc, p, m')" "bv_inv p" "iSize p = n" "b \<Longrightarrow> is_sub p" "m \<le> m'"
    "\<And>j. j < n \<Longrightarrow> test_loop p j \<Longrightarrow> j \<in> S"
    "\<And>j. rc = SQLITE_OK \<Longrightarrow> j < n \<Longrightarrow> j \<in> S \<Longrightarrow> test_loop p j"
    "(\<And>k. m \<le> k \<Longrightarrow> k < m' \<Longrightarrow> \<not> fails k) \<Longrightarrow> rc = SQLITE_OK"
proof -
  obtain rc p m' where r: "r = Some (rc, p, m')"
    using assms by (cases r) (auto simp: set_post_def)
  show ?thesis by (rule that[OF r]) (use assms r in \<open>auto simp only: set_post_def option.case prod.case\<close>)
qed

lemma test_sub:
  assumes "bv_inv (Bitvec n s d (apSub ps))" "j < n"
  shows "test_loop (Bitvec n s d (apSub ps)) j \<longleftrightarrow>
           (case ps ! (j div d) of None \<Rightarrow> False | Some q \<Rightarrow> test_loop q (j mod d))"
    "d > 0" "j div d < 62"
proof -
  have d: "d = (n + 61) div 62" "length ps = 62" using assms(1) by simp_all
  then show "d > 0" using assms by simp
  show "j div d < 62" using bin_less assms(2) d by simp
  then show "test_loop (Bitvec n s d (apSub ps)) j \<longleftrightarrow>
           (case ps ! (j div d) of None \<Rightarrow> False | Some q \<Rightarrow> test_loop q (j mod d))"
    using d(2) \<open>d > 0\<close> \<open>j div d < 62\<close> by simp
qed

lemma sub_child:
  "bv_inv (Bitvec n s d (apSub ps)) \<Longrightarrow> k < 62 \<Longrightarrow> ps ! k = Some q \<Longrightarrow> iSize q = d \<and> bv_inv q"
  by (auto simp: list_all_length split: option.splits)

lemma bv_inv_sub_update:
  "bv_inv (Bitvec n s d (apSub ps)) \<Longrightarrow> iSize q = d \<Longrightarrow> bv_inv q \<Longrightarrow>
     bv_inv (Bitvec n s d (apSub (ps[k := Some q])))"
  using set_update_subset_insert[of ps k "Some q"]
  by (auto simp: list_all_iff split: option.splits)

lemma enough_child:
  assumes inv: "bv_inv p" and sub: "is_sub p" and e: "enough p (Suc fuel)"
    and q: "iSize q = (iSize p + 61) div 62"
  shows "enough q fuel"
proof -
  obtain k where k: "iSize p \<le> 3968 * 62 ^ k" "2 * k \<le> Suc fuel"
    using e sub by (auto simp: enough_def)
  have "3968 < iSize p" using inv sub by (cases p; cases "u p") (auto simp: is_sub_def)
  with k(1) obtain k' where k': "k = Suc k'" by (cases k) auto
  have "(3968 * 62 ^ k + 61) div 62 = (3968 * 62 ^ k' :: nat)" unfolding k' by simp
  moreover have "(iSize p + 61) div 62 \<le> (3968 * 62 ^ k + 61) div 62"
    using k(1) by (intro div_le_mono) simp
  ultimately show ?thesis using k(2) unfolding enough_def k' q
    by (intro exI[of _ k']) auto
qed

lemma set_post_sub:
  assumes inv: "bv_inv (Bitvec n s d (apSub ps))" and i: "i < n"
    and child: "\<And>j. j < d \<Longrightarrow> j \<in> T \<longleftrightarrow> j = i mod d \<or>
        (case ps ! (i div d) of None \<Rightarrow> False | Some q \<Rightarrow> test_loop q j)"
    and r: "set_post fails d False T m0 r" and m: "m \<le> m0"
      "\<And>k. m \<le> k \<Longrightarrow> k < m0 \<Longrightarrow> \<not> fails k"
  shows "set_post fails n True ({j. test_loop (Bitvec n s d (apSub ps)) j} \<union> {i}) m
    (case r of None \<Rightarrow> None
     | Some (rc, q, m') \<Rightarrow> Some (rc, Bitvec n s d (apSub (ps[i div d := Some q])), m'))"
proof -
  let ?p = "Bitvec n s d (apSub ps)"
  from r obtain rc q m' where q: "r = Some (rc, q, m')" "bv_inv q" "iSize q = d" "m0 \<le> m'"
    "\<And>j. j < d \<Longrightarrow> test_loop q j \<Longrightarrow> j \<in> T"
    "\<And>j. rc = SQLITE_OK \<Longrightarrow> j < d \<Longrightarrow> j \<in> T \<Longrightarrow> test_loop q j"
    "(\<And>k. m0 \<le> k \<Longrightarrow> k < m' \<Longrightarrow> \<not> fails k) \<Longrightarrow> rc = SQLITE_OK"
    by (rule set_postE) blast
  let ?q = "Bitvec n s d (apSub (ps[i div d := Some q]))"
  have inv': "bv_inv ?q" using bv_inv_sub_update[OF inv q(3,2)] .
  have len: "length ps = 62" using inv by simp
  have d: "d > 0" "i div d < 62" using test_sub[OF inv i] by simp_all
  have t: "test_loop ?q j \<longleftrightarrow> (if j div d = i div d then test_loop q (j mod d) else test_loop ?p j)"
    if "j < n" for j
    using test_sub[OF inv' that] test_sub[OF inv that] len d
    by (simp add: nth_list_update)
  have T: "j mod d \<in> T \<longleftrightarrow> j = i \<or> test_loop ?p j" if "j < n" "j div d = i div d" for j
  proof -
    have "j mod d = i mod d \<longleftrightarrow> j = i" using that(2) by (metis div_mult_mod_eq)
    then show ?thesis using child[of "j mod d"] d(1) test_sub[OF inv that(1)] that(2) by simp
  qed
  have "j \<in> {j. test_loop ?p j} \<union> {i}" if "j < n" "test_loop ?q j" for j
    using that t[OF that(1)] T[OF that(1)] q(5)[of "j mod d"] d(1) by (auto split: if_splits)
  moreover have "test_loop ?q j" if "rc = SQLITE_OK" "j < n" "j \<in> {j. test_loop ?p j} \<union> {i}" for j
    using that t[OF that(2)] T[OF that(2)] q(6)[of "j mod d"] d(1) by auto
  moreover have "rc = SQLITE_OK" if "\<forall>k. m \<le> k \<and> k < m' \<longrightarrow> \<not> fails k"
    using that q(7) m by auto
  moreover have "iSize ?q = n" "is_sub ?q" "m \<le> m'" using q(4) m(1) by (simp_all add: is_sub_def)
  ultimately show ?thesis using inv' unfolding set_post_def q(1) option.case prod.case by blast
qed

lemma set_post_bitmap:
  assumes inv: "bv_inv (Bitvec n s d (aBitmap bm))" and i: "i < n"
  shows "set_post fails n False ({j. test_loop (Bitvec n s d (aBitmap bm)) j} \<union> {i}) m
           (Some (SQLITE_OK, Bitvec n s d (aBitmap (bitmap_set i bm)), m))"
proof -
  have "n \<le> 8 * length bm" using inv by simp
  then have "test_loop (Bitvec n s d (aBitmap (bitmap_set i bm))) j \<longleftrightarrow>
        j = i \<or> test_loop (Bitvec n s d (aBitmap bm)) j" if "j < n" for j
    using bitmap_set_test[of i bm j] i that by (simp add: and_exp_eq_0_iff_not_bit)
  moreover have "bv_inv (Bitvec n s d (aBitmap (bitmap_set i bm)))" using inv by (simp add: bitmap_set_def)
  ultimately show ?thesis unfolding set_post_def option.case prod.case by simp
qed

lemma hash_slot:
  assumes inv: "bv_inv (Bitvec n s d (aHash a))" and i: "i < n"
    and h: "h = (i + e) mod 124" "a ! h = 0" "reaches a i e" and s: "s < 123"
  shows "set_post fails n False ({j. test_loop (Bitvec n s d (aHash a)) j} \<union> {i}) m
           (Some (SQLITE_OK, Bitvec n (s + 1) d (aHash (a[h := i + 1])), m))"
proof -
  let ?b = "a[h := i + 1]"
  have a: "hash_ok a" "s = used a" "\<forall>v\<in>set a. v \<le> n" "length a = 124"
    using inv by (simp_all add: hash_ok_def)
  have hl: "h < length a" using h(1) a(4) by simp
  have ok: "hash_ok ?b" using hash_ok_update[OF a(1), of "i + 1" e] h by simp
  have "used ?b = s + 1" using used_update[OF hl h(2), of "i + 1"] a(2) by simp
  moreover have "\<forall>v\<in>set ?b. v \<le> n" using a(3) i set_update_subset_insert[of a h "i + 1"] by auto
  ultimately have inv': "bv_inv (Bitvec n (s + 1) d (aHash ?b))" using inv ok s by simp
  have "test_loop (Bitvec n (s + 1) d (aHash ?b)) j \<longleftrightarrow> j = i \<or> test_loop (Bitvec n s d (aHash a)) j" for j
    unfolding test_loop.simps test_hash_set[OF ok] test_hash_set[OF a(1)]
    using set_update_free[OF hl h(2), of "j + 1" "i + 1"] by simp
  then show ?thesis using inv' unfolding set_post_def option.case prod.case by simp
qed

lemma set_post_trans:
  assumes "set_post fails n True S m0 (Some (rc, p, m))"
    and "set_post fails n True ({j. test_loop p j} \<union> {i}) m (Some (rc', p', m'))"
  shows "set_post fails n True (insert i S) m0 (Some (or_rc rc rc', p', m'))"
proof -
  note 1 = assms(1)[unfolded set_post_def option.case prod.case]
  note 2 = assms(2)[unfolded set_post_def option.case prod.case]
  have rc: "or_rc rc rc' = SQLITE_OK \<longleftrightarrow> rc = SQLITE_OK \<and> rc' = SQLITE_OK"
    by (cases rc) (auto simp: or_rc_def)
  have "\<forall>j<n. test_loop p' j \<longrightarrow> j \<in> insert i S" using 1 2 by auto
  moreover have "or_rc rc rc' = SQLITE_OK \<longrightarrow> (\<forall>j<n. j \<in> insert i S \<longrightarrow> test_loop p' j)"
    using 1 2 unfolding rc by auto
  moreover have "(\<forall>k. m0 \<le> k \<and> k < m' \<longrightarrow> \<not> fails k) \<longrightarrow> or_rc rc rc' = SQLITE_OK"
    using 1 2 unfolding rc by auto
  moreover have "m0 \<le> m'" using 1 2 by (blast intro: le_trans)
  ultimately show ?thesis using 2 unfolding set_post_def option.case prod.case by blast
qed

lemma set_post_fold:
  assumes IH: "\<And>p i m. bv_inv p \<Longrightarrow> i < iSize p \<Longrightarrow> enough p fuel \<Longrightarrow>
      set_post fails (iSize p) (is_sub p) ({j. test_loop p j} \<union> {i}) m (set_loop fails fuel p i m)"
    and enough: "\<And>p. iSize p = n \<Longrightarrow> is_sub p \<Longrightarrow> enough p fuel"
  shows "\<forall>v\<in>set vs. v \<le> n \<Longrightarrow> set_post fails n True S m0 st \<Longrightarrow>
    set_post fails n True (S \<union> {j. j + 1 \<in> set vs}) m0
      (fold (\<lambda>v st. case st of None \<Rightarrow> None | Some (rc, p, m) \<Rightarrow>
               if v = 0 then Some (rc, p, m)
               else (case set_loop fails fuel p (v - 1) m of
                   None \<Rightarrow> None
                 | Some (rc', p', m') \<Rightarrow> Some (or_rc rc rc', p', m'))) vs st)"
proof (induction vs arbitrary: S st)
  case (Cons v vs)
  let ?step = "\<lambda>v st. case st of None \<Rightarrow> None | Some (rc, p, m) \<Rightarrow>
               if v = 0 then Some (rc, p, m)
               else (case set_loop fails fuel p (v - 1) m of
                   None \<Rightarrow> None
                 | Some (rc', p', m') \<Rightarrow> Some (or_rc rc rc', p', m'))"
  obtain rc p m where st: "st = Some (rc, p, m)" "bv_inv p" "iSize p = n" "is_sub p"
    using Cons.prems(2) by (rule set_postE) blast
  show ?case
  proof (cases "v = 0")
    case True
    then have "{j. j + 1 \<in> set (v # vs)} = {j. j + 1 \<in> set vs}" by auto
    then show ?thesis using Cons.IH[of S st] Cons.prems True st(1) by simp
  next
    case False
    then have "v - 1 < iSize p" using Cons.prems(1) st(3) by (cases v) auto
    then have 1: "set_post fails n True ({j. test_loop p j} \<union> {v - 1}) m (set_loop fails fuel p (v - 1) m)"
      using IH[of p "v - 1" m] enough[OF st(3,4)] st(2-4) by simp
    then obtain rc' p' m' where r: "set_loop fails fuel p (v - 1) m = Some (rc', p', m')"
      by (rule set_postE) blast
    then have "?step v st = Some (or_rc rc rc', p', m')" using False st(1) by simp
    moreover have "set_post fails n True (insert (v - 1) S) m0 (Some (or_rc rc rc', p', m'))"
      using set_post_trans[OF Cons.prems(2)[unfolded st(1)] 1[unfolded r]] .
    ultimately have "set_post fails n True (insert (v - 1) S \<union> {j. j + 1 \<in> set vs}) m0 (fold ?step (v # vs) st)"
      using Cons.IH[of "insert (v - 1) S" "?step v st"] Cons.prems(1) by simp
    moreover have "insert (v - 1) S \<union> {j. j + 1 \<in> set vs} = S \<union> {j. j + 1 \<in> set (v # vs)}"
      using False by auto
    ultimately show ?thesis by simp
  qed
qed simp

lemma set_loop_post:
  "bv_inv p \<Longrightarrow> i < iSize p \<Longrightarrow> enough p fuel \<Longrightarrow>
     set_post fails (iSize p) (is_sub p) ({j. test_loop p j} \<union> {i}) m (set_loop fails fuel p i m)"
proof (induction fuel arbitrary: p i m)
  case 0
  then show ?case by (cases p; cases "u p") (auto simp: enough_def is_sub_def)
next
  case (Suc fuel)
  obtain n s d v where p: "p = Bitvec n s d v" by (cases p)
  have i: "i < n" using Suc.prems(2) p by simp
  show ?case
  proof (cases v)
    case (aBitmap bm)
    then show ?thesis using set_post_bitmap Suc.prems p by (simp add: is_sub_def)
  next
    case (apSub ps)
    have inv: "bv_inv (Bitvec n s d (apSub ps))" and sub: "is_sub p"
      using Suc.prems(1) unfolding p apSub by (simp_all only: is_sub_def bitvec.sel bv_union.case)
    have d: "d > 0" "i div d < 62" "d = (n + 61) div 62" "length ps = 62"
      using test_sub[OF inv i] inv by auto
    have child: "enough q fuel" if "iSize q = d" for q
      using enough_child[OF Suc.prems(1) sub Suc.prems(3)] that d(3) p by simp
    have im: "i mod d < d" using d(1) by simp
    let ?p = "Bitvec n s d (apSub ps)"
    let ?goal = "set_post fails n True ({j. test_loop ?p j} \<union> {i}) m"
    have r: "set_loop fails (Suc fuel) ?p i m =
       (case ps ! (i div d) of
           None \<Rightarrow>
             if fails m then Some (SQLITE_NOMEM, ?p, m + 1)
             else (case set_loop fails fuel (sqlite3BitvecCreate d) (i mod d) (m + 1) of
                 None \<Rightarrow> None
               | Some (rc, q, m') \<Rightarrow> Some (rc, Bitvec n s d (apSub (ps[i div d := Some q])), m'))
         | Some q \<Rightarrow>
             (case set_loop fails fuel q (i mod d) m of
                None \<Rightarrow> None
              | Some (rc, q', m') \<Rightarrow> Some (rc, Bitvec n s d (apSub (ps[i div d := Some q'])), m')))" for m
      using d(1,2,4) by (simp add: Let_def)
    have "n < 2 ^ 32" "3968 < n" using inv by simp_all
    then have dn: "d < 2 ^ 32" using div_le_mono[of "n + 61" "2 ^ 32 - 1" 62] d(3) by simp
    have "?goal (set_loop fails (Suc fuel) ?p i m)"
    proof (cases "ps ! (i div d)")
      case (Some q)
      then have q: "iSize q = d" "bv_inv q" using sub_child[OF inv d(2)] by auto
      have "set_post fails d False ({j. test_loop q j} \<union> {i mod d}) m (set_loop fails fuel q (i mod d) m)"
        using Suc.IH[of q "i mod d" m] q child im by (auto simp: set_post_def split: option.splits)
      from set_post_sub[OF inv i _ this order_refl]
      have "?goal (case set_loop fails fuel q (i mod d) m of None \<Rightarrow> None
          | Some (rc, q, m') \<Rightarrow> Some (rc, Bitvec n s d (apSub (ps[i div d := Some q])), m'))"
        using Some by simp
      then show ?thesis using r[of m] Some by simp
    next
      case None
      show ?thesis
      proof (cases "fails m")
        case True
        then have "set_loop fails (Suc fuel) p i m = Some (SQLITE_NOMEM, p, m + 1)"
          using p apSub None r by simp
        then show ?thesis using inv True p apSub sub unfolding set_post_def by auto
      next
        case False
        let ?q = "sqlite3BitvecCreate d"
        have "set_post fails d False ({j. test_loop ?q j} \<union> {i mod d}) (m + 1)
                (set_loop fails fuel ?q (i mod d) (m + 1))"
          using Suc.IH[of ?q "i mod d" "m + 1"] bv_inv_Create[OF dn] child[of ?q] im
          by (auto simp: set_post_def iSize_Create split: option.splits)
        from set_post_sub[OF inv i _ this, of m]
        have "?goal (case set_loop fails fuel ?q (i mod d) (m + 1) of None \<Rightarrow> None
            | Some (rc, q, m') \<Rightarrow> Some (rc, Bitvec n s d (apSub (ps[i div d := Some q])), m'))"
          using None False test_Create by (auto simp: less_Suc_eq)
        then show ?thesis using r[of m] None False by simp
      qed
    qed
    then show ?thesis using sub unfolding p apSub by simp
  next
    case (aHash a)
    have inv: "bv_inv (Bitvec n s d (aHash a))" using Suc.prems(1) unfolding p aHash .
    have a: "hash_ok a" "length a = 124" "s = used a" "s < 124" "\<forall>v\<in>set a. v \<le> n" "n < 2 ^ 32" "3968 < n"
      using inv by (simp_all add: hash_ok_def)
    have nsub: "\<not> is_sub p" using p aHash by (simp add: is_sub_def)
    let ?goal = "set_post fails n False ({j. test_loop (Bitvec n s d (aHash a)) j} \<union> {i}) m"
    let ?fin = "\<lambda>h. Some (SQLITE_OK, Bitvec n (s + 1) d (aHash (a[h := i + 1])), m)"
    let ?step = "\<lambda>v st. case st of None \<Rightarrow> None | Some (rc, p, m) \<Rightarrow>
               if v = 0 then Some (rc, p, m)
               else (case set_loop fails fuel p (v - 1) m of
                   None \<Rightarrow> None
                 | Some (rc', p', m') \<Rightarrow> Some (or_rc rc rc', p', m'))"
    let ?p = "Bitvec n s ((n + 62 - 1) div 62) (apSub (replicate 62 None))"
    let ?split = "if fails m then Some (SQLITE_NOMEM, Bitvec n s d (aHash a), m + 1)
                  else fold ?step a (set_loop fails fuel ?p i (m + 1))"
    have r: "set_loop fails (Suc fuel) p i m =
        (if a ! (i mod 124) = 0
         then if s < 124 - 1 then ?fin (i mod 124) else if s \<ge> 62 then ?split else ?fin (i mod 124)
         else case set_probe 124 a (i mod 124) (i + 1) of
             Present \<Rightarrow> Some (SQLITE_OK, Bitvec n s d (aHash a), m)
           | Free h \<Rightarrow> if s \<ge> 62 then ?split else ?fin h
           | Full \<Rightarrow> None)"
      unfolding p aHash set_loop.simps Let_def by (simp only: add_diff_cancel_right')
    have fin: "?goal (?fin h)" if "h = (i + e) mod 124" "a ! h = 0" "reaches a i e" "s < 123" for h e
      using hash_slot[OF inv i that] .
    have sp: "?goal ?split" if s62: "s \<ge> 62"
    proof (cases "fails m")
      case True
      then show ?thesis using inv unfolding set_post_def by auto
    next
      case False
      have div: "(n + 62 - 1) div 62 = (n + 61) div 62" using a(6) by simp
      have inv': "bv_inv ?p" unfolding div using a(6,7) by (simp add: list_all_iff)
      have none: "\<not> test_loop ?p j" if "j < n" for j
        using test_sub(1)[OF inv' that] test_sub(3)[OF inv' that] by simp
      have en: "enough q fuel" if "iSize q = n" "is_sub q" for q
        using Suc.prems(3) nsub that p unfolding enough_def by auto
      have "set_post fails n True ({j. test_loop ?p j} \<union> {i}) (m + 1) (set_loop fails fuel ?p i (m + 1))"
        using Suc.IH[OF inv', of i "m + 1"] en[of ?p] i by (simp add: is_sub_def)
      then have "set_post fails n True ({j. test_loop ?p j} \<union> {i} \<union> {j. j + 1 \<in> set a}) (m + 1)
          (fold ?step a (set_loop fails fuel ?p i (m + 1)))"
        using set_post_fold[OF Suc.IH en a(5)] by blast
      then have 1: "set_post fails n True ({j. test_loop ?p j} \<union> {i} \<union> {j. j + 1 \<in> set a}) (m + 1) ?split"
        using False by simp
      have S: "j \<in> {j. test_loop ?p j} \<union> {i} \<union> {j. j + 1 \<in> set a} \<longleftrightarrow>
          j \<in> {j. test_loop (Bitvec n s d (aHash a)) j} \<union> {i}" if "j < n" for j
        using none[OF that] test_hash_set[OF a(1), of j] by auto
      from 1 show ?thesis
      proof (rule set_postE)
        fix rc q m'
        assume 2: "?split = Some (rc, q, m')" "bv_inv q" "iSize q = n" "m + 1 \<le> m'"
          "\<And>j. j < n \<Longrightarrow> test_loop q j \<Longrightarrow> j \<in> {j. test_loop ?p j} \<union> {i} \<union> {j. j + 1 \<in> set a}"
          "\<And>j. rc = SQLITE_OK \<Longrightarrow> j < n \<Longrightarrow> j \<in> {j. test_loop ?p j} \<union> {i} \<union> {j. j + 1 \<in> set a} \<Longrightarrow> test_loop q j"
          "(\<And>k. m + 1 \<le> k \<Longrightarrow> k < m' \<Longrightarrow> \<not> fails k) \<Longrightarrow> rc = SQLITE_OK"
        show ?thesis unfolding 2(1) set_post_def option.case prod.case
          using 2(2-7) S by auto
      qed
    qed
    have "?goal (set_loop fails (Suc fuel) p i m)"
    proof (cases "a ! (i mod 124) = 0")
      case True
      then show ?thesis using fin[of "i mod 124" 0] sp a(4) unfolding r
        by (auto simp: reaches_def simp del: fold_simps)
    next
      case False
      note pr = set_probe_spec[of "i mod 124" a 124 "i + 1"]
      show ?thesis
      proof (cases "set_probe 124 a (i mod 124) (i + 1)")
        case Present
        then have "\<exists>d<124. a ! ((i mod 124 + d) mod 124) = i + 1" using pr False by simp
        then have "i + 1 \<in> set a" using a(2) by (metis nth_mem mod_less_divisor zero_less_numeral)
        then have "test_loop (Bitvec n s d (aHash a)) i" using test_hash_set[OF a(1), of i] by simp
        then show ?thesis using False Present inv unfolding r set_post_def by auto
      next
        case Full
        then have "\<not> (\<exists>d<124. a ! ((i mod 124 + d) mod 124) = 0)" using pr False by auto
        moreover have "used a \<noteq> 124" using a(3,4) by simp
        ultimately show ?thesis using free_slot_exists[OF a(2)] by blast
      next
        case (Free h)
        then obtain e where e: "e \<le> 124" "h = (i mod 124 + e) mod 124" "a ! h = 0"
            "\<forall>c<e. a ! ((i mod 124 + c) mod 124) \<noteq> 0" using pr False by auto
        have "e \<noteq> 124" using e(2,3) False by auto
        then have "reaches a i e" "h = (i + e) mod 124"
          using e by (auto simp: reaches_def mod_simps)
        then show ?thesis using fin[of h e] e(3) sp False Free unfolding r by simp
      qed
    qed
    then show ?thesis using nsub p aHash by simp
  qed
qed

text \<open>Nine levels are enough for every vector the invariant allows.\<close>

lemma enough_nine: "bv_inv p \<Longrightarrow> enough p 9"
  by (cases p; cases "u p") (auto simp: enough_def intro!: exI[of _ 4])

section \<open>What Clear does\<close>

lemma reinsert_ok:
  assumes a: "hash_ok a" "s = used a" "s < 124" and v: "v \<noteq> 0"
    and r: "reinsert v (a, s) = (b, t)"
  shows "hash_ok b \<and> t = used b \<and> t = s + 1 \<and> (\<forall>w. w \<noteq> 0 \<longrightarrow> (w \<in> set b \<longleftrightarrow> w = v \<or> w \<in> set a))"
proof -
  have len: "length a = 124" using a(1) by (simp add: hash_ok_def)
  have "used a \<noteq> 124" using a(2,3) by simp
  from free_slot_exists[OF len this, of "(v - 1) mod 124"]
  obtain d where d: "d < 124" "free_slot 124 a ((v - 1) mod 124) = ((v - 1) mod 124 + d) mod 124"
      "a ! (((v - 1) mod 124 + d) mod 124) = 0"
      "\<forall>e<d. a ! (((v - 1) mod 124 + e) mod 124) \<noteq> 0"
    using free_slot_spec[of "(v - 1) mod 124" 124 a] by auto
  let ?h = "(v - 1 + d) mod 124"
  have h: "free_slot 124 a ((v - 1) mod 124) = ?h" "a ! ?h = 0" "reaches a (v - 1) d" "?h < length a"
    using d len by (auto simp: reaches_def mod_simps)
  have b: "b = a[?h := v]" "t = s + 1" using r h(1) by (simp_all add: reinsert_def)
  show ?thesis
    using hash_ok_update[OF a(1) h(2,3) v] used_update[OF h(4,2) v] set_update_free[OF h(4,2)] a(2)
    unfolding b by simp
qed

lemma reinsert_fold:
  "hash_ok a \<Longrightarrow> s = used a \<Longrightarrow> s + used vs < 125 \<Longrightarrow>
   fold (\<lambda>v st. if v \<noteq> 0 \<and> v \<noteq> x then reinsert v st else st) vs (a, s) = (b, t) \<Longrightarrow>
   hash_ok b \<and> t = used b \<and> t \<le> s + used vs
   \<and> (\<forall>w. w \<noteq> 0 \<longrightarrow> (w \<in> set b \<longleftrightarrow> w \<in> set a \<or> (w \<noteq> x \<and> w \<in> set vs)))"
proof (induction vs arbitrary: a s)
  case (Cons v vs)
  show ?case
  proof (cases "v \<noteq> 0 \<and> v \<noteq> x")
    case True
    obtain a' s' where r: "reinsert v (a, s) = (a', s')" by (cases "reinsert v (a, s)")
    have "s < 124" using Cons.prems(3) True by simp
    from reinsert_ok[OF Cons.prems(1,2) this _ r] True
    have r': "hash_ok a'" "s' = used a'" "s' = s + 1"
      "\<And>w. w \<noteq> 0 \<Longrightarrow> w \<in> set a' \<longleftrightarrow> w = v \<or> w \<in> set a" by auto
    have "s' + used vs < 125" using Cons.prems(3) True r'(3) by simp
    from Cons.IH[OF r'(1,2) this] Cons.prems(4) True r
    show ?thesis using r'(3,4) by auto
  next
    case False
    then have vs: "used vs \<le> used (v # vs)" "\<And>w. w \<noteq> 0 \<Longrightarrow> w \<noteq> x \<and> w \<in> set (v # vs) \<longleftrightarrow> w \<noteq> x \<and> w \<in> set vs"
      by auto
    have "fold (\<lambda>v st. if v \<noteq> 0 \<and> v \<noteq> x then reinsert v st else st) vs (a, s) = (b, t)"
      using Cons.prems(4) False by auto
    moreover have "s + used vs < 125" using Cons.prems(3) vs(1) by simp
    ultimately show ?thesis using Cons.IH[OF Cons.prems(1,2)] vs by auto
  qed
qed auto

lemma clear_loop_ok:
  "bv_inv p \<Longrightarrow> i < iSize p \<Longrightarrow> bv_inv (clear_loop p i) \<and> iSize (clear_loop p i) = iSize p
     \<and> (\<forall>j<iSize p. test_loop (clear_loop p i) j \<longleftrightarrow> j \<noteq> i \<and> test_loop p j)"
proof (induction p i rule: clear_loop.induct)
  case (2 n s d bm i)
  then show ?case using bitmap_clear_test[of i bm]
    by (auto simp: and_exp_eq_0_iff_not_bit bitmap_clear_def)
next
  case (3 n s d a i)
  have a: "hash_ok a" "used a < 124" "\<forall>v\<in>set a. v \<le> n" using 3 by simp_all
  obtain b t where r: "fold (\<lambda>v st. if v \<noteq> 0 \<and> v \<noteq> i + 1 then reinsert v st else st) a
      (replicate 124 0, 0) = (b, t)" by (rule prod.exhaust)
  have b: "hash_ok b" "t = used b" "t < 124"
    "\<And>w. w \<noteq> 0 \<Longrightarrow> w \<in> set b \<longleftrightarrow> w \<noteq> i + 1 \<and> w \<in> set a"
  proof -
    have z: "0 = used (replicate 124 0)" unfolding used_replicate ..
    have "0 + used a < 125" using a(2) by linarith
    note f = reinsert_fold[OF hash_ok_empty z this r]
    show "hash_ok b" "t = used b" using f by blast+
    have "t \<le> 0 + used a" using f by blast
    then show "t < 124" using a(2) by linarith
    show "w \<in> set b \<longleftrightarrow> w \<noteq> i + 1 \<and> w \<in> set a" if "w \<noteq> 0" for w
    proof -
      have "w \<notin> set (replicate 124 0)" using that by (simp only: in_set_replicate simp_thms)
      moreover have "w \<in> set b \<longleftrightarrow> w \<in> set (replicate 124 0) \<or> (w \<noteq> i + 1 \<and> w \<in> set a)"
        by (rule mp[OF spec[OF f[THEN conjunct2, THEN conjunct2, THEN conjunct2]] that])
      ultimately show ?thesis by (simp only: simp_thms)
    qed
  qed
  have c: "clear_loop (Bitvec n s d (aHash a)) i = Bitvec n t d (aHash b)"
    by (simp only: clear_loop.simps r Let_def prod.case)
  have "v \<le> n" if "v \<in> set b" for v
    using b(4)[of v] a(3) that by (cases "v = 0") auto
  then have "bv_inv (Bitvec n t d (aHash b))" using 3(1) b(1-3) by simp
  moreover have "test_loop (Bitvec n t d (aHash b)) j \<longleftrightarrow> j \<noteq> i \<and> test_loop (Bitvec n s d (aHash a)) j" for j
    unfolding test_loop.simps test_hash_set[OF b(1)] test_hash_set[OF a(1)] using b(4)[of "j + 1"] by simp
  ultimately show ?case unfolding c by (simp only: bitvec.sel) blast
next
  case (1 n s d ps i)
  note inv = 1(2) and i = 1(3)
  have d: "d > 0" "i div d < 62" "d \<noteq> 0" using test_sub[OF inv] i by auto
  have len: "length ps = 62" using inv by simp
  show ?case
  proof (cases "ps ! (i div d)")
    case None
    then have "clear_loop (Bitvec n s d (apSub ps)) i = Bitvec n s d (apSub ps)" by simp
    moreover have "\<not> test_loop (Bitvec n s d (apSub ps)) i" using test_sub(1)[OF inv] i None by simp
    ultimately show ?thesis using inv by metis
  next
    case (Some q)
    have q: "iSize q = d" "bv_inv q" using sub_child[OF inv d(2) Some] by auto
    let ?q = "clear_loop q (i mod d)"
    have IH: "bv_inv ?q" "iSize ?q = d" "\<And>j. j < d \<Longrightarrow> test_loop ?q j \<longleftrightarrow> j \<noteq> i mod d \<and> test_loop q j"
      using 1(1)[OF _ Some] d q len by simp_all
    have c: "clear_loop (Bitvec n s d (apSub ps)) i = Bitvec n s d (apSub (ps[i div d := Some ?q]))"
      using d len Some by simp
    have inv': "bv_inv (Bitvec n s d (apSub (ps[i div d := Some ?q])))"
      using bv_inv_sub_update[OF inv IH(2,1)] .
    have "test_loop (Bitvec n s d (apSub (ps[i div d := Some ?q]))) j \<longleftrightarrow>
        j \<noteq> i \<and> test_loop (Bitvec n s d (apSub ps)) j" if "j < n" for j
    proof (cases "j div d = i div d")
      case True
      then have "j mod d = i mod d \<longleftrightarrow> j = i" by (metis div_mult_mod_eq)
      then show ?thesis using test_sub(1)[OF inv that] test_sub(1)[OF inv' that] True Some len d IH(3)
        by simp
    next
      case False
      then show ?thesis using test_sub(1)[OF inv that] test_sub(1)[OF inv' that] by auto
    qed
    then show ?thesis unfolding c using inv' by (simp only: bitvec.sel simp_thms) blast
  qed
qed

section \<open>The set of numbers a bit vector stands for\<close>

definition bv_set :: "bitvec \<Rightarrow> nat set" where
  "bv_set p = {i. 1 \<le> i \<and> i \<le> iSize p \<and> sqlite3BitvecTest (Some p) i}"

lemma Test_eq: "1 \<le> i \<Longrightarrow> i < 2 ^ 32 \<Longrightarrow>
    sqlite3BitvecTest (Some p) i \<longleftrightarrow> i \<le> iSize p \<and> test_loop p (i - 1)"
proof -
  assume i: "1 \<le> i" "i < 2 ^ 32"
  then obtain k where k: "i = Suc k" by (cases i) auto
  have "i + 2 ^ 32 - 1 = k + 2 ^ 32" using k by simp
  then have "(i + 2 ^ 32 - 1) mod 2 ^ 32 = k" using i(2) k by (simp only: mod_add_self2 mod_less Suc_lessD)
  then show ?thesis using k
    by (simp only: sqlite3BitvecTest_def sqlite3BitvecTestNotNull_def Let_def option.case) auto
qed

lemma bv_inv_size: "bv_inv p \<Longrightarrow> iSize p < 2 ^ 32"
  by (cases p; cases "u p") auto

lemma in_bv_set: "bv_inv p \<Longrightarrow> 1 \<le> i \<Longrightarrow> i \<le> iSize p \<Longrightarrow> i \<in> bv_set p \<longleftrightarrow> test_loop p (i - 1)"
  using bv_inv_size[of p] Test_eq[of i p] by (simp add: bv_set_def)

lemma bv_set_bounds: "i \<in> bv_set p \<Longrightarrow> 1 \<le> i \<and> i \<le> iSize p"
  by (simp add: bv_set_def)

lemma Set_run:
  assumes inv: "bv_inv p" and i: "1 \<le> i" "i \<le> iSize p"
  obtains rc p' m' where "sqlite3BitvecSet fails p i m = Some (rc, p', m')" "bv_inv p'"
    "iSize p' = iSize p" "m \<le> m'" "bv_set p' \<subseteq> insert i (bv_set p)"
    "rc = SQLITE_OK \<Longrightarrow> bv_set p' = insert i (bv_set p)"
    "(\<And>k. m \<le> k \<Longrightarrow> k < m' \<Longrightarrow> \<not> fails k) \<Longrightarrow> rc = SQLITE_OK"
proof -
  have "i - 1 < iSize p" using i by simp
  from set_loop_post[OF inv this enough_nine[OF inv], of fails m]
  obtain rc p' m' where r: "set_loop fails 9 p (i - 1) m = Some (rc, p', m')" "bv_inv p'"
    "iSize p' = iSize p" "m \<le> m'"
    "\<And>j. j < iSize p \<Longrightarrow> test_loop p' j \<Longrightarrow> j \<in> {j. test_loop p j} \<union> {i - 1}"
    "\<And>j. rc = SQLITE_OK \<Longrightarrow> j < iSize p \<Longrightarrow> j \<in> {j. test_loop p j} \<union> {i - 1} \<Longrightarrow> test_loop p' j"
    "(\<And>k. m \<le> k \<Longrightarrow> k < m' \<Longrightarrow> \<not> fails k) \<Longrightarrow> rc = SQLITE_OK"
    by (rule set_postE) blast
  have sub: "bv_set p' \<subseteq> insert i (bv_set p)"
  proof
    fix j assume j: "j \<in> bv_set p'"
    then have b: "1 \<le> j" "j \<le> iSize p" using bv_set_bounds r(3) by fastforce+
    then have "test_loop p' (j - 1)" using j in_bv_set[OF r(2)] r(3) by simp
    then have "test_loop p (j - 1) \<or> j = i" using r(5)[of "j - 1"] b i(1) by (cases i; cases j) auto
    then show "j \<in> insert i (bv_set p)" using in_bv_set[OF inv b] by blast
  qed
  have "bv_set p' = insert i (bv_set p)" if ok: "rc = SQLITE_OK"
  proof (rule antisym[OF sub], rule subsetI)
    fix j assume j: "j \<in> insert i (bv_set p)"
    then have b: "1 \<le> j" "j \<le> iSize p" using bv_set_bounds i by auto
    then have "test_loop p (j - 1) \<or> j - 1 = i - 1" using j in_bv_set[OF inv b] by auto
    then have "test_loop p' (j - 1)" using r(6)[OF ok, of "j - 1"] b by auto
    then show "j \<in> bv_set p'" using in_bv_set[OF r(2), of j] b r(3) by simp
  qed
  then show ?thesis using that[of rc p' m'] r(1-4,7) sub unfolding sqlite3BitvecSet_def by blast
qed

lemma Clear_run:
  assumes inv: "bv_inv p" and i: "1 \<le> i" "i \<le> iSize p"
  shows "bv_inv (sqlite3BitvecClear p i)" "iSize (sqlite3BitvecClear p i) = iSize p"
    "bv_set (sqlite3BitvecClear p i) = bv_set p - {i}"
proof -
  let ?q = "sqlite3BitvecClear p i"
  have c: "bv_inv ?q" "iSize ?q = iSize p"
    "\<And>j. j < iSize p \<Longrightarrow> test_loop ?q j \<longleftrightarrow> j \<noteq> i - 1 \<and> test_loop p j"
    using clear_loop_ok[OF inv, of "i - 1"] i unfolding sqlite3BitvecClear_def by auto
  have "j \<in> bv_set ?q \<longleftrightarrow> j \<in> bv_set p - {i}" if "1 \<le> j" "j \<le> iSize p" for j
    using in_bv_set[OF inv that] in_bv_set[OF c(1), of j] c(2,3) that i by auto
  then show "bv_set ?q = bv_set p - {i}" using bv_set_bounds c(2) by fastforce
  show "bv_inv ?q" "iSize ?q = iSize p" using c by auto
qed

lemma bv_set_Create: "n < 2 ^ 32 \<Longrightarrow> bv_set (sqlite3BitvecCreate n) = {}"
proof -
  assume n: "n < 2 ^ 32"
  have "i \<notin> bv_set (sqlite3BitvecCreate n)" for i
  proof
    assume i: "i \<in> bv_set (sqlite3BitvecCreate n)"
    then have b: "1 \<le> i" "i \<le> n" using bv_set_bounds iSize_Create by metis+
    then have "test_loop (sqlite3BitvecCreate n) (i - 1)"
      using i in_bv_set[OF bv_inv_Create[OF n]] iSize_Create by metis
    moreover have "i - 1 < n" using b by linarith
    ultimately show False using test_Create by blast
  qed
  then show ?thesis by blast
qed

text \<open>Calls one after another, allocation not failing, and the set operations they stand for.\<close>

datatype bv_op = BvSet nat | BvClear nat

fun bv_step :: "bv_op \<Rightarrow> bitvec \<Rightarrow> bitvec" where
  "bv_step (BvSet i) p = (case sqlite3BitvecSet (\<lambda>_. False) p i 0 of
      None \<Rightarrow> p | Some (rc, p', m) \<Rightarrow> p')"
| "bv_step (BvClear i) p = sqlite3BitvecClear p i"

fun bv_legal :: "nat \<Rightarrow> bv_op \<Rightarrow> bool" where
  "bv_legal n (BvSet i) = (1 \<le> i \<and> i \<le> n)"
| "bv_legal n (BvClear i) = (1 \<le> i \<and> i \<le> n)"

fun bv_abs_step :: "bv_op \<Rightarrow> nat set \<Rightarrow> nat set" where
  "bv_abs_step (BvSet i) S = insert i S"
| "bv_abs_step (BvClear i) S = S - {i}"

lemma bv_step_correct:
  assumes inv: "bv_inv p" and l: "bv_legal (iSize p) e"
  shows "bv_inv (bv_step e p) \<and> iSize (bv_step e p) = iSize p
    \<and> bv_set (bv_step e p) = bv_abs_step e (bv_set p)"
proof (cases e)
  case (BvSet i)
  then have i: "1 \<le> i" "i \<le> iSize p" using l by simp_all
  from Set_run[OF inv i, of "\<lambda>_. False" 0] obtain rc p' m' where
    "sqlite3BitvecSet (\<lambda>_. False) p i 0 = Some (rc, p', m')" "bv_inv p'" "iSize p' = iSize p"
    "bv_set p' = insert i (bv_set p)" by metis
  then show ?thesis using BvSet by simp
next
  case (BvClear i)
  then have i: "1 \<le> i" "i \<le> iSize p" using l by simp_all
  then show ?thesis using Clear_run[OF inv i] BvClear by simp
qed

interpretation bv: simulation bv_step "bv_legal n" "\<lambda>p. bv_inv p \<and> iSize p = n" bv_set bv_abs_step
  for n
proof
  fix p e
  assume p: "bv_inv p \<and> iSize p = n" and l: "bv_legal n e"
  show "bv_inv (bv_step e p) \<and> iSize (bv_step e p) = n"
    using bv_step_correct[of p e] p l by blast
  show "bv_set (bv_step e p) = bv_abs_step e (bv_set p)"
    using bv_step_correct[of p e] p l by blast
qed

section \<open>Properties\<close>

text \<open>C6. \<open>sqlite3BitvecSet\<close> on a well-formed vector and a number of its range always returns,
  whatever allocations fail: the vector stays well formed and of its size, and nothing but \<open>i\<close> is
  added. When the code is \<open>SQLITE_OK\<close> exactly \<open>i\<close> has been added, also when the hash table had to
  be split; and the code is \<open>SQLITE_OK\<close> unless an allocation of this call failed.\<close>

theorem bitvec_set_correct:
  assumes "bv_inv p" and "1 \<le> i" and "i \<le> iSize p"
  shows "\<exists>rc p' m'. sqlite3BitvecSet fails p i m = Some (rc, p', m')
    \<and> bv_inv p' \<and> iSize p' = iSize p \<and> bv_set p' \<subseteq> insert i (bv_set p)
    \<and> (if rc = SQLITE_OK then bv_set p' = insert i (bv_set p) else (\<exists>k. m \<le> k \<and> k < m' \<and> fails k))"
  by (rule Set_run[OF assms, of fails m]) (metis (full_types))

theorem bitvec_set_correct_witness:
  "\<exists>rc p' m'. sqlite3BitvecSet (\<lambda>k. k = 2) (sqlite3BitvecCreate 5000) 77 0 = Some (rc, p', m')
    \<and> bv_inv p' \<and> iSize p' = 5000 \<and> bv_set p' \<subseteq> insert 77 (bv_set (sqlite3BitvecCreate 5000))
    \<and> (if rc = SQLITE_OK then bv_set p' = insert 77 (bv_set (sqlite3BitvecCreate 5000))
       else (\<exists>k. 0 \<le> k \<and> k < m' \<and> k = 2))"
  using bitvec_set_correct[of "sqlite3BitvecCreate 5000" 77 "\<lambda>k. k = 2" 0] bv_inv_Create[of 5000]
  by (simp add: iSize_Create)

text \<open>\<open>sqlite3BitvecClear\<close> removes exactly the number it is given and keeps the vector well
  formed: rebuilding the hash table without the number leaves every other one reachable by its
  probe sequence.\<close>

theorem bitvec_clear_correct:
  assumes "bv_inv p" and "1 \<le> i" and "i \<le> iSize p"
  shows "bv_inv (sqlite3BitvecClear p i) \<and> iSize (sqlite3BitvecClear p i) = iSize p
    \<and> bv_set (sqlite3BitvecClear p i) = bv_set p - {i}"
  using Clear_run[OF assms] by blast

theorem bitvec_clear_correct_witness:
  "bv_inv (sqlite3BitvecClear (sqlite3BitvecCreate 4000) 9)
    \<and> iSize (sqlite3BitvecClear (sqlite3BitvecCreate 4000) 9) = 4000
    \<and> bv_set (sqlite3BitvecClear (sqlite3BitvecCreate 4000) 9) = bv_set (sqlite3BitvecCreate 4000) - {9}"
  using bitvec_clear_correct[of "sqlite3BitvecCreate 4000" 9] bv_inv_Create[of 4000]
  by (simp add: iSize_Create)

text \<open>C2. A new bit vector of any size that an \<open>u32\<close> can hold behaves as a set of numbers under every
  sequence of Set and Clear calls in which no allocation fails: Test answers membership, through the
  change of representation from bitmap or hash table to subordinate vectors. (What a failing allocation
  does to a Set is a property of its own.)\<close>

theorem bitvec_is_a_set:
  assumes "n < 2 ^ 32" and "list_all (bv_legal n) es" and "1 \<le> i" and "i \<le> n"
  shows "sqlite3BitvecTest (Some (fold bv_step es (sqlite3BitvecCreate n))) i
    \<longleftrightarrow> i \<in> fold bv_abs_step es {}"
proof -
  let ?p = "fold bv_step es (sqlite3BitvecCreate n)"
  have c: "bv_inv (sqlite3BitvecCreate n) \<and> iSize (sqlite3BitvecCreate n) = n"
    using bv_inv_Create assms(1) iSize_Create by blast
  note r = bv.run_correct[OF c assms(2), unfolded bv_set_Create[OF assms(1)]]
  have "i \<in> bv_set ?p \<longleftrightarrow> 1 \<le> i \<and> i \<le> iSize ?p \<and> sqlite3BitvecTest (Some ?p) i"
    unfolding bv_set_def mem_Collect_eq ..
  then show ?thesis using r assms(3,4) by metis
qed

theorem bitvec_is_a_set_witness:
  "sqlite3BitvecTest (Some (fold bv_step [BvSet 9, BvSet 5001, BvClear 9] (sqlite3BitvecCreate 5002))) 5001
    \<and> \<not> sqlite3BitvecTest (Some (fold bv_step [BvSet 9, BvSet 5001, BvClear 9] (sqlite3BitvecCreate 5002))) 9"
proof -
  let ?es = "[BvSet 9, BvSet 5001, BvClear 9]"
  have "sqlite3BitvecTest (Some (fold bv_step ?es (sqlite3BitvecCreate 5002))) 5001
      \<longleftrightarrow> 5001 \<in> fold bv_abs_step ?es {}"
    by (rule bitvec_is_a_set) simp_all
  moreover have "sqlite3BitvecTest (Some (fold bv_step ?es (sqlite3BitvecCreate 5002))) 9
      \<longleftrightarrow> 9 \<in> fold bv_abs_step ?es {}"
    by (rule bitvec_is_a_set) simp_all
  moreover have "5001 \<in> fold bv_abs_step ?es {}" "9 \<notin> fold bv_abs_step ?es {}" by simp_all
  ultimately show ?thesis by blast
qed

end
