(* ===== verification/Sqlite_Rowset.thy ===== *)
theory Sqlite_Rowset
  imports Prelude
begin

text \<open>
  \<open>src/rowset.c\<close>: a collection of rowids. Insertions go to the list \<open>pEntry\<close>; the first Test of a
  new batch sorts the list and merges it into a forest of balanced search trees; Next sorts the
  list once and hands out the elements in ascending order.

  The C structures share their \<open>pRight\<close> and \<open>pLeft\<close> fields between lists and trees. Every entry is
  on one list or in one tree at a time, so lists and trees are values here; a null list is \<open>[]\<close>, a
  null tree \<open>NoEntry\<close>. Rowids are only compared, and are integers. The two bits of \<open>rsFlags\<close> are the
  fields \<open>rsSorted\<close> and \<open>rsNext\<close>. \<open>fails n\<close> says whether the \<open>n\<close>-th allocation of a chunk returns
  NULL, \<open>allocs\<close> counts the attempts, and \<open>mallocFailed\<close> is the flag the allocator sets on the
  connection. Sorting uses an array of 40 buckets; filling a 41st would write past its end, and is
  \<open>None\<close>.
\<close>

section \<open>Data model\<close>

datatype rs_tree = NoEntry | RowSetEntry (pLeft: rs_tree) (v: int) (pRight: rs_tree)

record rowset =
  pEntry :: "int list"
  pLast :: "int option"
  pForest :: "rs_tree list"
  nFresh :: nat
  rsSorted :: bool
  rsNext :: bool
  iBatch :: int
  allocs :: nat
  mallocFailed :: bool

text \<open>\<open>(ROWSET_ALLOCATION_SIZE - 8) / sizeof(struct RowSetEntry)\<close>\<close>

abbreviation (input) ROWSET_ENTRY_PER_CHUNK :: nat where
  "ROWSET_ENTRY_PER_CHUNK \<equiv> (1024 - 8) div 24"

text \<open>\<open>N\<close> is the number of bytes \<open>sqlite3DbMallocSize\<close> reports for the object, of which the
  structure itself takes 56; \<open>nFresh\<close> is a \<open>u16\<close>.\<close>

definition sqlite3RowSetInit :: "nat \<Rightarrow> rowset" where
  "sqlite3RowSetInit N = \<lparr>pEntry = [], pLast = None, pForest = [],
     nFresh = ((N - 56) div 24) mod 2 ^ 16, rsSorted = True, rsNext = False, iBatch = 0,
     allocs = 0, mallocFailed = False\<rparr>"

definition sqlite3RowSetClear :: "rowset \<Rightarrow> rowset" where
  "sqlite3RowSetClear p = p\<lparr>nFresh := 0, pEntry := [], pLast := None, pForest := [],
     rsSorted := True, rsNext := False\<rparr>"

definition rowSetEntryAlloc :: "(nat \<Rightarrow> bool) \<Rightarrow> rowset \<Rightarrow> bool \<times> rowset" where
  "rowSetEntryAlloc fails p =
     (if nFresh p = 0 then
        if fails (allocs p) then (False, p\<lparr>allocs := allocs p + 1, mallocFailed := True\<rparr>)
        else (True, p\<lparr>allocs := allocs p + 1, nFresh := ROWSET_ENTRY_PER_CHUNK - 1\<rparr>)
      else (True, p\<lparr>nFresh := nFresh p - 1\<rparr>))"

definition sqlite3RowSetInsert :: "(nat \<Rightarrow> bool) \<Rightarrow> int \<Rightarrow> rowset \<Rightarrow> rowset" where
  "sqlite3RowSetInsert fails rowid p =
     (let (ok, p) = rowSetEntryAlloc fails p
      in if \<not> ok then p
         else case pLast p of
             Some lastv \<Rightarrow>
               (if rowid \<le> lastv then p\<lparr>rsSorted := False\<rparr> else p)
                 \<lparr>pEntry := pEntry p @ [rowid], pLast := Some rowid\<rparr>
           | None \<Rightarrow> p\<lparr>pEntry := [rowid], pLast := Some rowid\<rparr>)"

section \<open>Sorting\<close>

text \<open>Equal heads: the one of the first list is dropped.\<close>

fun rowSetEntryMerge :: "int list \<Rightarrow> int list \<Rightarrow> int list" where
  "rowSetEntryMerge (a # as) (b # bs) =
     (if a \<le> b
      then if a < b then a # rowSetEntryMerge as (b # bs) else rowSetEntryMerge as (b # bs)
      else b # rowSetEntryMerge (a # as) bs)"
| "rowSetEntryMerge [] bs = bs"
| "rowSetEntryMerge as [] = as"

text \<open>\<open>for(i=0; aBucket[i]; i++)\<close> on the buckets from the \<open>i\<close>-th on.\<close>

fun bucket_add :: "int list list \<Rightarrow> int list \<Rightarrow> int list list option" where
  "bucket_add [] p = None"
| "bucket_add (b # bs) p =
     (if b = [] then Some (p # bs)
      else case bucket_add bs (rowSetEntryMerge b p) of
          None \<Rightarrow> None
        | Some bs' \<Rightarrow> Some ([] # bs'))"

fun bucket_all :: "int list \<Rightarrow> int list list \<Rightarrow> int list list option" where
  "bucket_all [] bs = Some bs"
| "bucket_all (x # xs) bs =
     (case bucket_add bs [x] of None \<Rightarrow> None | Some bs' \<Rightarrow> bucket_all xs bs')"

definition merge_buckets :: "int list list \<Rightarrow> int list" where
  "merge_buckets bs =
     foldl (\<lambda>p b. if b = [] then p else if p \<noteq> [] then rowSetEntryMerge p b else b) (hd bs) (tl bs)"

definition rowSetEntrySort :: "int list \<Rightarrow> int list option" where
  "rowSetEntrySort xs = map_option merge_buckets (bucket_all xs (replicate 40 []))"

section \<open>Trees\<close>

fun rowSetTreeToList :: "rs_tree \<Rightarrow> int list" where
  "rowSetTreeToList NoEntry = []"
| "rowSetTreeToList (RowSetEntry l x r) = rowSetTreeToList l @ x # rowSetTreeToList r"

text \<open>Returns the tree and what is left of the list.\<close>

fun rowSetNDeepTree :: "nat \<Rightarrow> int list \<Rightarrow> rs_tree \<times> int list" where
  "rowSetNDeepTree iDepth [] = (NoEntry, [])"
| "rowSetNDeepTree iDepth (x # xs) =
     (if iDepth > 1 then
        let (l, rest) = rowSetNDeepTree (iDepth - 1) (x # xs) in
        (case rest of
           [] \<Rightarrow> (l, [])
         | y # ys \<Rightarrow> let (r, rest') = rowSetNDeepTree (iDepth - 1) ys in (RowSetEntry l y r, rest'))
      else (RowSetEntry NoEntry x NoEntry, xs))"

lemma NDeepTree_list: "rowSetNDeepTree d xs = (t, rest) \<Longrightarrow> rowSetTreeToList t @ rest = xs"
proof (induction d xs arbitrary: t rest rule: rowSetNDeepTree.induct)
  case (2 d x xs)
  show ?case
  proof (cases "d > 1")
    case False
    then show ?thesis using 2(3) by auto
  next
    case True
    obtain l r1 where l: "rowSetNDeepTree (d - 1) (x # xs) = (l, r1)" by (rule prod.exhaust)
    have IH1: "rowSetTreeToList l @ r1 = x # xs" using 2(1)[OF True] l by simp
    show ?thesis
    proof (cases r1)
      case Nil
      then show ?thesis using 2(3) True l IH1 by simp
    next
      case (Cons y ys)
      obtain r r2 where r: "rowSetNDeepTree (d - 1) ys = (r, r2)" by (rule prod.exhaust)
      have "rowSetTreeToList r @ r2 = ys" using 2(2)[OF True] l Cons r by simp
      moreover have "t = RowSetEntry l y r" "rest = r2"
        using 2(3) True l Cons r by (simp_all del: rowSetNDeepTree.simps add: rowSetNDeepTree.simps(2)[of d])
      ultimately show ?thesis using Cons IH1 by simp
    qed
  qed
qed simp

lemma NDeepTree_shorter [termination_simp]:
  "(t, rest) = rowSetNDeepTree d xs \<Longrightarrow> length rest < Suc (length xs)"
  using NDeepTree_list[of d xs t rest] by (metis le_imp_less_Suc length_append le_add2)

fun tree_grow :: "nat \<Rightarrow> rs_tree \<Rightarrow> int list \<Rightarrow> rs_tree" where
  "tree_grow iDepth p [] = p"
| "tree_grow iDepth p (x # xs) =
     (let (r, rest) = rowSetNDeepTree iDepth xs
      in tree_grow (iDepth + 1) (RowSetEntry p x r) rest)"

fun rowSetListToTree :: "int list \<Rightarrow> rs_tree" where
  "rowSetListToTree [] = NoEntry"
| "rowSetListToTree (x # xs) = tree_grow 1 (RowSetEntry NoEntry x NoEntry) xs"

section \<open>Next\<close>

definition sqlite3RowSetNext :: "rowset \<Rightarrow> (int option \<times> rowset) option" where
  "sqlite3RowSetNext p =
     (case (if \<not> rsNext p then
              (case (if \<not> rsSorted p then rowSetEntrySort (pEntry p) else Some (pEntry p)) of
                 None \<Rightarrow> None
               | Some xs \<Rightarrow> Some (p\<lparr>pEntry := xs, rsSorted := True, rsNext := True\<rparr>))
            else Some p) of
        None \<Rightarrow> None
      | Some p \<Rightarrow>
          (case pEntry p of
             [] \<Rightarrow> Some (None, p)
           | x # xs \<Rightarrow>
               let p = p\<lparr>pEntry := xs\<rparr>
               in Some (Some x, if xs = [] then sqlite3RowSetClear p else p)))"

section \<open>Test\<close>

text \<open>The loop over the forest: the new list takes the first empty place, and is merged with every
  tree on the way, which becomes empty. A list is left over when there is no empty place.\<close>

fun forest_add :: "rs_tree list \<Rightarrow> int list \<Rightarrow> rs_tree list \<times> int list option" where
  "forest_add [] p = ([], Some p)"
| "forest_add (t # ts) p =
     (if t = NoEntry then (rowSetListToTree p # ts, None)
      else let (ts', rest) = forest_add ts (rowSetEntryMerge (rowSetTreeToList t) p)
           in (NoEntry # ts', rest))"

fun tree_test :: "int \<Rightarrow> rs_tree \<Rightarrow> bool" where
  "tree_test x NoEntry = False"
| "tree_test x (RowSetEntry l y r) =
     (if y < x then tree_test x r else if y > x then tree_test x l else True)"

definition new_batch :: "(nat \<Rightarrow> bool) \<Rightarrow> rowset \<Rightarrow> rowset option" where
  "new_batch fails p =
     (if pEntry p = [] then Some p
      else case (if \<not> rsSorted p then rowSetEntrySort (pEntry p) else Some (pEntry p)) of
          None \<Rightarrow> None
        | Some xs \<Rightarrow>
            let (forest, rest) = forest_add (pForest p) xs;
                p = (case rest of
                       None \<Rightarrow> p\<lparr>pForest := forest\<rparr>
                     | Some ys \<Rightarrow>
                         let (ok, p) = rowSetEntryAlloc fails p
                         in p\<lparr>pForest := forest @ (if ok then [rowSetListToTree ys] else [])\<rparr>)
            in Some (p\<lparr>pEntry := [], pLast := None, rsSorted := True\<rparr>))"

definition sqlite3RowSetTest ::
  "(nat \<Rightarrow> bool) \<Rightarrow> int \<Rightarrow> int \<Rightarrow> rowset \<Rightarrow> (bool \<times> rowset) option" where
  "sqlite3RowSetTest fails batch iRowid p =
     (case (if batch \<noteq> iBatch p
            then map_option (\<lambda>p. p\<lparr>iBatch := batch\<rparr>) (new_batch fails p) else Some p) of
        None \<Rightarrow> None
      | Some p \<Rightarrow> Some (list_ex (tree_test iRowid) (pForest p), p))"

section \<open>Sorting is right\<close>

abbreviation (input) ascending :: "int list \<Rightarrow> bool" where
  "ascending xs \<equiv> sorted_wrt (<) xs"

lemma set_Merge: "set (rowSetEntryMerge as bs) = set as \<union> set bs"
  by (induction as bs rule: rowSetEntryMerge.induct) auto

lemma ascending_Merge: "ascending as \<Longrightarrow> ascending bs \<Longrightarrow> ascending (rowSetEntryMerge as bs)"
  by (induction as bs rule: rowSetEntryMerge.induct) (auto simp: set_Merge)

lemma Merge_nonempty: "bs \<noteq> [] \<Longrightarrow> rowSetEntryMerge as bs \<noteq> []"
  using set_Merge[of as bs] by (metis Un_empty set_empty)

text \<open>The buckets in use are the binary digits of the number of elements added.\<close>

fun counter :: "int list list \<Rightarrow> nat" where
  "counter [] = 0"
| "counter (b # bs) = (if b = [] then 0 else 1) + 2 * counter bs"

lemma bucket_add_ok:
  "p \<noteq> [] \<Longrightarrow> counter bs + 1 < 2 ^ length bs \<Longrightarrow> ascending p \<Longrightarrow> list_all ascending bs \<Longrightarrow>
   \<exists>bs'. bucket_add bs p = Some bs' \<and> counter bs' = counter bs + 1 \<and> length bs' = length bs
     \<and> list_all ascending bs' \<and> \<Union> (set ` set bs') = set p \<union> \<Union> (set ` set bs)"
proof (induction bs arbitrary: p)
  case (Cons b bs)
  show ?case
  proof (cases "b = []")
    case False
    then have "counter bs + 1 < 2 ^ length bs" using Cons.prems(2) by auto
    then obtain bs' where bs': "bucket_add bs (rowSetEntryMerge b p) = Some bs'"
        "counter bs' = counter bs + 1" "length bs' = length bs" "list_all ascending bs'"
        "\<Union> (set ` set bs') = set (rowSetEntryMerge b p) \<union> \<Union> (set ` set bs)"
      using Cons.IH[of "rowSetEntryMerge b p"] Cons.prems Merge_nonempty ascending_Merge by auto
    then show ?thesis using False by (auto simp: set_Merge)
  qed (use Cons.prems in auto)
qed simp

lemma bucket_all_ok:
  "counter bs + length xs < 2 ^ length bs \<Longrightarrow> list_all ascending bs \<Longrightarrow>
   \<exists>bs'. bucket_all xs bs = Some bs' \<and> length bs' = length bs
     \<and> list_all ascending bs' \<and> \<Union> (set ` set bs') = set xs \<union> \<Union> (set ` set bs)"
proof (induction xs arbitrary: bs)
  case (Cons x xs)
  from Cons.prems obtain bs' where 1: "bucket_add bs [x] = Some bs'" "counter bs' = counter bs + 1"
      "length bs' = length bs" "list_all ascending bs'" "\<Union> (set ` set bs') = set [x] \<union> \<Union> (set ` set bs)"
    using bucket_add_ok[of "[x]" bs] by auto
  moreover have "counter bs' + length xs < 2 ^ length bs'" using 1 Cons.prems(1) by simp
  ultimately show ?case using Cons.IH[of bs'] by auto
qed simp

lemma merge_fold_ok:
  "ascending p \<Longrightarrow> list_all ascending bs \<Longrightarrow>
   ascending (foldl (\<lambda>p b. if b = [] then p else if p \<noteq> [] then rowSetEntryMerge p b else b) p bs)
   \<and> set (foldl (\<lambda>p b. if b = [] then p else if p \<noteq> [] then rowSetEntryMerge p b else b) p bs)
       = set p \<union> \<Union> (set ` set bs)"
proof (induction bs arbitrary: p)
  case (Cons b bs)
  let ?q = "if b = [] then p else if p \<noteq> [] then rowSetEntryMerge p b else b"
  have "ascending ?q" "set ?q = set p \<union> set b"
    using Cons.prems ascending_Merge set_Merge by auto
  then show ?case using Cons.IH[of ?q] Cons.prems by auto
qed simp

lemma counter_replicate: "counter (replicate k []) = 0"
  by (induction k) auto

lemma Sort_ok:
  assumes "length xs < 2 ^ 40"
  obtains ys where "rowSetEntrySort xs = Some ys" "ascending ys" "set ys = set xs"
proof -
  let ?bs = "replicate 40 [] :: int list list"
  have "counter ?bs + length xs < 2 ^ length ?bs" "list_all ascending ?bs"
    using assms by (simp_all only: counter_replicate length_replicate) (simp_all add: list_all_iff)
  from bucket_all_ok[OF this] obtain bs where bs: "bucket_all xs ?bs = Some bs" "length bs = 40"
      "list_all ascending bs" "\<Union> (set ` set bs) = set xs"
    by auto
  then obtain c cs where "bs = c # cs" by (cases bs) auto
  then show ?thesis using that[of "merge_buckets bs"] bs merge_fold_ok[of c cs]
    unfolding rowSetEntrySort_def merge_buckets_def by simp
qed

section \<open>Trees are right\<close>

lemma tree_grow_list: "rowSetTreeToList (tree_grow d p xs) = rowSetTreeToList p @ xs"
  by (induction d p xs rule: tree_grow.induct) (auto split: prod.splits dest: NDeepTree_list)

lemma ListToTree_list: "rowSetTreeToList (rowSetListToTree xs) = xs"
  by (cases xs) (simp_all add: tree_grow_list)

lemma tree_test_iff: "ascending (rowSetTreeToList t) \<Longrightarrow> tree_test x t \<longleftrightarrow> x \<in> set (rowSetTreeToList t)"
  by (induction t) (auto simp: sorted_wrt_append)

fun depth :: "rs_tree \<Rightarrow> nat" where
  "depth NoEntry = 0"
| "depth (RowSetEntry l x r) = 1 + max (depth l) (depth r)"

lemma NDeepTree_depth:
  "d \<ge> 1 \<Longrightarrow> rowSetNDeepTree d xs = (t, rest) \<Longrightarrow>
     depth t \<le> d \<and> (rest \<noteq> [] \<longrightarrow> length (rowSetTreeToList t) + 1 = 2 ^ d)"
proof (induction d xs arbitrary: t rest rule: rowSetNDeepTree.induct)
  case (2 d x xs)
  show ?case
  proof (cases "d > 1")
    case False
    then have "d = 1" using 2(3) by simp
    then show ?thesis using 2(4) by auto
  next
    case True
    then have d: "d - 1 \<ge> 1" "2 ^ d = 2 * (2 ^ (d - 1) :: nat)" by (simp_all add: power_eq_if)
    obtain l r1 where l: "rowSetNDeepTree (d - 1) (x # xs) = (l, r1)" by (rule prod.exhaust)
    note IH1 = 2(1)[OF True d(1) l]
    show ?thesis
    proof (cases r1)
      case Nil
      then have "t = l" "rest = []" using 2(4) True l by auto
      then show ?thesis using IH1[THEN conjunct1] by simp
    next
      case (Cons y ys)
      obtain r r2 where r: "rowSetNDeepTree (d - 1) ys = (r, r2)" by (rule prod.exhaust)
      note IH2 = 2(2)[OF True l[symmetric] refl Cons d(1) r]
      have "t = RowSetEntry l y r" "rest = r2"
        using 2(4) True l Cons r by (simp_all del: rowSetNDeepTree.simps add: rowSetNDeepTree.simps(2)[of d])
      then show ?thesis using IH1 IH2 Cons d by auto
    qed
  qed
qed simp

lemma tree_grow_depth:
  "d \<ge> 1 \<Longrightarrow> depth p = d \<Longrightarrow> length (rowSetTreeToList p) + 1 = 2 ^ d \<Longrightarrow>
     2 ^ (depth (tree_grow d p xs) - 1) \<le> length (rowSetTreeToList (tree_grow d p xs))"
proof (induction d p xs rule: tree_grow.induct)
  case (1 d p)
  then have "(2::nat) ^ d = 2 * 2 ^ (d - 1)" by (simp add: power_eq_if)
  moreover have "(1::nat) \<le> 2 ^ (d - 1)" by simp
  ultimately show ?case using 1 by simp
next
  case (2 d p x xs)
  obtain r rest where r: "rowSetNDeepTree d xs = (r, rest)" by (rule prod.exhaust)
  let ?q = "RowSetEntry p x r"
  note b = NDeepTree_depth[OF 2(2) r]
  have q: "depth ?q = d + 1" using b 2(3) by simp
  show ?case
  proof (cases "rest = []")
    case True
    then have "tree_grow d p (x # xs) = ?q" using r by simp
    then show ?thesis using q 2(4) by simp
  next
    case False
    then have "length (rowSetTreeToList ?q) + 1 = 2 ^ (d + 1)" using b 2(4) by simp
    then show ?thesis using 2(1)[OF r[symmetric] refl _ q] r by simp
  qed
qed

lemma ListToTree_depth: "xs \<noteq> [] \<Longrightarrow> 2 ^ (depth (rowSetListToTree xs) - 1) \<le> length xs"
  using tree_grow_depth[of 1 "RowSetEntry NoEntry (hd xs) NoEntry" "tl xs"]
  by (cases xs) (simp_all add: tree_grow_list)

section \<open>The state of a rowset\<close>

definition rowset_inv :: "rowset \<Rightarrow> bool" where
  "rowset_inv p \<longleftrightarrow> \<not> rsNext p
     \<and> pLast p = (if pEntry p = [] then None else Some (last (pEntry p)))
     \<and> (rsSorted p \<longrightarrow> ascending (pEntry p))
     \<and> (\<forall>t \<in> set (pForest p). ascending (rowSetTreeToList t))"

definition forest_set :: "rs_tree list \<Rightarrow> int set" where
  "forest_set ts = (\<Union>t \<in> set ts. set (rowSetTreeToList t))"

definition visible :: "rowset \<Rightarrow> int set" where
  "visible p = forest_set (pForest p)"

lemma forest_set_simps [simp]:
  "forest_set [] = {}"
  "forest_set (t # ts) = set (rowSetTreeToList t) \<union> forest_set ts"
  "forest_set (ts @ us) = forest_set ts \<union> forest_set us"
  by (auto simp: forest_set_def)

lemma Init_inv: "rowset_inv (sqlite3RowSetInit N)" "visible (sqlite3RowSetInit N) = {}"
  by (simp_all add: rowset_inv_def sqlite3RowSetInit_def visible_def)

lemma Alloc_frame:
  assumes "rowSetEntryAlloc fails p = (ok, q)"
  shows "pEntry q = pEntry p" "pLast q = pLast p" "pForest q = pForest p" "rsSorted q = rsSorted p"
    "rsNext q = rsNext p" "iBatch q = iBatch p" "mallocFailed q \<longleftrightarrow> mallocFailed p \<or> \<not> ok"
    "(\<And>n. \<not> fails n) \<Longrightarrow> ok"
  using assms by (auto simp: rowSetEntryAlloc_def split: if_splits)

lemma ascending_snoc: "ascending (xs @ [x]) \<longleftrightarrow> ascending xs \<and> (xs \<noteq> [] \<longrightarrow> last xs < x)"
proof (cases xs rule: rev_cases)
  case (snoc ys y)
  then show ?thesis by (auto simp: sorted_wrt_append)
qed simp

lemma Insert_ok:
  fixes fails x
  assumes inv: "rowset_inv p"
  defines "q \<equiv> sqlite3RowSetInsert fails x p"
  shows "rowset_inv q" "visible q = visible p" "iBatch q = iBatch p"
    "length (pEntry q) \<le> length (pEntry p) + 1" "mallocFailed p \<Longrightarrow> mallocFailed q"
    "\<not> mallocFailed q \<Longrightarrow> set (pEntry q) = insert x (set (pEntry p))"
    "(\<And>n. \<not> fails n) \<Longrightarrow> mallocFailed q \<longleftrightarrow> mallocFailed p"
proof -
  obtain ok r where a: "rowSetEntryAlloc fails p = (ok, r)" by (rule prod.exhaust)
  note f = Alloc_frame[OF a]
  have q: "q = (if \<not> ok then r else case pLast r of
      Some lastv \<Rightarrow> (if x \<le> lastv then r\<lparr>rsSorted := False\<rparr> else r)\<lparr>pEntry := pEntry r @ [x], pLast := Some x\<rparr>
    | None \<Rightarrow> r\<lparr>pEntry := [x], pLast := Some x\<rparr>)"
    unfolding q_def sqlite3RowSetInsert_def a
    by (auto split: option.splits)
  show "rowset_inv q" "visible q = visible p" "iBatch q = iBatch p"
    "length (pEntry q) \<le> length (pEntry p) + 1" "mallocFailed p \<Longrightarrow> mallocFailed q"
    "\<not> mallocFailed q \<Longrightarrow> set (pEntry q) = insert x (set (pEntry p))"
    using inv f(1-7) unfolding q rowset_inv_def visible_def
    by (auto simp: ascending_snoc split: option.splits if_splits)
  show "mallocFailed q \<longleftrightarrow> mallocFailed p" if "\<And>n. \<not> fails n"
    using f(7) f(8)[OF that] unfolding q by (auto split: option.splits if_splits)
qed

lemma forest_add_ok:
  "forest_add ts xs = (ts', rest) \<Longrightarrow> ascending xs \<Longrightarrow> \<forall>t \<in> set ts. ascending (rowSetTreeToList t) \<Longrightarrow>
     (\<forall>t \<in> set ts'. ascending (rowSetTreeToList t)) \<and> (\<forall>ys. rest = Some ys \<longrightarrow> ascending ys)
     \<and> forest_set ts' \<union> (case rest of None \<Rightarrow> {} | Some ys \<Rightarrow> set ys) = forest_set ts \<union> set xs"
proof (induction ts xs arbitrary: ts' rest rule: forest_add.induct)
  case (2 t ts xs)
  show ?case
  proof (cases "t = NoEntry")
    case True
    then show ?thesis using 2(2-4) by (auto simp: ListToTree_list)
  next
    case False
    obtain us r where u: "forest_add ts (rowSetEntryMerge (rowSetTreeToList t) xs) = (us, r)"
      by (rule prod.exhaust)
    have "ascending (rowSetEntryMerge (rowSetTreeToList t) xs)"
      using ascending_Merge 2(3,4) by simp
    then show ?thesis using 2(1)[OF False u] 2(2,4) False u by (auto simp: set_Merge)
  qed
qed auto

lemma new_batch_ok:
  assumes inv: "rowset_inv p" and len: "length (pEntry p) < 2 ^ 40"
  obtains q where "new_batch fails p = Some q" "rowset_inv q" "pEntry q = []" "iBatch q = iBatch p"
    "mallocFailed p \<Longrightarrow> mallocFailed q"
    "\<not> mallocFailed q \<Longrightarrow> visible q = visible p \<union> set (pEntry p)"
    "(\<And>n. \<not> fails n) \<Longrightarrow> mallocFailed q \<longleftrightarrow> mallocFailed p"
proof (cases "pEntry p = []")
  case True
  then show ?thesis using that[of p] inv by (simp add: new_batch_def)
next
  case False
  obtain xs where xs: "(if \<not> rsSorted p then rowSetEntrySort (pEntry p) else Some (pEntry p)) = Some xs"
      "ascending xs" "set xs = set (pEntry p)"
    using Sort_ok[OF len] inv by (metis (full_types) rowset_inv_def)
  obtain ts rest where f: "forest_add (pForest p) xs = (ts, rest)" by (rule prod.exhaust)
  have F: "\<forall>t \<in> set ts. ascending (rowSetTreeToList t)" "\<And>ys. rest = Some ys \<Longrightarrow> ascending ys"
      "forest_set ts \<union> (case rest of None \<Rightarrow> {} | Some ys \<Rightarrow> set ys) = visible p \<union> set (pEntry p)"
    using forest_add_ok[OF f xs(2)] inv xs(3) by (simp_all add: rowset_inv_def visible_def)
  show ?thesis
  proof (cases rest)
    case None
    let ?q = "p\<lparr>pForest := ts, pEntry := [], pLast := None, rsSorted := True\<rparr>"
    have "new_batch fails p = Some ?q" using False xs(1) f None by (simp add: new_batch_def)
    then show ?thesis using that[of ?q] F None inv by (simp add: rowset_inv_def visible_def)
  next
    case (Some ys)
    obtain ok r where a: "rowSetEntryAlloc fails p = (ok, r)" by (rule prod.exhaust)
    note fr = Alloc_frame[OF a]
    let ?q = "r\<lparr>pForest := ts @ (if ok then [rowSetListToTree ys] else []),
               pEntry := [], pLast := None, rsSorted := True\<rparr>"
    have "new_batch fails p = Some ?q" using False xs(1) f Some a by (simp add: new_batch_def)
    moreover have "rowset_inv ?q" using F(1) F(2)[OF Some] inv fr(5)
      by (auto simp: rowset_inv_def ListToTree_list)
    moreover have "visible ?q = visible p \<union> set (pEntry p)" if "\<not> mallocFailed ?q"
      using F(3) Some fr(7) that by (simp add: visible_def ListToTree_list)
    ultimately show ?thesis using fr(6,7,8) by (intro that[of ?q]) auto
  qed
qed

lemma Test_ok:
  assumes inv: "rowset_inv p" and len: "length (pEntry p) < 2 ^ 40"
  obtains q where "sqlite3RowSetTest fails b x p = Some (x \<in> visible q, q)" "rowset_inv q"
    "pEntry q = (if b \<noteq> iBatch p then [] else pEntry p)" "iBatch q = b"
    "mallocFailed p \<longrightarrow> mallocFailed q"
    "\<not> mallocFailed q \<longrightarrow> visible q = (if b \<noteq> iBatch p then visible p \<union> set (pEntry p) else visible p)"
    "(\<forall>n. \<not> fails n) \<longrightarrow> (mallocFailed q \<longleftrightarrow> mallocFailed p)"
proof -
  have t: "list_ex (tree_test x) (pForest q) \<longleftrightarrow> x \<in> visible q" if "rowset_inv q" for q
    using that by (auto simp: rowset_inv_def visible_def forest_set_def list_ex_iff tree_test_iff)
  show ?thesis
  proof (cases "b = iBatch p")
    case True
    then have "sqlite3RowSetTest fails b x p = Some (x \<in> visible p, p)"
      using t[OF inv] by (simp add: sqlite3RowSetTest_def)
    then show ?thesis using True inv by (intro that[of p]) simp_all
  next
    case False
    from new_batch_ok[OF inv len, of fails] obtain q where q: "new_batch fails p = Some q" "rowset_inv q"
        "pEntry q = []" "mallocFailed p \<Longrightarrow> mallocFailed q"
        "\<not> mallocFailed q \<Longrightarrow> visible q = visible p \<union> set (pEntry p)"
        "(\<And>n. \<not> fails n) \<Longrightarrow> mallocFailed q \<longleftrightarrow> mallocFailed p"
      by metis
    let ?q = "q\<lparr>iBatch := b\<rparr>"
    have 1: "rowset_inv ?q" "visible ?q = visible q" "pEntry ?q = []" "mallocFailed ?q = mallocFailed q"
      using q(2,3) by (simp_all add: rowset_inv_def visible_def)
    have "sqlite3RowSetTest fails b x p = Some (x \<in> visible ?q, ?q)"
      using q(1) t[OF 1(1)] False by (simp add: sqlite3RowSetTest_def)
    then show ?thesis using q(4-6) 1 False by (intro that[of ?q]) simp_all
  qed
qed

section \<open>Insertions and tests\<close>

text \<open>
  A client's sequence of Insert and Test calls, with the answers of the tests; and what it should
  see: elements become visible when a test comes with a batch number other than the last one.
\<close>

datatype rs_op = RsInsert int | RsTest int int

fun rs_run :: "(nat \<Rightarrow> bool) \<Rightarrow> rs_op list \<Rightarrow> rowset \<Rightarrow> (bool list \<times> rowset) option" where
  "rs_run fails [] p = Some ([], p)"
| "rs_run fails (RsInsert x # es) p = rs_run fails es (sqlite3RowSetInsert fails x p)"
| "rs_run fails (RsTest b x # es) p =
     (case sqlite3RowSetTest fails b x p of
        None \<Rightarrow> None
      | Some (r, p') \<Rightarrow>
          (case rs_run fails es p' of None \<Rightarrow> None | Some (rs, q) \<Rightarrow> Some (r # rs, q)))"

fun rs_spec :: "rs_op list \<Rightarrow> int set \<Rightarrow> int set \<Rightarrow> int \<Rightarrow> bool list" where
  "rs_spec [] seen new batch = []"
| "rs_spec (RsInsert x # es) seen new batch = rs_spec es seen (insert x new) batch"
| "rs_spec (RsTest b x # es) seen new batch =
     (if b \<noteq> batch then (x \<in> seen \<union> new) # rs_spec es (seen \<union> new) {} b
      else (x \<in> seen) # rs_spec es seen new batch)"

lemma rs_run_ok:
  "rowset_inv p \<Longrightarrow> length (pEntry p) + length es < 2 ^ 40 \<Longrightarrow>
   \<exists>rs q. rs_run fails es p = Some (rs, q) \<and> rowset_inv q \<and> (mallocFailed p \<longrightarrow> mallocFailed q)
     \<and> ((\<forall>n. \<not> fails n) \<longrightarrow> (mallocFailed q \<longleftrightarrow> mallocFailed p))
     \<and> (\<not> mallocFailed q \<longrightarrow> rs = rs_spec es (visible p) (set (pEntry p)) (iBatch p))"
proof (induction es arbitrary: p)
  case (Cons e es)
  show ?case
  proof (cases e)
    case (RsInsert x)
    let ?p = "sqlite3RowSetInsert fails x p"
    note i = Insert_ok[OF Cons.prems(1), of fails x]
    have "length (pEntry ?p) + length es < 2 ^ 40" using i(4) Cons.prems(2) by simp
    from Cons.IH[OF i(1) this] obtain rs q where r: "rs_run fails es ?p = Some (rs, q)" "rowset_inv q"
        "mallocFailed ?p \<Longrightarrow> mallocFailed q"
        "(\<forall>n. \<not> fails n) \<Longrightarrow> (mallocFailed q \<longleftrightarrow> mallocFailed ?p)"
        "\<not> mallocFailed q \<Longrightarrow> rs = rs_spec es (visible ?p) (set (pEntry ?p)) (iBatch ?p)"
      by blast
    have "rs = rs_spec (e # es) (visible p) (set (pEntry p)) (iBatch p)" if "\<not> mallocFailed q"
    proof -
      have "\<not> mallocFailed ?p" using r(3) that by blast
      then show ?thesis using r(5)[OF that] i(2,3,6) RsInsert by simp
    qed
    then show ?thesis using r(1-4) i(5,7) RsInsert by auto
  next
    case (RsTest b x)
    have len: "length (pEntry p) < 2 ^ 40" using Cons.prems(2) by simp
    obtain p' where
        p': "sqlite3RowSetTest fails b x p = Some (x \<in> visible p', p')" "rowset_inv p'"
        "pEntry p' = (if b \<noteq> iBatch p then [] else pEntry p)" "iBatch p' = b"
        "mallocFailed p \<longrightarrow> mallocFailed p'"
        "\<not> mallocFailed p' \<longrightarrow> visible p' = (if b \<noteq> iBatch p then visible p \<union> set (pEntry p) else visible p)"
        "(\<forall>n. \<not> fails n) \<longrightarrow> (mallocFailed p' \<longleftrightarrow> mallocFailed p)"
      by (rule Test_ok[OF Cons.prems(1) len, of fails b x])
    have "length (pEntry p') + length es < 2 ^ 40" using p'(3) Cons.prems(2) by simp
    from Cons.IH[OF p'(2) this] obtain rs q where r: "rs_run fails es p' = Some (rs, q)" "rowset_inv q"
        "mallocFailed p' \<Longrightarrow> mallocFailed q"
        "(\<forall>n. \<not> fails n) \<Longrightarrow> (mallocFailed q \<longleftrightarrow> mallocFailed p')"
        "\<not> mallocFailed q \<Longrightarrow> rs = rs_spec es (visible p') (set (pEntry p')) (iBatch p')"
      by blast
    have "(x \<in> visible p') # rs = rs_spec (e # es) (visible p) (set (pEntry p)) (iBatch p)"
      if "\<not> mallocFailed q"
    proof -
      have "\<not> mallocFailed p'" using r(3) that by blast
      with p'(6) show ?thesis using r(5)[OF that] p'(3,4) RsTest by simp
    qed
    then show ?thesis using r(1-4) p'(1,5,7) RsTest by auto
  qed
qed simp

section \<open>Extraction\<close>

fun rs_nexts :: "nat \<Rightarrow> rowset \<Rightarrow> int option list option" where
  "rs_nexts 0 p = Some []"
| "rs_nexts (Suc k) p =
     (case sqlite3RowSetNext p of
        None \<Rightarrow> None
      | Some (r, p') \<Rightarrow> (case rs_nexts k p' of None \<Rightarrow> None | Some rs \<Rightarrow> Some (r # rs)))"

definition ready :: "rowset \<Rightarrow> bool" where
  "ready p \<longleftrightarrow> rsNext p \<or> rsSorted p"

lemma Next_ready:
  assumes "ready p"
  obtains q where "sqlite3RowSetNext p = Some (case pEntry p of [] \<Rightarrow> None | x # xs \<Rightarrow> Some x, q)"
    "ready q" "pEntry q = tl (pEntry p)"
proof -
  obtain q where "sqlite3RowSetNext p = Some (case pEntry p of [] \<Rightarrow> None | x # xs \<Rightarrow> Some x, q)
      \<and> ready q \<and> pEntry q = tl (pEntry p)"
    using assms
    by (cases "pEntry p"; cases "rsNext p")
      (auto simp: sqlite3RowSetNext_def ready_def sqlite3RowSetClear_def Let_def)
  then show ?thesis using that by blast
qed

lemma nexts_ready:
  "ready p \<Longrightarrow> rs_nexts k p = Some (map Some (take k (pEntry p)) @ replicate (k - length (pEntry p)) None)"
proof (induction k arbitrary: p)
  case (Suc k)
  from Next_ready[OF Suc.prems] obtain q where q: "ready q" "pEntry q = tl (pEntry p)"
    "sqlite3RowSetNext p = Some (case pEntry p of [] \<Rightarrow> None | x # xs \<Rightarrow> Some x, q)" by metis
  then show ?case using Suc.IH[OF q(1)] by (cases "pEntry p") auto
qed simp

lemma Next_sorts:
  assumes "rowset_inv p" "length (pEntry p) < 2 ^ 40"
  obtains q where "sqlite3RowSetNext p = sqlite3RowSetNext q" "ready q"
    "pEntry q = sorted_list_of_set (set (pEntry p))"
proof -
  obtain ys where ys: "(if \<not> rsSorted p then rowSetEntrySort (pEntry p) else Some (pEntry p)) = Some ys"
      "ascending ys" "set ys = set (pEntry p)"
    using Sort_ok[OF assms(2)] assms(1) by (metis (full_types) rowset_inv_def)
  let ?q = "p\<lparr>pEntry := ys, rsSorted := True\<rparr>"
  have "sqlite3RowSetNext p = sqlite3RowSetNext ?q"
    using ys(1) assms(1) by (simp add: sqlite3RowSetNext_def rowset_inv_def cong: if_cong)
  moreover have "ys = sorted_list_of_set (set (pEntry p))"
    using ys(2,3) by (intro strict_sorted_equal) auto
  ultimately show ?thesis using that[of ?q] by (simp add: ready_def)
qed

lemma nexts_ok:
  assumes "rowset_inv p" "length (pEntry p) < 2 ^ 40"
  shows "rs_nexts (card (set (pEntry p)) + m) p =
    Some (map Some (sorted_list_of_set (set (pEntry p))) @ replicate m None)"
proof (cases "card (set (pEntry p)) + m")
  case 0
  then show ?thesis by auto
next
  case (Suc k)
  from Next_sorts[OF assms] obtain q where q: "sqlite3RowSetNext p = sqlite3RowSetNext q" "ready q"
    "pEntry q = sorted_list_of_set (set (pEntry p))" by metis
  have "rs_nexts (Suc k) p = rs_nexts (Suc k) q" using q(1) by simp
  then show ?thesis unfolding Suc nexts_ready[OF q(2)] q(3) using Suc[symmetric] by simp
qed

lemma inserts_ok:
  "rowset_inv p \<Longrightarrow> let q = fold (sqlite3RowSetInsert fails) xs p in
     rowset_inv q \<and> visible q = visible p \<and> length (pEntry q) \<le> length (pEntry p) + length xs
     \<and> (mallocFailed p \<longrightarrow> mallocFailed q)
     \<and> (\<not> mallocFailed q \<longrightarrow> set (pEntry q) = set xs \<union> set (pEntry p))"
proof (induction xs arbitrary: p)
  case (Cons x xs)
  note i = Insert_ok[OF Cons.prems, of fails x]
  show ?case using Cons.IH[OF i(1)] i(2,4,5,6) by (auto simp: Let_def)
qed simp

section \<open>Properties\<close>

text \<open>C10. Under any sequence of Insert and Test calls a rowset answers each test as specified:
  exactly the elements inserted before the last change of the batch number are seen. No call
  writes past the 40 sort buckets, and the answers are right whenever no allocation has failed
  (otherwise the connection's \<open>mallocFailed\<close> flag is set).\<close>

theorem rowset_test_is_batched_membership:
  assumes "length es < 2 ^ 40"
  shows "\<exists>rs q. rs_run fails es (sqlite3RowSetInit N) = Some (rs, q)
    \<and> (mallocFailed q \<or> rs = rs_spec es {} {} 0) \<and> ((\<forall>n. \<not> fails n) \<longrightarrow> \<not> mallocFailed q)"
  using rs_run_ok[OF Init_inv(1), of N es fails] assms
  unfolding Init_inv(2) by (auto simp: sqlite3RowSetInit_def)

theorem rowset_test_is_batched_membership_witness:
  defines "es \<equiv> [RsInsert 7, RsInsert 3, RsTest 0 3, RsTest 1 3, RsInsert 5, RsTest 1 5, RsTest 2 5]"
  shows "\<exists>q. rs_run (\<lambda>_. False) es (sqlite3RowSetInit 56) = Some ([False, True, False, True], q)"
proof -
  have "length es < 2 ^ 40" by (simp add: es_def)
  from rowset_test_is_batched_membership[OF this, of "\<lambda>_. False" 56] show ?thesis
    by (auto simp: es_def simp del: rs_run.simps)
qed

text \<open>C11. Extraction: after any insertions, the calls of Next return the distinct inserted rowids in
  ascending order, each once, and then report the end however often Next is called again.\<close>

theorem rowset_next_enumerates:
  assumes "length xs < 2 ^ 40" and "\<not> mallocFailed (fold (sqlite3RowSetInsert fails) xs (sqlite3RowSetInit N))"
  shows "rs_nexts (card (set xs) + m) (fold (sqlite3RowSetInsert fails) xs (sqlite3RowSetInit N)) =
    Some (map Some (sorted_list_of_set (set xs)) @ replicate m None)"
proof -
  let ?q = "fold (sqlite3RowSetInsert fails) xs (sqlite3RowSetInit N)"
  have q: "rowset_inv ?q" "length (pEntry ?q) \<le> length xs" "set (pEntry ?q) = set xs"
    using inserts_ok[OF Init_inv(1), of fails xs N] assms(2)
    by (simp_all add: Let_def sqlite3RowSetInit_def)
  then show ?thesis using nexts_ok[OF q(1), of m] assms(1) by simp
qed

theorem rowset_next_enumerates_witness:
  "rs_nexts 4 (fold (sqlite3RowSetInsert (\<lambda>_. False)) [5, 2, 5, 9] (sqlite3RowSetInit 2048)) =
     Some [Some 2, Some 5, Some 9, None]"
proof -
  have "\<not> mallocFailed (fold (sqlite3RowSetInsert (\<lambda>_. False)) [5, 2, 5, 9] (sqlite3RowSetInit 2048))"
    by (simp add: sqlite3RowSetInsert_def rowSetEntryAlloc_def sqlite3RowSetInit_def)
  moreover have "card (set [5, 2, 5, 9 :: int]) = 3" "sorted_list_of_set (set [5, 2, 5, 9 :: int]) = [2, 5, 9]"
    by (simp_all add: insert_absorb)
  ultimately show ?thesis
    using rowset_next_enumerates[of "[5, 2, 5, 9]" "\<lambda>_. False" 2048 1] by simp
qed

text \<open>C12. The bucket merge sort, which also drops duplicates: for every list that fits in memory the
  result is strictly ascending and has the same elements, and no bucket beyond the 40th is used.\<close>

theorem rowset_sort_correct:
  assumes "length xs < 2 ^ 40"
  shows "rowSetEntrySort xs = Some (sorted_list_of_set (set xs))"
proof -
  obtain ys where ys: "rowSetEntrySort xs = Some ys" "ascending ys" "set ys = set xs"
    by (rule Sort_ok[OF assms])
  moreover have "ys = sorted_list_of_set (set xs)" using ys by (intro strict_sorted_equal) auto
  ultimately show ?thesis by simp
qed

theorem rowset_sort_correct_witness:
  "rowSetEntrySort [4, -1, 4, 3] = Some (sorted_list_of_set (set [4, -1, 4, 3]))"
  by (rule rowset_sort_correct) simp

text \<open>A list becomes a tree that gives back the list in order and is balanced: its depth is at
  most one more than the binary logarithm of the number of entries, so that a test takes
  logarithmic time in every tree.\<close>

theorem rowset_tree_balanced:
  assumes "xs \<noteq> []"
  shows "rowSetTreeToList (rowSetListToTree xs) = xs
    \<and> 2 ^ (depth (rowSetListToTree xs) - 1) \<le> length xs"
  using ListToTree_list ListToTree_depth[OF assms] by blast

theorem rowset_tree_balanced_witness:
  "rowSetTreeToList (rowSetListToTree [1, 2, 3, 4, 5]) = [1, 2, 3, 4, 5]
    \<and> 2 ^ (depth (rowSetListToTree [1, 2, 3, 4, 5]) - 1) \<le> (5 :: nat)"
  using rowset_tree_balanced[of "[1, 2, 3, 4, 5]"] by simp

end
