(* ===== verification/Sqlite_Chars.thy ===== *)
theory Sqlite_Chars
  imports Prelude
begin

text \<open>
  Characters and small string routines of SQLite: the tables of \<open>src/global.c\<close>, the character
  macros of \<open>src/sqliteInt.h\<close>, and from \<open>src/util.c\<close> the comparison without regard to case,
  dequoting and the hexadecimal digits; the SQL function \<open>hex\<close> is in \<open>src/func.c\<close>.

  A character is a number below 256, a C string the list of its characters without the
  terminating zero: \<open>ch z\<close> is the character a pointer reads, zero at the end.
\<close>

type_synonym cstring = "nat list"

abbreviation (input) "SQLITE_UTF8 \<equiv> (1 :: nat)"
abbreviation (input) "SQLITE_UTF16LE \<equiv> (2 :: nat)"
abbreviation (input) "SQLITE_UTF16BE \<equiv> (3 :: nat)"

definition ch :: "cstring \<Rightarrow> nat" where
  "ch z = (case z of [] \<Rightarrow> 0 | c # _ \<Rightarrow> c)"

definition char_at :: "cstring \<Rightarrow> nat \<Rightarrow> nat" where
  "char_at z i = (if i < length z then z ! i else 0)"

definition c_string :: "cstring \<Rightarrow> bool" where
  "c_string z \<longleftrightarrow> (\<forall>c \<in> set z. 0 < c \<and> c < 256)"

lemma ch_simps [simp]: "ch [] = 0" "ch (c # z) = c"
  by (simp_all add: ch_def)

lemma c_string_simps [simp]: "c_string []" "c_string (c # z) \<longleftrightarrow> 0 < c \<and> c < 256 \<and> c_string z"
  "c_string (z @ z') \<longleftrightarrow> c_string z \<and> c_string z'"
  by (auto simp: c_string_def)

section \<open>Tables\<close>

definition upper_to_lower_table :: "nat list" where
  "upper_to_lower_table = [
     0, 1, 2, 3, 4, 5, 6, 7, 8, 9, 10, 11, 12, 13, 14, 15, 16, 17,
     18, 19, 20, 21, 22, 23, 24, 25, 26, 27, 28, 29, 30, 31, 32, 33, 34, 35,
     36, 37, 38, 39, 40, 41, 42, 43, 44, 45, 46, 47, 48, 49, 50, 51, 52, 53,
     54, 55, 56, 57, 58, 59, 60, 61, 62, 63, 64, 97, 98, 99, 100, 101, 102, 103,
     104, 105, 106, 107, 108, 109, 110, 111, 112, 113, 114, 115, 116, 117, 118, 119, 120, 121,
     122, 91, 92, 93, 94, 95, 96, 97, 98, 99, 100, 101, 102, 103, 104, 105, 106, 107,
     108, 109, 110, 111, 112, 113, 114, 115, 116, 117, 118, 119, 120, 121, 122, 123, 124, 125,
     126, 127, 128, 129, 130, 131, 132, 133, 134, 135, 136, 137, 138, 139, 140, 141, 142, 143,
     144, 145, 146, 147, 148, 149, 150, 151, 152, 153, 154, 155, 156, 157, 158, 159, 160, 161,
     162, 163, 164, 165, 166, 167, 168, 169, 170, 171, 172, 173, 174, 175, 176, 177, 178, 179,
     180, 181, 182, 183, 184, 185, 186, 187, 188, 189, 190, 191, 192, 193, 194, 195, 196, 197,
     198, 199, 200, 201, 202, 203, 204, 205, 206, 207, 208, 209, 210, 211, 212, 213, 214, 215,
     216, 217, 218, 219, 220, 221, 222, 223, 224, 225, 226, 227, 228, 229, 230, 231, 232, 233,
     234, 235, 236, 237, 238, 239, 240, 241, 242, 243, 244, 245, 246, 247, 248, 249, 250, 251,
     252, 253, 254, 255]"

definition sqlite3CtypeMap :: "nat list" where
  "sqlite3CtypeMap = [
     0x00, 0x00, 0x00, 0x00, 0x00, 0x00, 0x00, 0x00, 0x00, 0x01, 0x01, 0x01, 0x01, 0x01, 0x00, 0x00,
     0x00, 0x00, 0x00, 0x00, 0x00, 0x00, 0x00, 0x00, 0x00, 0x00, 0x00, 0x00, 0x00, 0x00, 0x00, 0x00,
     0x01, 0x00, 0x80, 0x00, 0x40, 0x00, 0x00, 0x80, 0x00, 0x00, 0x00, 0x00, 0x00, 0x00, 0x00, 0x00,
     0x0c, 0x0c, 0x0c, 0x0c, 0x0c, 0x0c, 0x0c, 0x0c, 0x0c, 0x0c, 0x00, 0x00, 0x00, 0x00, 0x00, 0x00,
     0x00, 0x0a, 0x0a, 0x0a, 0x0a, 0x0a, 0x0a, 0x02, 0x02, 0x02, 0x02, 0x02, 0x02, 0x02, 0x02, 0x02,
     0x02, 0x02, 0x02, 0x02, 0x02, 0x02, 0x02, 0x02, 0x02, 0x02, 0x02, 0x80, 0x00, 0x00, 0x00, 0x40,
     0x80, 0x2a, 0x2a, 0x2a, 0x2a, 0x2a, 0x2a, 0x22, 0x22, 0x22, 0x22, 0x22, 0x22, 0x22, 0x22, 0x22,
     0x22, 0x22, 0x22, 0x22, 0x22, 0x22, 0x22, 0x22, 0x22, 0x22, 0x22, 0x00, 0x00, 0x00, 0x00, 0x00,
     0x40, 0x40, 0x40, 0x40, 0x40, 0x40, 0x40, 0x40, 0x40, 0x40, 0x40, 0x40, 0x40, 0x40, 0x40, 0x40,
     0x40, 0x40, 0x40, 0x40, 0x40, 0x40, 0x40, 0x40, 0x40, 0x40, 0x40, 0x40, 0x40, 0x40, 0x40, 0x40,
     0x40, 0x40, 0x40, 0x40, 0x40, 0x40, 0x40, 0x40, 0x40, 0x40, 0x40, 0x40, 0x40, 0x40, 0x40, 0x40,
     0x40, 0x40, 0x40, 0x40, 0x40, 0x40, 0x40, 0x40, 0x40, 0x40, 0x40, 0x40, 0x40, 0x40, 0x40, 0x40,
     0x40, 0x40, 0x40, 0x40, 0x40, 0x40, 0x40, 0x40, 0x40, 0x40, 0x40, 0x40, 0x40, 0x40, 0x40, 0x40,
     0x40, 0x40, 0x40, 0x40, 0x40, 0x40, 0x40, 0x40, 0x40, 0x40, 0x40, 0x40, 0x40, 0x40, 0x40, 0x40,
     0x40, 0x40, 0x40, 0x40, 0x40, 0x40, 0x40, 0x40, 0x40, 0x40, 0x40, 0x40, 0x40, 0x40, 0x40, 0x40,
     0x40, 0x40, 0x40, 0x40, 0x40, 0x40, 0x40, 0x40, 0x40, 0x40, 0x40, 0x40, 0x40, 0x40, 0x40, 0x40]"

definition sqlite3UpperToLower :: "nat \<Rightarrow> nat" where
  "sqlite3UpperToLower c = upper_to_lower_table ! (c mod 256)"

definition ctype :: "nat \<Rightarrow> nat" where
  "ctype c = sqlite3CtypeMap ! (c mod 256)"

definition sqlite3Toupper :: "nat \<Rightarrow> nat" where
  "sqlite3Toupper c = c - (c AND (ctype c AND 0x20))"

definition sqlite3Tolower :: "nat \<Rightarrow> nat" where "sqlite3Tolower c = sqlite3UpperToLower c"
definition sqlite3Isspace :: "nat \<Rightarrow> bool" where "sqlite3Isspace c = (ctype c AND 0x01 \<noteq> 0)"
definition sqlite3Isalnum :: "nat \<Rightarrow> bool" where "sqlite3Isalnum c = (ctype c AND 0x06 \<noteq> 0)"
definition sqlite3Isalpha :: "nat \<Rightarrow> bool" where "sqlite3Isalpha c = (ctype c AND 0x02 \<noteq> 0)"
definition sqlite3Isdigit :: "nat \<Rightarrow> bool" where "sqlite3Isdigit c = (ctype c AND 0x04 \<noteq> 0)"
definition sqlite3Isxdigit :: "nat \<Rightarrow> bool" where "sqlite3Isxdigit c = (ctype c AND 0x08 \<noteq> 0)"
definition sqlite3Isquote :: "nat \<Rightarrow> bool" where "sqlite3Isquote c = (ctype c AND 0x80 \<noteq> 0)"
definition IdChar :: "nat \<Rightarrow> bool" where "IdChar c = (ctype c AND 0x46 \<noteq> 0)"

text \<open>What the tables should hold.\<close>

definition lower_spec :: "nat \<Rightarrow> nat" where
  "lower_spec c = (if 65 \<le> c \<and> c \<le> 90 then c + 32 else c)"

definition ctype_spec :: "nat \<Rightarrow> nat" where
  "ctype_spec c =
     (if c = 32 \<or> (9 \<le> c \<and> c \<le> 13) then 0x01
      else if 48 \<le> c \<and> c \<le> 57 then 0x04 + 0x08
      else if 65 \<le> c \<and> c \<le> 70 then 0x02 + 0x08
      else if 71 \<le> c \<and> c \<le> 90 then 0x02
      else if 97 \<le> c \<and> c \<le> 102 then 0x02 + 0x08 + 0x20
      else if 103 \<le> c \<and> c \<le> 122 then 0x02 + 0x20
      else if c = 36 \<or> c = 95 \<or> 128 \<le> c then 0x40
      else if c = 34 \<or> c = 39 \<or> c = 91 \<or> c = 96 then 0x80
      else 0)"

lemma lower_table: "upper_to_lower_table = map lower_spec [0..<256]"
  by code_simp

lemma ctype_table: "sqlite3CtypeMap = map ctype_spec [0..<256]"
  by code_simp

lemma lower_eq: "c < 256 \<Longrightarrow> sqlite3UpperToLower c = lower_spec c"
  by (simp add: sqlite3UpperToLower_def lower_table)

lemma ctype_eq: "c < 256 \<Longrightarrow> ctype c = ctype_spec c"
  by (simp add: ctype_def ctype_table)

lemma ctype_bits:
  assumes "c < 256"
  shows "(ctype c AND 0x01 \<noteq> 0) = (c = 32 \<or> (9 \<le> c \<and> c \<le> 13))"
    "(ctype c AND 0x02 \<noteq> 0) = ((65 \<le> c \<and> c \<le> 90) \<or> (97 \<le> c \<and> c \<le> 122))"
    "(ctype c AND 0x04 \<noteq> 0) = (48 \<le> c \<and> c \<le> 57)"
    "(ctype c AND 0x06 \<noteq> 0) = ((48 \<le> c \<and> c \<le> 57) \<or> (65 \<le> c \<and> c \<le> 90) \<or> (97 \<le> c \<and> c \<le> 122))"
    "(ctype c AND 0x08 \<noteq> 0) = ((48 \<le> c \<and> c \<le> 57) \<or> (65 \<le> c \<and> c \<le> 70) \<or> (97 \<le> c \<and> c \<le> 102))"
    "(ctype c AND 0x20 \<noteq> 0) = (97 \<le> c \<and> c \<le> 122)"
    "(ctype c AND 0x80 \<noteq> 0) = (c \<in> {34, 39, 91, 96})"
    "(ctype c AND 0x46 \<noteq> 0) = ((48 \<le> c \<and> c \<le> 57) \<or> (65 \<le> c \<and> c \<le> 90) \<or> (97 \<le> c \<and> c \<le> 122)
        \<or> c = 36 \<or> c = 95 \<or> 128 \<le> c)"
    "ctype c AND 0x20 = (if 97 \<le> c \<and> c \<le> 122 then 0x20 else 0)"
    "97 \<le> c \<and> c \<le> 122 \<longrightarrow> c AND 0x20 = 0x20"
proof -
  have all: "list_all (\<lambda>c. c AND 0x20 = (0x20 :: nat)) [97..<123]" by code_simp
  have "c \<in> set [97..<123]" if "97 \<le> c \<and> c \<le> 122"
    using that unfolding set_upt atLeastLessThan_iff by linarith
  then show "97 \<le> c \<and> c \<le> 122 \<longrightarrow> c AND 0x20 = 0x20" using all unfolding list_all_iff by blast
qed (simp_all add: ctype_eq[OF assms] ctype_spec_def, presburger+)

lemmas char_defs = sqlite3Isspace_def sqlite3Isalpha_def sqlite3Isdigit_def sqlite3Isalnum_def
  sqlite3Isxdigit_def sqlite3Isquote_def IdChar_def

lemma Toupper_eq: "c < 256 \<Longrightarrow> sqlite3Toupper c = (if 97 \<le> c \<and> c \<le> 122 then c - 32 else c)"
  using ctype_bits(9,10)[of c] by (auto simp: sqlite3Toupper_def)

lemma Tolower_eq: "c < 256 \<Longrightarrow> sqlite3Tolower c = lower_spec c"
  by (simp add: sqlite3Tolower_def lower_eq)

section \<open>Comparison without regard to case\<close>

function sqlite3StrICmp :: "cstring \<Rightarrow> cstring \<Rightarrow> int" where
  "sqlite3StrICmp a b =
     (let c = int (sqlite3UpperToLower (ch a)) - int (sqlite3UpperToLower (ch b))
      in if c \<noteq> 0 \<or> ch a = 0 then c else sqlite3StrICmp (tl a) (tl b))"
  by pat_completeness auto
termination by (relation "measure (length \<circ> fst)") (auto simp: ch_def split: list.splits)

declare sqlite3StrICmp.simps [simp del]

definition sqlite3_stricmp :: "cstring option \<Rightarrow> cstring option \<Rightarrow> int" where
  "sqlite3_stricmp zLeft zRight =
     (case zLeft of
        None \<Rightarrow> (if zRight \<noteq> None then -1 else 0)
      | Some l \<Rightarrow> (case zRight of None \<Rightarrow> 1 | Some r \<Rightarrow> sqlite3StrICmp l r))"

function strnicmp_loop :: "cstring \<Rightarrow> cstring \<Rightarrow> int \<Rightarrow> int" where
  "strnicmp_loop a b N =
     (if N > 0 \<and> ch a \<noteq> 0 \<and> sqlite3UpperToLower (ch a) = sqlite3UpperToLower (ch b)
      then strnicmp_loop (tl a) (tl b) (N - 1)
      else if N - 1 < 0 then 0
      else int (sqlite3UpperToLower (ch a)) - int (sqlite3UpperToLower (ch b)))"
  by pat_completeness auto
termination by (relation "measure (\<lambda>(a, b, N). nat N)") auto

declare strnicmp_loop.simps [simp del]

definition sqlite3_strnicmp :: "cstring option \<Rightarrow> cstring option \<Rightarrow> int \<Rightarrow> int" where
  "sqlite3_strnicmp zLeft zRight N =
     (case zLeft of
        None \<Rightarrow> (if zRight \<noteq> None then -1 else 0)
      | Some l \<Rightarrow> (case zRight of None \<Rightarrow> 1 | Some r \<Rightarrow> strnicmp_loop l r N))"

lemma lower_spec_zero: "lower_spec c = 0 \<longleftrightarrow> c = 0"
  by (auto simp: lower_spec_def)

lemma StrICmp_Cons:
  assumes "0 < x" "x < 256" "y < 256"
  shows "sqlite3StrICmp (x # xs) (y # ys) =
    (if lower_spec x = lower_spec y then sqlite3StrICmp xs ys else int (lower_spec x) - int (lower_spec y))"
  using assms by (subst sqlite3StrICmp.simps) (simp add: lower_eq Let_def)

lemma StrICmp_Nil:
  "y < 256 \<Longrightarrow> sqlite3StrICmp [] (y # ys) = - int (lower_spec y)"
  "0 < x \<Longrightarrow> x < 256 \<Longrightarrow> sqlite3StrICmp (x # xs) [] = int (lower_spec x)"
  "sqlite3StrICmp [] [] = 0"
  by (subst sqlite3StrICmp.simps, simp add: lower_eq Let_def lower_spec_zero lower_spec_def)+

lemma StrICmp_order:
  "c_string a \<Longrightarrow> c_string b \<Longrightarrow>
     (sqlite3StrICmp a b = 0 \<longleftrightarrow> map lower_spec a = map lower_spec b)
   \<and> (sqlite3StrICmp a b < 0 \<longleftrightarrow> ord_class.lexordp (map lower_spec a) (map lower_spec b))"
proof (induction a b rule: list_induct2')
  case (3 y ys)
  then show ?case using lower_spec_zero[of y] by (simp add: StrICmp_Nil)
qed (auto simp: StrICmp_Cons StrICmp_Nil lower_spec_zero)

lemma strnicmp_take:
  "c_string a \<Longrightarrow> c_string b \<Longrightarrow> strnicmp_loop a b (int n) = sqlite3StrICmp (take n a) (take n b)"
proof (induction n arbitrary: a b)
  case 0
  then show ?case by (subst strnicmp_loop.simps) (simp add: StrICmp_Nil)
next
  case (Suc n)
  then show ?case
    by (cases a; cases b)
      (subst strnicmp_loop.simps, simp add: StrICmp_Nil StrICmp_Cons lower_eq lower_spec_zero lower_spec_def)+
qed

section \<open>Quoting\<close>

text \<open>The loop of \<open>sqlite3Dequote\<close>; \<open>None\<close> when there is no closing quote and it runs past the end.\<close>

fun dequote_loop :: "nat \<Rightarrow> cstring \<Rightarrow> cstring option" where
  "dequote_loop q [] = None"
| "dequote_loop q (c # z) =
     (if c = q then
        (case z of
           d # z' \<Rightarrow> if d = q then map_option (\<lambda>r. q # r) (dequote_loop q z') else Some []
         | [] \<Rightarrow> Some [])
      else map_option (\<lambda>r. c # r) (dequote_loop q z))"

definition sqlite3Dequote :: "cstring \<Rightarrow> cstring option" where
  "sqlite3Dequote z =
     (let quote = ch z in
      if \<not> sqlite3Isquote quote then Some z
      else dequote_loop (if quote = 91 then 93 else quote) (tl z))"

definition double_quotes :: "nat \<Rightarrow> cstring \<Rightarrow> cstring" where
  "double_quotes q s = concat (map (\<lambda>c. if c = q then [q, q] else [c]) s)"

lemma dequote_double:
  "ch rest \<noteq> q \<Longrightarrow> dequote_loop q (double_quotes q s @ q # rest) = Some s"
  by (induction s) (auto simp: double_quotes_def ch_def split: list.splits)

section \<open>Hexadecimal digits\<close>

definition sqlite3HexToInt :: "nat \<Rightarrow> nat" where
  "sqlite3HexToInt h = (h + 9 * (drop_bit 6 h AND 1)) AND 0xf"

fun hex_loop :: "cstring \<Rightarrow> nat \<Rightarrow> nat list" where
  "hex_loop z n =
     (if n = 0 then []
      else (push_bit 4 (sqlite3HexToInt (char_at z 0)) OR sqlite3HexToInt (char_at z 1))
             # hex_loop (drop 2 z) (n - 2))"

declare hex_loop.simps [simp del]

text \<open>\<open>z\<close> points behind \<open>x'\<close>, \<open>n\<close> counts the digits and the closing quote. \<open>None\<close>: no memory. The
  zero put behind the bytes is left out.\<close>

definition sqlite3HexToBlob :: "bool \<Rightarrow> cstring \<Rightarrow> nat \<Rightarrow> nat list option" where
  "sqlite3HexToBlob malloc_fails z n = (if malloc_fails then None else Some (hex_loop z (n - 1)))"

definition hexdigits :: "nat list" where
  "hexdigits = [48, 49, 50, 51, 52, 53, 54, 55, 56, 57, 65, 66, 67, 68, 69, 70]"

fun hex_digits :: "nat list \<Rightarrow> cstring" where
  "hex_digits [] = []"
| "hex_digits (c # blob) = hexdigits ! (drop_bit 4 c AND 0xf) # hexdigits ! (c AND 0xf) # hex_digits blob"

text \<open>The memory of an SQL function: a request over the limit for strings and blobs is an error of its own,
  and \<open>sqlite3Malloc\<close>, the predicate \<open>malloc\<close> on sizes, may fail. \<open>None\<close>: the memory was obtained;
  otherwise the error that the function hands to its statement when it returns without a result.\<close>

datatype context_error = Error_toobig | Error_nomem

definition contextMalloc :: "nat \<Rightarrow> (nat \<Rightarrow> bool) \<Rightarrow> nat \<Rightarrow> context_error option" where
  "contextMalloc limit malloc nByte =
     (if nByte > limit then Some Error_toobig
      else if \<not> malloc nByte then Some Error_nomem
      else None)"

definition hexFunc :: "nat \<Rightarrow> (nat \<Rightarrow> bool) \<Rightarrow> nat list \<Rightarrow> context_error + cstring" where
  "hexFunc limit malloc blob =
     (case contextMalloc limit malloc (length blob * 2 + 1) of
        Some e \<Rightarrow> Inl e
      | None \<Rightarrow> Inr (hex_digits blob))"

lemma hex_byte:
  assumes "c < 256"
  shows "push_bit 4 (sqlite3HexToInt (hexdigits ! (drop_bit 4 c AND 0xf)))
    OR sqlite3HexToInt (hexdigits ! (c AND 0xf)) = c"
proof -
  have all: "list_all (\<lambda>d. sqlite3HexToInt (hexdigits ! d) = d) [0..<16]" by code_simp
  have digit: "sqlite3HexToInt (hexdigits ! d) = d" if "d < 16" for d
  proof -
    have "d \<in> set [0..<16]" using that by simp
    then show ?thesis using all unfolding list_all_iff by blast
  qed
  have mask: "x AND 0xf = take_bit 4 x" for x :: nat
    by (simp add: take_bit_eq_mask mask_eq_exp_minus_1)
  have "drop_bit 4 c < 16" using assms by (simp add: drop_bit_eq_div)
  then have hi: "take_bit 4 (drop_bit 4 c) = drop_bit 4 c" by (simp add: take_bit_nat_eq_self)
  have "take_bit 4 c < 16" using take_bit_nat_less_exp[of 4 c] by simp
  then have "push_bit 4 (sqlite3HexToInt (hexdigits ! (drop_bit 4 c AND 0xf)))
      OR sqlite3HexToInt (hexdigits ! (c AND 0xf)) = push_bit 4 (drop_bit 4 c) OR take_bit 4 c"
    unfolding mask hi using digit \<open>drop_bit 4 c < 16\<close> by simp
  also have "\<dots> = c" by (rule bit_eqI) (auto simp: bit_simps)
  finally show ?thesis .
qed

lemma hex_loop_digits:
  "\<forall>c \<in> set blob. c < 256 \<Longrightarrow> hex_loop (hex_digits blob @ rest) (2 * length blob) = blob"
proof (induction blob)
  case Nil
  then show ?case by (subst hex_loop.simps) simp
next
  case (Cons c blob)
  have "hex_loop (hex_digits (c # blob) @ rest) (2 * length (c # blob)) =
      c # hex_loop (hex_digits blob @ rest) (2 * length blob)"
    using hex_byte[of c] Cons.prems by (subst hex_loop.simps) (simp add: char_at_def)
  then show ?case using Cons by simp
qed

section \<open>Properties\<close>

text \<open>The two 256-entry tables are right: the character macros built on them classify exactly the
  ASCII spaces, letters, digits, hexadecimal digits, quotes and identifier characters, and the case
  conversions change exactly the letters, by 32.\<close>

theorem character_tables_correct:
  assumes "c < 256"
  shows "sqlite3Isspace c = (c = 32 \<or> (9 \<le> c \<and> c \<le> 13))
    \<and> sqlite3Isalpha c = ((65 \<le> c \<and> c \<le> 90) \<or> (97 \<le> c \<and> c \<le> 122))
    \<and> sqlite3Isdigit c = (48 \<le> c \<and> c \<le> 57)
    \<and> sqlite3Isalnum c = (sqlite3Isalpha c \<or> sqlite3Isdigit c)
    \<and> sqlite3Isxdigit c = (sqlite3Isdigit c \<or> (65 \<le> c \<and> c \<le> 70) \<or> (97 \<le> c \<and> c \<le> 102))
    \<and> sqlite3Isquote c = (c \<in> {34, 39, 91, 96})
    \<and> IdChar c = (sqlite3Isalnum c \<or> c = 36 \<or> c = 95 \<or> 128 \<le> c)
    \<and> sqlite3Tolower c = (if 65 \<le> c \<and> c \<le> 90 then c + 32 else c)
    \<and> sqlite3Toupper c = (if 97 \<le> c \<and> c \<le> 122 then c - 32 else c)"
  unfolding char_defs
  by (intro conjI;
      (simp only: ctype_bits[OF assms] Toupper_eq[OF assms] Tolower_eq[OF assms] lower_spec_def)?; blast)

theorem character_tables_correct_witness: "sqlite3Isxdigit 97 \<and> sqlite3Toupper 97 = 65 \<and> \<not> sqlite3Isspace 97"
  using character_tables_correct[of 97] by simp

text \<open>C17. Comparison of identifiers: \<open>sqlite3StrICmp\<close> returns zero exactly for strings equal up to the
  case of ASCII letters and a negative number exactly when the first is before the second in
  dictionary order of the lower-case strings; \<open>sqlite3_strnicmp\<close> does the same on the first \<open>N\<close>
  bytes.\<close>

theorem stricmp_is_order:
  assumes "c_string a" and "c_string b"
  shows "(sqlite3StrICmp a b = 0 \<longleftrightarrow> map lower_spec a = map lower_spec b)
    \<and> (sqlite3StrICmp a b < 0 \<longleftrightarrow> ord_class.lexordp (map lower_spec a) (map lower_spec b))
    \<and> sqlite3_strnicmp (Some a) (Some b) (int n) = sqlite3_stricmp (Some (take n a)) (Some (take n b))"
  using StrICmp_order[OF assms] strnicmp_take[OF assms, of n]
  by (simp add: sqlite3_strnicmp_def sqlite3_stricmp_def)

theorem stricmp_is_order_witness:
  "sqlite3StrICmp [83, 101, 108] [115, 69, 76] = 0 \<and> sqlite3StrICmp [65] [98] < 0"
  using stricmp_is_order[of "[83, 101, 108]" "[115, 69, 76]"] stricmp_is_order[of "[65]" "[98]"]
  by (simp add: lower_spec_def)

text \<open>C18. Quoting round trip: for each of the four opening quotes, \<open>sqlite3Dequote\<close> gives back the text
  that was put between the quotes with every closing quote doubled, whatever follows the closing quote
  but another closing quote; any string that does not start with one of the four, the empty one
  included, is left as it is.\<close>

theorem dequote_roundtrip:
  assumes "qo \<in> {34, 39, 91, 96}" and "qc = (if qo = 91 then 93 else qo)" and "ch rest \<noteq> qc"
    and "ch z \<notin> {34, 39, 91, 96}" and "ch z < 256"
  shows "sqlite3Dequote (qo # double_quotes qc s @ qc # rest) = Some s \<and> sqlite3Dequote z = Some z"
proof -
  have "qo < 256" using assms(1) by auto
  then show ?thesis
    using dequote_double[OF assms(3), of s] assms(1,2,4) ctype_bits(7)[of qo] ctype_bits(7)[OF assms(5)]
    by (auto simp: sqlite3Dequote_def sqlite3Isquote_def Let_def)
qed

theorem dequote_roundtrip_witness:
  "sqlite3Dequote [39, 105, 116, 39, 39, 115, 39] = Some [105, 116, 39, 115] \<and> sqlite3Dequote [97, 98, 99] = Some [97, 98, 99]
   \<and> sqlite3Dequote [] = Some []"
  using dequote_roundtrip[of 39 39 "[]" "[97, 98, 99]" "[105, 116, 39, 115]"] dequote_roundtrip[of 39 39 "[]" "[]" "[]"]
  by (simp add: double_quotes_def)

text \<open>Blob literals: the digits the SQL function \<open>hex\<close> writes for a blob, followed by a closing
  quote, are read back by \<open>sqlite3HexToBlob\<close> as the same bytes; \<open>hex\<close> gives an error exactly when
  its text with the final zero is over the limit or has no memory.\<close>

theorem hex_roundtrip:
  assumes "\<forall>c \<in> set blob. c < 256"
  shows "case hexFunc limit malloc blob of
      Inl e \<Rightarrow> e = (if 2 * length blob + 1 > limit then Error_toobig else Error_nomem)
        \<and> (2 * length blob + 1 > limit \<or> \<not> malloc (2 * length blob + 1))
    | Inr text \<Rightarrow> 2 * length blob + 1 \<le> limit \<and> malloc (2 * length blob + 1)
        \<and> sqlite3HexToBlob False (text @ 39 # rest) (2 * length blob + 1) = Some blob"
  using hex_loop_digits[OF assms, of "39 # rest"]
  by (simp add: sqlite3HexToBlob_def hexFunc_def contextMalloc_def mult.commute)

theorem hex_roundtrip_witness:
  "hexFunc 9 (\<lambda>_. True) [0, 171, 255] = Inr [48, 48, 65, 66, 70, 70]
   \<and> sqlite3HexToBlob False [48, 48, 65, 66, 70, 70, 39] 7 = Some [0, 171, 255]"
proof -
  have "hexFunc 9 (\<lambda>_. True) [0, 171, 255] = Inr [48, 48, 65, 66, 70, 70]" by code_simp
  then show ?thesis using hex_roundtrip[of "[0, 171, 255]" 9 "\<lambda>_. True" "[]"] by simp
qed

end
