(* ===== verification/Sqlite_Mem5.thy ===== *)
theory Sqlite_Mem5
  imports Prelude
begin

text \<open>
  \<open>src/mem5.c\<close>: the power-of-two buddy allocator. The pool is an array of \<open>nBlock\<close> atoms of
  \<open>szAtom\<close> bytes; \<open>aCtrl\<close> has one byte for each atom, with the logarithm of the size of the block
  that starts there and the bit \<open>CTRL_FREE\<close>; for every size there is a doubly linked list of the
  free blocks, whose links are kept in the free blocks themselves.

  Arrays are functions of the index. \<open>zPool\<close> has a byte for each offset into the pool, and both what
  clients store and the links of the free blocks are these bytes: \<open>MEM5LINK(i)\<close> is a pair of two
  32-bit integers, low byte first, in the first eight bytes of atom \<open>i\<close>. \<open>aCtrl\<close> lies behind the last
  atom and is an array of its own. A pointer into the pool is its offset, a null pointer is \<open>None\<close>.
  The mutex makes every operation atomic. The counters of debugging builds are left out.
\<close>

section \<open>Data model\<close>

record mem5 =
  szAtom :: nat
  nBlock :: nat
  aiFreelist :: "nat \<Rightarrow> int"
  aCtrl :: "nat \<Rightarrow> nat"
  zPool :: "nat \<Rightarrow> u8"

abbreviation (input) LOGMAX :: nat where "LOGMAX \<equiv> 30"
abbreviation (input) CTRL_LOGSIZE :: nat where "CTRL_LOGSIZE \<equiv> 0x1f"
abbreviation (input) CTRL_FREE :: nat where "CTRL_FREE \<equiv> 0x20"

text \<open>An \<open>int\<close> in the memory of a little-endian machine.\<close>

definition get_int :: "(nat \<Rightarrow> u8) \<Rightarrow> nat \<Rightarrow> int" where
  "get_int m a = sint (ucast (m a) OR push_bit 8 (ucast (m (a + 1))) OR push_bit 16 (ucast (m (a + 2))) OR push_bit 24 (ucast (m (a + 3))) :: 32 word)"

definition put_int :: "nat \<Rightarrow> int \<Rightarrow> (nat \<Rightarrow> u8) \<Rightarrow> nat \<Rightarrow> u8" where
  "put_int a v m = m(a := word_of_int v, a + 1 := word_of_int (v div 2 ^ 8), a + 2 := word_of_int (v div 2 ^ 16), a + 3 := word_of_int (v div 2 ^ 24))"

text \<open>\<open>MEM5LINK(i)->next\<close> and \<open>MEM5LINK(i)->prev\<close>.\<close>

definition link_next :: "mem5 \<Rightarrow> nat \<Rightarrow> int" where
  "link_next s i = get_int (zPool s) (i * szAtom s)"

definition link_prev :: "mem5 \<Rightarrow> nat \<Rightarrow> int" where
  "link_prev s i = get_int (zPool s) (i * szAtom s + 4)"

definition set_next :: "nat \<Rightarrow> int \<Rightarrow> mem5 \<Rightarrow> mem5" where
  "set_next i v s = s\<lparr>zPool := put_int (i * szAtom s) v (zPool s)\<rparr>"

definition set_prev :: "nat \<Rightarrow> int \<Rightarrow> mem5 \<Rightarrow> mem5" where
  "set_prev i v s = s\<lparr>zPool := put_int (i * szAtom s + 4) v (zPool s)\<rparr>"

definition memsys5Unlink :: "nat \<Rightarrow> nat \<Rightarrow> mem5 \<Rightarrow> mem5" where
  "memsys5Unlink i iLogsize s =
     (let nxt = link_next s i; prv = link_prev s i;
          s = (if prv < 0 then s\<lparr>aiFreelist := (aiFreelist s)(iLogsize := nxt)\<rparr> else set_next (nat prv) nxt s)
      in if nxt \<ge> 0 then set_prev (nat nxt) prv s else s)"

definition memsys5Link :: "nat \<Rightarrow> nat \<Rightarrow> mem5 \<Rightarrow> mem5" where
  "memsys5Link i iLogsize s =
     (let x = aiFreelist s iLogsize;
          s = set_prev i (-1) (set_next i x s);
          s = (if x \<ge> 0 then set_prev (nat x) (int i) s else s)
      in s\<lparr>aiFreelist := (aiFreelist s)(iLogsize := int i)\<rparr>)"

definition set_ctrl :: "nat \<Rightarrow> nat \<Rightarrow> mem5 \<Rightarrow> mem5" where
  "set_ctrl i c s = s\<lparr>aCtrl := (aCtrl s)(i := c)\<rparr>"

definition memsys5Size :: "nat \<Rightarrow> mem5 \<Rightarrow> nat" where
  "memsys5Size p s = szAtom s * 2 ^ (aCtrl s (p div szAtom s) AND CTRL_LOGSIZE)"

section \<open>Malloc\<close>

text \<open>\<open>for(iFullSz=mem5.szAtom,iLogsize=0; iFullSz<nByte; iFullSz*=2,iLogsize++)\<close>; the atom size is
  not zero.\<close>

function full_size :: "nat \<Rightarrow> nat \<Rightarrow> nat \<Rightarrow> nat \<times> nat" where
  "full_size nByte iFullSz iLogsize =
     (if iFullSz < nByte \<and> iFullSz \<noteq> 0 then full_size nByte (iFullSz * 2) (iLogsize + 1)
      else (iFullSz, iLogsize))"
  by pat_completeness auto
termination by (relation "measure (\<lambda>(n, sz, l). n - sz)") auto

declare full_size.simps [simp del]

fun split_down :: "nat \<Rightarrow> nat \<Rightarrow> nat \<Rightarrow> mem5 \<Rightarrow> mem5" where
  "split_down i iLogsize 0 s = s"
| "split_down i iLogsize (Suc iBin) s =
     (if Suc iBin > iLogsize then
        let newSize = 2 ^ iBin;
            s = set_ctrl (i + newSize) (CTRL_FREE OR iBin) s;
            s = memsys5Link (i + newSize) iBin s
        in split_down i iLogsize iBin s
      else s)"

definition memsys5MallocUnsafe :: "nat \<Rightarrow> mem5 \<Rightarrow> nat option \<times> mem5" where
  "memsys5MallocUnsafe nByte s =
     (if nByte > 0x40000000 then (None, s)
      else
        let iLogsize = snd (full_size nByte (szAtom s) 0) in
        case find (\<lambda>iBin. aiFreelist s iBin \<ge> 0) [iLogsize..<LOGMAX + 1] of
          None \<Rightarrow> (None, s)
        | Some iBin \<Rightarrow>
            let i = nat (aiFreelist s iBin);
                s = memsys5Unlink i iBin s;
                s = split_down i iLogsize iBin s;
                s = set_ctrl i iLogsize s
            in (Some (i * szAtom s), s))"

definition memsys5Malloc :: "nat \<Rightarrow> mem5 \<Rightarrow> nat option \<times> mem5" where
  "memsys5Malloc nBytes s = (if nBytes > 0 then memsys5MallocUnsafe nBytes s else (None, s))"

section \<open>Free\<close>

function merge_up :: "nat \<Rightarrow> nat \<Rightarrow> mem5 \<Rightarrow> nat \<times> nat \<times> mem5" where
  "merge_up iBlock iLogsize s =
     (if iLogsize < LOGMAX then
        let size = 2 ^ iLogsize;
            lower = odd (iBlock div 2 ^ iLogsize);
            iBuddy = (if lower then iBlock - size else iBlock + size)
        in if \<not> lower \<and> iBuddy \<ge> nBlock s then (iBlock, iLogsize, s)
           else if aCtrl s iBuddy \<noteq> (CTRL_FREE OR iLogsize) then (iBlock, iLogsize, s)
           else
             let s = memsys5Unlink iBuddy iLogsize s; iLogsize = iLogsize + 1 in
             if iBuddy < iBlock then
               merge_up iBuddy iLogsize (set_ctrl iBlock 0 (set_ctrl iBuddy (CTRL_FREE OR iLogsize) s))
             else
               merge_up iBlock iLogsize (set_ctrl iBuddy 0 (set_ctrl iBlock (CTRL_FREE OR iLogsize) s))
      else (iBlock, iLogsize, s))"
  by pat_completeness auto
termination by (relation "measure (\<lambda>(i, l, s). 30 - l)") auto

declare merge_up.simps [simp del]

definition memsys5FreeUnsafe :: "nat \<Rightarrow> mem5 \<Rightarrow> mem5" where
  "memsys5FreeUnsafe pOld s =
     (let iBlock = pOld div szAtom s;
          iLogsize = aCtrl s iBlock AND CTRL_LOGSIZE;
          size = 2 ^ iLogsize;
          s = set_ctrl iBlock (aCtrl s iBlock OR CTRL_FREE) s;
          s = set_ctrl (iBlock + size - 1) (aCtrl s (iBlock + size - 1) OR CTRL_FREE) s;
          s = set_ctrl iBlock (CTRL_FREE OR iLogsize) s;
          (iBlock, iLogsize, s) = merge_up iBlock iLogsize s
      in memsys5Link iBlock iLogsize s)"

definition memsys5Free :: "nat \<Rightarrow> mem5 \<Rightarrow> mem5" where
  "memsys5Free pPrior s = memsys5FreeUnsafe pPrior s"

section \<open>Realloc, Roundup, Init\<close>

definition memcpy :: "nat \<Rightarrow> nat \<Rightarrow> nat \<Rightarrow> mem5 \<Rightarrow> mem5" where
  "memcpy dst src n s =
     s\<lparr>zPool := (\<lambda>a. if dst \<le> a \<and> a < dst + n then zPool s (src + (a - dst)) else zPool s a)\<rparr>"

definition memsys5Realloc :: "nat \<Rightarrow> nat \<Rightarrow> mem5 \<Rightarrow> nat option \<times> mem5" where
  "memsys5Realloc pPrior nBytes s =
     (if nBytes = 0 then (None, s)
      else
        let nOld = memsys5Size pPrior s in
        if nBytes \<le> nOld then (Some pPrior, s)
        else case memsys5Malloc nBytes s of
            (None, s) \<Rightarrow> (None, s)
          | (Some p, s) \<Rightarrow> (Some p, memsys5Free pPrior (memcpy p pPrior nOld s)))"

definition memsys5Roundup :: "nat \<Rightarrow> mem5 \<Rightarrow> nat" where
  "memsys5Roundup n s = (if n > 0x40000000 then 0 else fst (full_size n (szAtom s) 0))"

text \<open>\<open>for(iLog=0; iLog<31 && (1<<iLog)<iValue; iLog++)\<close>\<close>

definition memsys5Log :: "nat \<Rightarrow> nat" where
  "memsys5Log iValue = (case find (\<lambda>iLog. \<not> 2 ^ iLog < iValue) [0..<31] of None \<Rightarrow> 31 | Some l \<Rightarrow> l)"

text \<open>One turn of the loop that cuts the pool into free blocks.\<close>

definition init_block :: "nat \<Rightarrow> nat \<times> mem5 \<Rightarrow> nat \<times> mem5" where
  "init_block ii = (\<lambda>(iOffset, s).
     let nAlloc = 2 ^ ii in
     if iOffset + nAlloc \<le> nBlock s
     then (iOffset + nAlloc, memsys5Link iOffset ii (set_ctrl iOffset (ii OR CTRL_FREE) s))
     else (iOffset, s))"

text \<open>The arguments are \<open>sqlite3GlobalConfig.nHeap\<close> and \<open>mnReq\<close>, and the static variables and heap
  bytes as they are before. \<open>sizeof(Mem5Link)\<close> is 8.\<close>

definition memsys5Init :: "nat \<Rightarrow> nat \<Rightarrow> mem5 \<Rightarrow> mem5" where
  "memsys5Init nHeap mnReq s =
     (let atom = fst (full_size 8 (2 ^ memsys5Log mnReq) 0);
          s = s\<lparr>szAtom := atom, nBlock := nHeap div (atom + 1),
                aiFreelist := (\<lambda>ii. if ii \<le> LOGMAX then -1 else aiFreelist s ii)\<rparr>
      in snd (fold init_block (rev [0..<LOGMAX + 1]) (0, s)))"

section \<open>Links in the pool\<close>

definition int32 :: "int \<Rightarrow> bool" where
  "int32 v \<longleftrightarrow> - (2 ^ 31) \<le> v \<and> v < 2 ^ 31"

lemma get_int_range [simp]: "int32 (get_int m a)"
  using sint_range_size[of "ucast (m a) OR push_bit 8 (ucast (m (a + 1))) OR push_bit 16 (ucast (m (a + 2))) OR push_bit 24 (ucast (m (a + 3))) :: 32 word"]
  by (simp add: get_int_def int32_def size_word.rep_eq)

lemma join_bytes:
  "ucast (word_of_int v :: u8) OR push_bit 8 (ucast (word_of_int (v div 2 ^ 8) :: u8)) OR push_bit 16 (ucast (word_of_int (v div 2 ^ 16) :: u8))
     OR push_bit 24 (ucast (word_of_int (v div 2 ^ 24) :: u8)) = (word_of_int v :: 32 word)"
proof (rule bit_word_eqI)
  fix n assume n: "n < LENGTH(32)"
  have "n < 8 \<or> 8 \<le> n \<and> n < 16 \<or> 16 \<le> n \<and> n < 24 \<or> 24 \<le> n \<and> n < 32" using n by auto
  then show "bit (ucast (word_of_int v :: u8) OR push_bit 8 (ucast (word_of_int (v div 2 ^ 8) :: u8))
     OR push_bit 16 (ucast (word_of_int (v div 2 ^ 16) :: u8)) OR push_bit 24 (ucast (word_of_int (v div 2 ^ 24) :: u8)) :: 32 word) n
     = bit (word_of_int v :: 32 word) n"
    unfolding drop_bit_eq_div[symmetric]
    by (auto simp: bit_or_iff bit_push_bit_iff bit_ucast_iff bit_word_of_int_iff bit_drop_bit_eq)
qed

lemma get_put_int: "int32 v \<Longrightarrow> get_int (put_int a v m) a = v"
proof -
  assume v: "int32 v"
  have "get_int (put_int a v m) a = sint (word_of_int v :: 32 word)"
    using join_bytes[of v] by (simp add: get_int_def put_int_def)
  also have "\<dots> = v" using v by (simp add: int32_def sint_sbintrunc' signed_take_bit_int_eq_self)
  finally show ?thesis .
qed

lemma get_put_int_other: "b + 4 \<le> a \<or> a + 4 \<le> b \<Longrightarrow> get_int (put_int a v m) b = get_int m b"
  by (auto simp: get_int_def put_int_def)

lemma put_int_other: "b < a \<or> a + 4 \<le> b \<Longrightarrow> put_int a v m b = m b"
  by (auto simp: put_int_def)

lemma atoms_apart: "i \<noteq> j \<Longrightarrow> 8 \<le> (z :: nat) \<Longrightarrow> i * z + 8 \<le> j * z \<or> j * z + 8 \<le> i * z"
proof (induction i j rule: linorder_wlog)
  case (le i j)
  then have "Suc i * z \<le> j * z" by (intro mult_le_mono1) simp
  then show ?case using le by simp
qed blast

lemma set_link:
  assumes "8 \<le> szAtom s" "int32 v"
  shows "link_next (set_next i v s) = (link_next s)(i := v)" "link_prev (set_next i v s) = link_prev s"
    "link_prev (set_prev i v s) = (link_prev s)(i := v)" "link_next (set_prev i v s) = link_next s"
proof -
  have apart: "i * szAtom s + 8 \<le> j * szAtom s \<or> j * szAtom s + 8 \<le> i * szAtom s" if "j \<noteq> i" for j
    using atoms_apart[OF _ assms(1), of i j] that by auto
  have other: "get_int (put_int (i * szAtom s + d) v m) (j * szAtom s + c) = get_int m (j * szAtom s + c)"
    if "j \<noteq> i \<or> d = 0 \<and> c = 4 \<or> d = 4 \<and> c = 0" "d \<le> 4" "c \<le> 4" for d c j m
  proof (rule get_put_int_other)
    show "j * szAtom s + c + 4 \<le> i * szAtom s + d \<or> i * szAtom s + d + 4 \<le> j * szAtom s + c"
      using that apart[of j] by (cases "j = i") auto
  qed
  note o = other[of _ 0 0] other[of _ 0 4] other[of _ 4 0] other[of _ 4 4]
  show "link_next (set_next i v s) = (link_next s)(i := v)"
    using o(1) get_put_int[OF assms(2)] by (auto simp: fun_eq_iff link_next_def set_next_def)
  show "link_prev (set_next i v s) = link_prev s"
    using o(2) by (auto simp: fun_eq_iff link_prev_def set_next_def)
  show "link_prev (set_prev i v s) = (link_prev s)(i := v)"
    using o(4) get_put_int[OF assms(2)] by (auto simp: fun_eq_iff link_prev_def set_prev_def)
  show "link_next (set_prev i v s) = link_next s"
    using o(3) by (auto simp: fun_eq_iff link_next_def set_prev_def)
qed

lemma set_link_simps [simp]:
  "szAtom (set_next i v s) = szAtom s" "szAtom (set_prev i v s) = szAtom s"
  "nBlock (set_next i v s) = nBlock s" "nBlock (set_prev i v s) = nBlock s"
  "aCtrl (set_next i v s) = aCtrl s" "aCtrl (set_prev i v s) = aCtrl s"
  "aiFreelist (set_next i v s) = aiFreelist s" "aiFreelist (set_prev i v s) = aiFreelist s"
  by (simp_all add: set_next_def set_prev_def)

lemma link_aiFreelist [simp]:
  "link_next (s\<lparr>aiFreelist := f\<rparr>) = link_next s" "link_prev (s\<lparr>aiFreelist := f\<rparr>) = link_prev s"
  "link_next (s\<lparr>aCtrl := c\<rparr>) = link_next s" "link_prev (s\<lparr>aCtrl := c\<rparr>) = link_prev s"
  by (simp_all add: fun_eq_iff link_next_def link_prev_def)

lemma link_range [simp]: "int32 (link_next s i)" "int32 (link_prev s i)"
  by (simp_all add: link_next_def link_prev_def)

lemma Unlink_links:
  assumes "8 \<le> szAtom s"
  shows "link_next (memsys5Unlink x k s) = (if link_prev s x < 0 then link_next s else (link_next s)(nat (link_prev s x) := link_next s x))"
    "link_prev (memsys5Unlink x k s) = (if link_next s x \<ge> 0 then (link_prev s)(nat (link_next s x) := link_prev s x) else link_prev s)"
    "aiFreelist (memsys5Unlink x k s) = (if link_prev s x < 0 then (aiFreelist s)(k := link_next s x) else aiFreelist s)"
  using assms by (simp_all add: memsys5Unlink_def Let_def set_link)

lemma Link_links:
  assumes "8 \<le> szAtom s" "int32 (aiFreelist s k)" "i < 2 ^ 31"
  shows "link_next (memsys5Link i k s) = (link_next s)(i := aiFreelist s k)"
    "link_prev (memsys5Link i k s) = (if aiFreelist s k \<ge> 0 then (link_prev s)(i := -1, nat (aiFreelist s k) := int i) else (link_prev s)(i := -1))"
    "aiFreelist (memsys5Link i k s) = (aiFreelist s)(k := int i)"
proof -
  have "int32 (int i)" "int32 (-1)" using assms(3) by (simp_all add: int32_def)
  then show "link_next (memsys5Link i k s) = (link_next s)(i := aiFreelist s k)"
    "link_prev (memsys5Link i k s) = (if aiFreelist s k \<ge> 0 then (link_prev s)(i := -1, nat (aiFreelist s k) := int i) else (link_prev s)(i := -1))"
    "aiFreelist (memsys5Link i k s) = (aiFreelist s)(k := int i)"
    using assms(1,2) by (simp_all add: memsys5Link_def Let_def set_link)
qed

text \<open>The bytes that the operations on the lists touch: the first eight of some atoms.\<close>

lemma set_link_bytes:
  "b < i * szAtom s \<or> i * szAtom s + 8 \<le> b \<Longrightarrow> zPool (set_next i v s) b = zPool s b \<and> zPool (set_prev i v s) b = zPool s b"
  by (auto simp: set_next_def set_prev_def put_int_other)

lemma Unlink_bytes:
  assumes "link_prev s x \<ge> 0 \<Longrightarrow> b < nat (link_prev s x) * szAtom s \<or> nat (link_prev s x) * szAtom s + 8 \<le> b"
    "link_next s x \<ge> 0 \<Longrightarrow> b < nat (link_next s x) * szAtom s \<or> nat (link_next s x) * szAtom s + 8 \<le> b"
  shows "zPool (memsys5Unlink x k s) b = zPool s b"
  using assms set_link_bytes[of b "nat (link_prev s x)" s] set_link_bytes[of b "nat (link_next s x)"]
  by (auto simp: memsys5Unlink_def Let_def)

lemma Link_bytes:
  assumes "b < i * szAtom s \<or> i * szAtom s + 8 \<le> b"
    "aiFreelist s k \<ge> 0 \<Longrightarrow> b < nat (aiFreelist s k) * szAtom s \<or> nat (aiFreelist s k) * szAtom s + 8 \<le> b"
  shows "zPool (memsys5Link i k s) b = zPool s b"
  using assms set_link_bytes[of b i] set_link_bytes[of b "nat (aiFreelist s k)"]
  by (auto simp: memsys5Link_def Let_def)

section \<open>Linked lists\<close>

text \<open>\<open>chain nx pv p xs h\<close>: starting from head \<open>h\<close> the links run through \<open>xs\<close>, the node before the
  first being \<open>p\<close>.\<close>

fun chain :: "(nat \<Rightarrow> int) \<Rightarrow> (nat \<Rightarrow> int) \<Rightarrow> int \<Rightarrow> nat list \<Rightarrow> int \<Rightarrow> bool" where
  "chain nx pv p [] h \<longleftrightarrow> h = -1"
| "chain nx pv p (x # xs) h \<longleftrightarrow> h = int x \<and> pv x = p \<and> chain nx pv (int x) xs (nx x)"

definition lists_ok :: "mem5 \<Rightarrow> (nat \<Rightarrow> nat set) \<Rightarrow> bool" where
  "lists_ok s F \<longleftrightarrow> (\<forall>k \<le> LOGMAX. \<exists>xs. distinct xs \<and> set xs = F k
      \<and> chain (link_next s) (link_prev s) (-1) xs (aiFreelist s k))"

lemma chain_cong:
  "(\<And>x. x \<in> set xs \<Longrightarrow> nx x = nx' x \<and> pv x = pv' x) \<Longrightarrow> chain nx pv p xs h \<longleftrightarrow> chain nx' pv' p xs h"
  by (induction xs arbitrary: p h) auto

lemma chain_head: "chain nx pv p xs h \<Longrightarrow> (h \<ge> 0 \<longleftrightarrow> xs \<noteq> []) \<and> (xs \<noteq> [] \<longrightarrow> h = int (hd xs))"
  by (cases xs) auto

lemma chain_unlink:
  "chain nx pv p (as @ x # bs) h \<Longrightarrow> distinct (as @ x # bs) \<Longrightarrow> (\<forall>q. p = int q \<longrightarrow> q \<notin> set (as @ x # bs)) \<Longrightarrow>
   p \<ge> -1 \<Longrightarrow>
   chain (if pv x < 0 then nx else nx(nat (pv x) := nx x))
         (if nx x \<ge> 0 then pv(nat (nx x) := pv x) else pv) p (as @ bs)
         (if as = [] then nx x else h)
   \<and> (as = [] \<longrightarrow> pv x = p) \<and> (as \<noteq> [] \<longrightarrow> pv x = int (last as)) \<and> (nx x \<ge> 0 \<longrightarrow> nat (nx x) \<in> set bs)"
proof (induction as arbitrary: p h)
  case Nil
  then have h: "pv x = p" "chain nx pv (int x) bs (nx x)" "x \<notin> set bs" "distinct bs" by auto
  show ?case
  proof (cases bs)
    case Nil
    then show ?thesis using h by auto
  next
    case (Cons b cs)
    then have b: "nx x = int b" "pv b = int x" "chain nx pv (int b) cs (nx b)" "b \<notin> set cs" using h by auto
    let ?nx = "if p < 0 then nx else nx(nat p := int b)" and ?pv = "pv(b := p)"
    have p: "p < 0 \<or> nat p \<notin> set (x # bs)"
      using Nil.prems(3)[rule_format, of "nat p"] by (cases "p < 0") auto
    have "chain ?nx ?pv (int b) cs (nx b)"
      using b(3,4) p Cons by (subst chain_cong[of cs _ nx _ pv]) auto
    moreover have "?nx b = nx b" using p Cons by auto
    ultimately have "chain ?nx ?pv p (b # cs) (int b)" by simp
    moreover have "(if pv x < 0 then nx else nx(nat (pv x) := nx x)) = ?nx"
      "(if nx x \<ge> 0 then pv(nat (nx x) := pv x) else pv) = ?pv" using h(1) b(1) by auto
    ultimately show ?thesis using h(1) b(1) Cons by (simp only: append_Nil simp_thms if_True) simp
  qed
next
  case (Cons a as)
  then have a: "h = int a" "pv a = p" "chain nx pv (int a) (as @ x # bs) (nx a)" "a \<noteq> x"
      "a \<notin> set (as @ x # bs)" "distinct (as @ x # bs)" by auto
  note IH = Cons.IH[OF a(3,6)]
  let ?nx = "if pv x < 0 then nx else nx(nat (pv x) := nx x)"
  let ?pv = "if nx x \<ge> 0 then pv(nat (nx x) := pv x) else pv"
  have IH: "chain ?nx ?pv (int a) (as @ bs) (if as = [] then nx x else nx a)"
      "as = [] \<longrightarrow> pv x = int a" "as \<noteq> [] \<longrightarrow> pv x = int (last as)" "nx x \<ge> 0 \<longrightarrow> nat (nx x) \<in> set bs"
    using IH a(5) by auto
  have "?pv a = pv a" using IH(4) a(5) by auto
  moreover have "?nx a = (if as = [] then nx x else nx a)"
  proof (cases "as = []")
    case False
    then have "pv x = int (last as)" "last as \<in> set as" using IH(3) by auto
    then show ?thesis using a(5) False by auto
  qed (use IH(2) in auto)
  ultimately show ?case using IH a by auto
qed

lemma lists_ok_D:
  assumes "lists_ok s F" "k \<le> 30"
  obtains xs where "distinct xs" "set xs = F k" "chain (link_next s) (link_prev s) (-1) xs (aiFreelist s k)"
  using assms unfolding lists_ok_def by blast

lemma lists_ok_head:
  assumes "lists_ok s F" "k \<le> 30"
  shows "aiFreelist s k \<ge> 0 \<longleftrightarrow> F k \<noteq> {}" "aiFreelist s k \<ge> 0 \<Longrightarrow> nat (aiFreelist s k) \<in> F k"
proof -
  obtain xs where d: "distinct xs"
    and xs: "set xs = F k" "chain (link_next s) (link_prev s) (-1) xs (aiFreelist s k)"
    by (rule lists_ok_D[OF assms])
  show "aiFreelist s k \<ge> 0 \<longleftrightarrow> F k \<noteq> {}" using chain_head[OF xs(2)] xs(1) by auto
  show "nat (aiFreelist s k) \<in> F k" if "aiFreelist s k \<ge> 0"
    using xs that by (cases xs) auto
qed

lemma lists_ok_int32:
  assumes "lists_ok s F" "k \<le> 30" "\<forall>y \<in> F k. y < 2 ^ 31"
  shows "int32 (aiFreelist s k)"
proof -
  obtain xs where "set xs = F k" "chain (link_next s) (link_prev s) (-1) xs (aiFreelist s k)"
    by (rule lists_ok_D[OF assms(1,2)])
  then show ?thesis using assms(3) by (cases xs) (auto simp: int32_def)
qed

lemma Link_lists:
  assumes ok: "lists_ok s F" and k: "k \<le> 30" and x: "\<forall>l \<le> 30. x \<notin> F l"
    and dis: "\<forall>l l'. l \<noteq> l' \<longrightarrow> F l \<inter> F l' = {}" and sz: "8 \<le> szAtom s" and lt: "x < 2 ^ 31" "\<forall>y \<in> F k. y < 2 ^ 31"
  shows "lists_ok (memsys5Link x k s) (F(k := insert x (F k)))"
  unfolding lists_ok_def
proof (intro allI impI)
  fix l :: nat assume l: "l \<le> 30"
  obtain xs where xs: "distinct xs" "set xs = F l"
      "chain (link_next s) (link_prev s) (-1) xs (aiFreelist s l)"
    by (rule lists_ok_D[OF ok l])
  have hd: "aiFreelist s k \<ge> 0 \<Longrightarrow> nat (aiFreelist s k) \<in> F k" using lists_ok_head[OF ok k] by blast
  let ?s = "memsys5Link x k s"
  note links = Link_links[OF sz lists_ok_int32[OF ok k lt(2)] lt(1)]
  show "\<exists>xs. distinct xs \<and> set xs = (F(k := insert x (F k))) l
      \<and> chain (link_next ?s) (link_prev ?s) (-1) xs (aiFreelist ?s l)"
  proof (cases "l = k")
    case False
    have "nat (aiFreelist s k) \<notin> F l" if "aiFreelist s k \<ge> 0" using hd[OF that] dis False by blast
    then have "chain (link_next ?s) (link_prev ?s) (-1) xs (aiFreelist ?s l)"
      using xs(2,3) x l False
      by (subst chain_cong[of xs _ "link_next s" _ "link_prev s"]) (auto simp: links)
    then show ?thesis using xs(1,2) False by auto
  next
    case True
    have "chain (link_next ?s) (link_prev ?s) (int x) xs (aiFreelist s k)"
    proof (cases xs)
      case Nil
      then show ?thesis using xs(3) True by simp
    next
      case (Cons y ys)
      then have y: "aiFreelist s k = int y" "chain (link_next s) (link_prev s) (int y) ys (link_next s y)"
          "y \<notin> set ys" "x \<noteq> y" "x \<notin> set ys"
        using xs True x l by auto
      have "chain (link_next ?s) (link_prev ?s) (int y) ys (link_next s y)"
        using y by (subst chain_cong[of ys _ "link_next s" _ "link_prev s"]) (auto simp: links)
      then show ?thesis using y Cons by (simp add: links)
    qed
    moreover have "link_next ?s x = aiFreelist s k" "aiFreelist ?s k = int x" "link_prev ?s x = -1"
      using hd x k by (auto simp: links)
    ultimately have "chain (link_next ?s) (link_prev ?s) (-1) (x # xs) (aiFreelist ?s l)" using True by simp
    moreover have "distinct (x # xs)" using xs(1,2) x l by simp
    ultimately show ?thesis using xs(2) True by (intro exI[of _ "x # xs"]) auto
  qed
qed

lemma Unlink_lists:
  assumes ok: "lists_ok s F" and k: "k \<le> 30" and x: "x \<in> F k"
    and dis: "\<forall>l l'. l \<noteq> l' \<longrightarrow> F l \<inter> F l' = {}" and sz: "8 \<le> szAtom s"
  shows "lists_ok (memsys5Unlink x k s) (F(k := F k - {x}))"
proof -
  obtain ys where ys: "distinct ys" "set ys = F k"
      "chain (link_next s) (link_prev s) (-1) ys (aiFreelist s k)"
    by (rule lists_ok_D[OF ok k])
  then obtain as bs where ab: "ys = as @ x # bs" using x by (metis split_list)
  have "distinct (as @ x # bs)" using ys(1) ab by simp
  note u = chain_unlink[OF ys(3)[unfolded ab] this]
  let ?s = "memsys5Unlink x k s"
  note links = Unlink_links[OF sz, of x k]
  have p: "link_prev s x < 0 \<longleftrightarrow> as = []" "as \<noteq> [] \<Longrightarrow> link_prev s x = int (last as)"
      "link_next s x \<ge> 0 \<Longrightarrow> nat (link_next s x) \<in> set bs"
    using u by (cases "as = []"; auto)+
  have new: "chain (link_next ?s) (link_prev ?s) (-1) (as @ bs) (aiFreelist ?s k)"
    using u p(1) unfolding links by auto
  show ?thesis unfolding lists_ok_def
  proof (intro allI impI)
    fix l :: nat assume l: "l \<le> 30"
    show "\<exists>xs. distinct xs \<and> set xs = (F(k := F k - {x})) l
        \<and> chain (link_next ?s) (link_prev ?s) (-1) xs (aiFreelist ?s l)"
    proof (cases "l = k")
      case True
      then show ?thesis using new ys(1,2) ab by (intro exI[of _ "as @ bs"]) auto
    next
      case False
      obtain xs where xs: "distinct xs" "set xs = F l"
          "chain (link_next s) (link_prev s) (-1) xs (aiFreelist s l)"
        by (rule lists_ok_D[OF ok l])
      have d: "set xs \<inter> set (as @ x # bs) = {}" using xs(2) ys(2) ab dis False by auto
      have "as \<noteq> [] \<Longrightarrow> nat (link_prev s x) \<in> set as" using p(2) by simp
      then have "chain (link_next ?s) (link_prev ?s) (-1) xs (aiFreelist s l)"
        using xs(3) d p(1,3) unfolding links
        by (subst chain_cong[of xs _ "link_next s" _ "link_prev s"]) auto
      moreover have "aiFreelist ?s l = aiFreelist s l" using False unfolding links by simp
      ultimately show ?thesis using xs(1,2) False by auto
    qed
  qed
qed

lemma Unlink_neighbours:
  assumes ok: "lists_ok s F" and k: "k \<le> 30" and x: "x \<in> F k"
  shows "link_prev s x \<ge> 0 \<Longrightarrow> nat (link_prev s x) \<in> F k" "link_next s x \<ge> 0 \<Longrightarrow> nat (link_next s x) \<in> F k"
proof -
  obtain ys where ys: "distinct ys" "set ys = F k"
      "chain (link_next s) (link_prev s) (-1) ys (aiFreelist s k)"
    by (rule lists_ok_D[OF ok k])
  then obtain as bs where ab: "ys = as @ x # bs" using x by (metis split_list)
  have "distinct (as @ x # bs)" using ys(1) ab by simp
  note u = chain_unlink[OF ys(3)[unfolded ab] this]
  have prv: "as = [] \<longrightarrow> link_prev s x = -1" "as \<noteq> [] \<longrightarrow> link_prev s x = int (last as)"
    and nxt: "link_next s x \<ge> 0 \<longrightarrow> nat (link_next s x) \<in> set bs" using u by simp_all
  have sub: "set as \<subseteq> F k" "set bs \<subseteq> F k" using ys(2) ab by auto
  show "nat (link_next s x) \<in> F k" if "link_next s x \<ge> 0" using nxt that sub by blast
  show "nat (link_prev s x) \<in> F k" if "link_prev s x \<ge> 0"
    using prv that sub last_in_set[of as] by (cases "as = []") auto
qed

section \<open>Tilings of the pool\<close>

text \<open>
  The blocks the pool is cut into, as a map from the first atom of a block to the logarithm of its
  size and whether it is free. Blocks are aligned to their size, do not overlap and leave no gap.
\<close>

type_synonym tiling = "nat \<rightharpoonup> nat \<times> bool"

definition tiled :: "tiling \<Rightarrow> nat \<Rightarrow> bool" where
  "tiled H n \<longleftrightarrow>
     (\<forall>i k f. H i = Some (k, f) \<longrightarrow> 2 ^ k dvd i \<and> i + 2 ^ k \<le> n \<and> k \<le> LOGMAX)
   \<and> (\<forall>i j k f. H i = Some (k, f) \<longrightarrow> H j \<noteq> None \<longrightarrow> i < j \<longrightarrow> i + 2 ^ k \<le> j)
   \<and> (\<forall>x < n. \<exists>i k f. H i = Some (k, f) \<and> i \<le> x \<and> x < i + 2 ^ k)"

lemma tiledD:
  assumes "tiled H n" "H i = Some (k, f)"
  shows "2 ^ k dvd i" "i + 2 ^ k \<le> n" "k \<le> 30"
  using assms unfolding tiled_def by blast+

lemma tiled_disjoint: "tiled H n \<Longrightarrow> H i = Some (k, f) \<Longrightarrow> H j \<noteq> None \<Longrightarrow> i < j \<Longrightarrow> i + 2 ^ k \<le> j"
  unfolding tiled_def by blast

lemma tiled_cover:
  assumes "tiled H n" "x < n"
  obtains i k f where "H i = Some (k, f)" "i \<le> x" "x < i + 2 ^ k"
  using assms unfolding tiled_def by blast

lemma tiledI:
  assumes "\<And>i k f. H i = Some (k, f) \<Longrightarrow> 2 ^ k dvd i \<and> i + 2 ^ k \<le> n \<and> k \<le> 30"
    and "\<And>i j k f. H i = Some (k, f) \<Longrightarrow> H j \<noteq> None \<Longrightarrow> i < j \<Longrightarrow> i + 2 ^ k \<le> j"
    and "\<And>x. x < n \<Longrightarrow> \<exists>i k f. H i = Some (k, f) \<and> i \<le> x \<and> x < i + 2 ^ k"
  shows "tiled H n"
  using assms unfolding tiled_def by blast

lemma tiled_unique:
  assumes "tiled H n" "H i = Some (k, f)" "H j = Some (l, g)" "i \<le> x" "x < i + 2 ^ k" "j \<le> x" "x < j + 2 ^ l"
  shows "i = j"
proof (rule ccontr)
  assume "i \<noteq> j"
  then consider "i < j" | "j < i" by linarith
  then show False using tiled_disjoint[OF assms(1)] assms(2-7) by cases (metis (no_types) not_le option.distinct(1) order_less_le_trans)+
qed

lemma tiled_split:
  assumes t: "tiled H n" and i: "H i = Some (Suc k, f)"
  shows "tiled (H(i \<mapsto> (k, f'), i + 2 ^ k \<mapsto> (k, g))) n"
proof -
  let ?b = "i + 2 ^ k"
  have pos: "i < ?b" "?b < i + 2 ^ Suc k" by simp_all
  have no: "H j = None" if "i < j" "j < i + 2 ^ Suc k" for j
    using tiled_disjoint[OF t i, of j] that by (cases "H j") auto
  note D = tiledD[OF t]
  have al: "2 ^ k dvd i" using D(1)[OF i] by (meson dvd_trans le_imp_power_dvd lessI less_imp_le)
  show ?thesis
  proof (rule tiledI)
    fix j l e assume "(H(i \<mapsto> (k, f'), ?b \<mapsto> (k, g))) j = Some (l, e)"
    then show "2 ^ l dvd j \<and> j + 2 ^ l \<le> n \<and> l \<le> 30"
      using D[of j l e] D(2,3)[OF i] al by (auto split: if_splits)
  next
    fix a b l e assume h: "(H(i \<mapsto> (k, f'), ?b \<mapsto> (k, g))) a = Some (l, e)"
      "(H(i \<mapsto> (k, f'), ?b \<mapsto> (k, g))) b \<noteq> None" "a < b"
    show "a + 2 ^ l \<le> b"
    proof (cases "a = i \<or> a = ?b")
      case True
      then have "l = k" using h(1) by (auto split: if_splits)
      have "b = ?b \<or> i + 2 ^ Suc k \<le> b"
        using h True no[of b] by (cases "b < i + 2 ^ Suc k") (auto split: if_splits)
      then show ?thesis using True \<open>l = k\<close> h(3) by auto
    next
      case False
      then have a: "H a = Some (l, e)" using h(1) by (auto split: if_splits)
      show ?thesis
      proof (cases "b = ?b")
        case True
        have "a < i" using no[of a] a h(3) True False by (metis linorder_neqE_nat option.distinct(1) pos(2) less_trans)
        then show ?thesis using tiled_disjoint[OF t a, of i] i True by auto
      next
        case b: False
        then show ?thesis using tiled_disjoint[OF t a, of b] h(2,3) i by (auto split: if_splits)
      qed
    qed
  next
    fix x assume "x < n"
    then obtain j l e where j: "H j = Some (l, e)" "j \<le> x" "x < j + 2 ^ l" by (rule tiled_cover[OF t])
    show "\<exists>j l e. (H(i \<mapsto> (k, f'), ?b \<mapsto> (k, g))) j = Some (l, e) \<and> j \<le> x \<and> x < j + 2 ^ l"
    proof (cases "j = i")
      case True
      then have "l = Suc k" using j i by simp
      then show ?thesis using j True pos
        by (cases "x < ?b") (intro exI[of _ i] exI[of _ k] exI[of _ f'], simp,
            intro exI[of _ ?b] exI[of _ k] exI[of _ g], simp)
    next
      case False
      moreover have "j \<noteq> ?b" using no[of ?b] j pos by auto
      ultimately show ?thesis using j by (intro exI[of _ j] exI[of _ l] exI[of _ e]) simp
    qed
  qed
qed

lemma tiled_merge:
  assumes t: "tiled H n" and i: "H i = Some (k, f)" "H (i + 2 ^ k) = Some (k, g)"
    and al: "2 ^ Suc k dvd i" and k: "k < 30"
  shows "tiled (H(i \<mapsto> (Suc k, f'), i + 2 ^ k := None)) n"
proof -
  let ?b = "i + 2 ^ k"
  note D = tiledD[OF t]
  have dbl: "?b + 2 ^ k = i + 2 ^ Suc k" by simp
  show ?thesis
  proof (rule tiledI)
    fix j l e assume "(H(i \<mapsto> (Suc k, f'), ?b := None)) j = Some (l, e)"
    then show "2 ^ l dvd j \<and> j + 2 ^ l \<le> n \<and> l \<le> 30"
      using D[of j l e] D(2)[OF i(2)] al k by (auto split: if_splits)
  next
    fix a b l e assume h: "(H(i \<mapsto> (Suc k, f'), ?b := None)) a = Some (l, e)"
      "(H(i \<mapsto> (Suc k, f'), ?b := None)) b \<noteq> None" "a < b"
    have b: "b \<noteq> ?b" "H b \<noteq> None" using h(2) i by (auto split: if_splits)
    show "a + 2 ^ l \<le> b"
    proof (cases "a = i")
      case True
      then have "l = Suc k" using h(1) by (auto split: if_splits)
      have "?b \<le> b" using tiled_disjoint[OF t i(1), of b] b h(3) True by simp
      then have "?b + 2 ^ k \<le> b" using tiled_disjoint[OF t i(2), of b] b by simp
      then show ?thesis using True \<open>l = Suc k\<close> by simp
    next
      case False
      then have "H a = Some (l, e)" using h(1) by (auto split: if_splits)
      then show ?thesis using tiled_disjoint[OF t, of a] b h(3) by auto
    qed
  next
    fix x assume "x < n"
    then obtain j l e where j: "H j = Some (l, e)" "j \<le> x" "x < j + 2 ^ l" by (rule tiled_cover[OF t])
    show "\<exists>j l e. (H(i \<mapsto> (Suc k, f'), ?b := None)) j = Some (l, e) \<and> j \<le> x \<and> x < j + 2 ^ l"
    proof (cases "j = i \<or> j = ?b")
      case True
      then have "i \<le> x" "x < i + 2 ^ Suc k" using j i by auto
      then show ?thesis by (intro exI[of _ i] exI[of _ "Suc k"] exI[of _ f']) simp
    next
      case False
      then show ?thesis using j by (intro exI[of _ j] exI[of _ l] exI[of _ e]) simp
    qed
  qed
qed

lemma tiled_mark: "tiled H n \<Longrightarrow> H i = Some (k, f) \<Longrightarrow> tiled (H(i \<mapsto> (k, g))) n"
  by (rule tiledI) (auto dest: tiledD tiled_disjoint elim: tiled_cover split: if_splits, (metis tiled_cover option.inject prod.inject)?)

lemma dvd_window:
  assumes "P dvd i" "P dvd (L::nat)" "P > 0" "i \<le> y" "y < i + L" "x div P = y div P"
  shows "i \<le> x \<and> x < i + L"
proof -
  obtain a b where ab: "i = P * a" "L = P * b" using assms(1,2) by (auto elim!: dvdE)
  have "a \<le> y div P" "y div P < a + b"
    using assms(3-5) ab by (simp_all add: less_eq_div_iff_mult_less_eq div_less_iff_less_mult
        algebra_simps)
  then have "a \<le> x div P" "x div P < a + b" using assms(6) by simp_all
  then show ?thesis
    using assms(3) ab by (simp_all add: less_eq_div_iff_mult_less_eq div_less_iff_less_mult
        algebra_simps)
qed

text \<open>The buddy of a block starts a block that is not larger.\<close>

lemma buddy_head:
  assumes t: "tiled H n" and x: "H x = Some (k, f)" and y: "y < n"
    and b: "y = (if odd (x div 2 ^ k) then x - 2 ^ k else x + 2 ^ k)"
  obtains l g where "H y = Some (l, g)" "l \<le> k"
proof -
  obtain q where q: "x = 2 ^ k * q" using tiledD(1)[OF t x] by (auto elim: dvdE)
  define r where "r = (if odd q then q - 1 else q + 1)"
  have yr: "y = 2 ^ k * r" using b q by (auto simp: r_def algebra_simps)
  have "q div 2 = r div 2" unfolding r_def by (cases "odd q") (auto elim!: oddE evenE)
  then have same: "x div 2 ^ Suc k = y div 2 ^ Suc k"
    unfolding q yr power_Suc2 by (simp only: div_mult_mult1 power_not_zero zero_neq_numeral not_False_eq_True)
  obtain i l g where i: "H i = Some (l, g)" "i \<le> y" "y < i + 2 ^ l" using tiled_cover[OF t y] by blast
  have "l \<le> k"
  proof (rule ccontr)
    assume "\<not> l \<le> k"
    then have "2 ^ Suc k dvd (2 ^ l :: nat)" by (intro le_imp_power_dvd) simp
    moreover from this have "2 ^ Suc k dvd i" using tiledD(1)[OF t i(1)] by (rule dvd_trans)
    ultimately have "i \<le> x \<and> x < i + 2 ^ l" using dvd_window[of "2 ^ Suc k" i "2 ^ l" y x] i same by simp
    then have "i = x" using tiled_unique[OF t i(1) x, of x] by simp
    then show False using i(1) x \<open>\<not> l \<le> k\<close> by simp
  qed
  moreover have "y = i"
  proof -
    have "2 ^ l dvd y" using \<open>l \<le> k\<close> unfolding yr by (meson dvd_mult2 le_imp_power_dvd)
    then have "2 ^ l dvd y - i" using tiledD(1)[OF t i(1)] by (simp add: dvd_diff_nat)
    then show ?thesis using i(2,3) by (auto dest: dvd_imp_le)
  qed
  ultimately show ?thesis using that i(1) by blast
qed

lemma ctrl_bits:
  assumes "k \<le> (30::nat)" "l \<le> (30::nat)"
  shows "(32 OR k) AND 31 = k" "k AND 31 = k" "32 OR l = 32 OR k \<longleftrightarrow> l = k" "l \<noteq> 32 OR k" "k OR 32 = 32 OR k"
proof -
  have all: "\<forall>k \<in> set [0..<31]. (32 OR k) AND 31 = (k::nat) \<and> k AND 31 = k \<and> 32 OR k = 32 + k \<and> k OR 32 = 32 OR k"
    by code_simp
  have mem: "k \<in> set [0..<31]" "l \<in> set [0..<31]" using assms by auto
  have k: "(32 OR k) AND 31 = k \<and> k AND 31 = k \<and> 32 OR k = 32 + k \<and> k OR 32 = 32 OR k"
    and l: "32 OR l = 32 + l" using all mem by blast+
  show "(32 OR k) AND 31 = k" "k AND 31 = k" "k OR 32 = 32 OR k" using k by blast+
  show "32 OR l = 32 OR k \<longleftrightarrow> l = k" "l \<noteq> 32 OR k" using k l assms by auto
qed

section \<open>The invariant of the allocator\<close>

definition free_at :: "tiling \<Rightarrow> nat \<Rightarrow> nat set" where
  "free_at H k = {i. H i = Some (k, True)}"

definition ctrl_ok :: "mem5 \<Rightarrow> tiling \<Rightarrow> nat set \<Rightarrow> bool" where
  "ctrl_ok s H X \<longleftrightarrow>
     (\<forall>i k f. H i = Some (k, f) \<longrightarrow> i \<notin> X \<longrightarrow> aCtrl s i = (if f then CTRL_FREE OR k else k))"

text \<open>Two free buddies of the same size never stay side by side.\<close>

definition nobuddy :: "tiling \<Rightarrow> bool" where
  "nobuddy H \<longleftrightarrow> (\<forall>i k. H i = Some (k, True) \<longrightarrow> k < LOGMAX \<longrightarrow> even (i div 2 ^ k) \<longrightarrow>
      H (i + 2 ^ k) \<noteq> Some (k, True))"

text \<open>\<open>partial_inv s H X\<close>: everything but the control bytes of the blocks of \<open>X\<close>.\<close>

definition partial_inv :: "mem5 \<Rightarrow> tiling \<Rightarrow> nat set \<Rightarrow> bool" where
  "partial_inv s H X \<longleftrightarrow> 8 \<le> szAtom s \<and> nBlock s < 2 ^ 31 \<and> tiled H (nBlock s) \<and> lists_ok s (free_at H)
     \<and> ctrl_ok s H X \<and> nobuddy H"

definition same_pool :: "mem5 \<Rightarrow> mem5 \<Rightarrow> bool" where
  "same_pool s s' \<longleftrightarrow> szAtom s' = szAtom s \<and> nBlock s' = nBlock s"

text \<open>The bytes of the blocks that are not free, those of \<open>X\<close> apart, are left alone.\<close>

definition kept :: "tiling \<Rightarrow> nat set \<Rightarrow> mem5 \<Rightarrow> mem5 \<Rightarrow> bool" where
  "kept H X s s' \<longleftrightarrow> (\<forall>i k b. H i = Some (k, False) \<longrightarrow> i \<notin> X \<longrightarrow>
     i * szAtom s \<le> b \<longrightarrow> b < (i + 2 ^ k) * szAtom s \<longrightarrow> zPool s' b = zPool s b)"

definition in_use :: "tiling \<Rightarrow> nat \<rightharpoonup> nat" where
  "in_use H i = (case H i of Some (k, False) \<Rightarrow> Some k | _ \<Rightarrow> None)"

lemma in_use_iff: "in_use H i = Some k \<longleftrightarrow> H i = Some (k, False)"
  by (auto simp: in_use_def split: option.splits prod.splits bool.splits)

lemma free_disjoint: "\<forall>l l'. l \<noteq> l' \<longrightarrow> free_at H l \<inter> free_at H l' = {}"
  by (auto simp: free_at_def)

lemma same_pool_simps [simp]:
  "same_pool s s" "same_pool s (memsys5Link i k s') \<longleftrightarrow> same_pool s s'"
  "same_pool s (memsys5Unlink i k s') \<longleftrightarrow> same_pool s s'" "same_pool s (set_ctrl i c s') \<longleftrightarrow> same_pool s s'"
  by (auto simp: same_pool_def memsys5Link_def memsys5Unlink_def set_ctrl_def Let_def)

lemma partial_invD:
  assumes "partial_inv s H X"
  shows "0 < szAtom s" "8 \<le> szAtom s" "nBlock s < 2 ^ 31" "tiled H (nBlock s)" "lists_ok s (free_at H)" "ctrl_ok s H X" "nobuddy H"
    "H i = Some (k, f) \<Longrightarrow> i < 2 ^ 31"
proof -
  show "0 < szAtom s" "8 \<le> szAtom s" "nBlock s < 2 ^ 31" "tiled H (nBlock s)" "lists_ok s (free_at H)" "ctrl_ok s H X" "nobuddy H"
    using assms by (auto simp: partial_inv_def)
  assume "H i = Some (k, f)"
  then have "i + 2 ^ k \<le> nBlock s" using assms tiledD(2) unfolding partial_inv_def by blast
  then show "i < 2 ^ 31" using assms by (simp add: partial_inv_def)
qed

text \<open>The first bytes of another block are not in a block.\<close>

lemma other_block:
  assumes t: "tiled H n" and i: "H i = Some (k, f)" and j: "H j \<noteq> None" "j \<noteq> i" and z: "8 \<le> z"
    and b: "i * z \<le> b" "b < (i + 2 ^ k) * z"
  shows "b < j * z \<or> j * z + 8 \<le> b"
proof (cases "i < j")
  case True
  then have "(i + 2 ^ k) * z \<le> j * z" using tiled_disjoint[OF t i j(1)] by (intro mult_le_mono1)
  then show ?thesis using b(2) by linarith
next
  case False
  then have "Suc j * z \<le> i * z" using j(2) by (intro mult_le_mono1) simp
  then show ?thesis using b(1) z by simp
qed

lemma kept_refl [simp]: "kept H X s s"
  by (simp add: kept_def)

lemma kept_trans:
  assumes "kept H X s s'" "kept H' X' s' s''" "szAtom s' = szAtom s"
    and "\<And>i k. H i = Some (k, False) \<Longrightarrow> i \<notin> X \<Longrightarrow> H' i = Some (k, False) \<and> i \<notin> X'"
  shows "kept H X s s''"
  unfolding kept_def
proof (intro allI impI)
  fix i k b assume h: "H i = Some (k, False)" "i \<notin> X" "i * szAtom s \<le> b" "b < (i + 2 ^ k) * szAtom s"
  have "zPool s'' b = zPool s' b" using assms(2) assms(4)[OF h(1,2)] h(3,4) unfolding kept_def assms(3) by blast
  also have "\<dots> = zPool s b" using assms(1) h unfolding kept_def by blast
  finally show "zPool s'' b = zPool s b" .
qed

lemma Link_kept:
  assumes t: "tiled H n" and ok: "lists_ok s (free_at H)" and k: "k \<le> 30" and z: "8 \<le> szAtom s"
    and i: "H i \<noteq> None" "i \<in> X"
  shows "kept H X s (memsys5Link i k s)"
  unfolding kept_def
proof (intro allI impI)
  fix j l b assume h: "H j = Some (l, False)" "j \<notin> X" "j * szAtom s \<le> b" "b < (j + 2 ^ l) * szAtom s"
  show "zPool (memsys5Link i k s) b = zPool s b"
  proof (rule Link_bytes)
    show "b < i * szAtom s \<or> i * szAtom s + 8 \<le> b"
      using i h(2) by (intro other_block[OF t h(1) _ _ z h(3,4)]) auto
    assume "aiFreelist s k \<ge> 0"
    then have "H (nat (aiFreelist s k)) = Some (k, True)" using lists_ok_head(2)[OF ok k] by (simp add: free_at_def)
    then show "b < nat (aiFreelist s k) * szAtom s \<or> nat (aiFreelist s k) * szAtom s + 8 \<le> b"
      using h(1) by (intro other_block[OF t h(1) _ _ z h(3,4)]) auto
  qed
qed

lemma Unlink_kept:
  assumes t: "tiled H n" and ok: "lists_ok s (free_at H)" and k: "k \<le> 30" and z: "8 \<le> szAtom s"
    and i: "H i = Some (k, True)"
  shows "kept H X s (memsys5Unlink i k s)"
  unfolding kept_def
proof (intro allI impI)
  fix j l b assume h: "H j = Some (l, False)" "j \<notin> X" "j * szAtom s \<le> b" "b < (j + 2 ^ l) * szAtom s"
  have free: "b < x * szAtom s \<or> x * szAtom s + 8 \<le> b" if "x \<in> free_at H k" for x
    using that h(1) by (intro other_block[OF t h(1) _ _ z h(3,4)]) (auto simp: free_at_def)
  have "i \<in> free_at H k" using i by (simp add: free_at_def)
  note n = Unlink_neighbours[OF ok k this]
  show "zPool (memsys5Unlink i k s) b = zPool s b"
    by (rule Unlink_bytes) (use n free in blast)+
qed

lemma kept_set_ctrl [simp]: "kept H X s (set_ctrl i c s') \<longleftrightarrow> kept H X s s'"
  by (simp add: kept_def set_ctrl_def)

lemma kept_set_ctrl' [simp]: "kept H X (set_ctrl i c s) s' \<longleftrightarrow> kept H X s s'"
  by (simp add: kept_def set_ctrl_def)

lemma same_pool_trans: "same_pool a b \<Longrightarrow> same_pool b c \<Longrightarrow> same_pool a c"
  by (simp add: same_pool_def)

lemma pool_simps [simp]:
  "aCtrl (memsys5Link i k s) = aCtrl s" "aCtrl (memsys5Unlink i k s) = aCtrl s"
  "aCtrl (set_ctrl i c s) = (aCtrl s)(i := c)"
  "nBlock (memsys5Link i k s) = nBlock s" "nBlock (memsys5Unlink i k s) = nBlock s" "nBlock (set_ctrl i c s) = nBlock s"
  "szAtom (memsys5Link i k s) = szAtom s" "szAtom (memsys5Unlink i k s) = szAtom s" "szAtom (set_ctrl i c s) = szAtom s"
  by (auto simp: memsys5Link_def memsys5Unlink_def set_ctrl_def Let_def)

lemma lists_set_ctrl [simp]: "lists_ok (set_ctrl i c s) F \<longleftrightarrow> lists_ok s F"
  by (simp add: lists_ok_def set_ctrl_def)

lemma nobuddy_mono: "nobuddy H \<Longrightarrow> (\<And>j l. H' j = Some (l, True) \<Longrightarrow> H j = Some (l, True)) \<Longrightarrow> nobuddy H'"
  unfolding nobuddy_def by blast

lemma Link_partial:
  assumes p: "partial_inv s H X" and i: "H i = Some (k, False)" and c: "aCtrl s i = 32 OR k"
    and b: "k < 30 \<Longrightarrow> even (i div 2 ^ k) \<Longrightarrow> H (i + 2 ^ k) \<noteq> Some (k, True)"
      "k < 30 \<Longrightarrow> odd (i div 2 ^ k) \<Longrightarrow> H (i - 2 ^ k) \<noteq> Some (k, True)"
  shows "partial_inv (memsys5Link i k s) (H(i \<mapsto> (k, True))) (X - {i})"
proof -
  have t: "tiled H (nBlock s)" and k: "k \<le> 30" using p i tiledD(3)[of H "nBlock s" i k False] by (auto simp: partial_inv_def)
  have F: "free_at (H(i \<mapsto> (k, True))) = (free_at H)(k := insert i (free_at H k))"
    using i by (auto simp: free_at_def fun_eq_iff)
  have "lists_ok (memsys5Link i k s) (free_at (H(i \<mapsto> (k, True))))"
    unfolding F using partial_invD(2,5)[OF p] partial_invD(8)[OF p] i k
    by (intro Link_lists free_disjoint) (auto simp: free_at_def)
  moreover have "nobuddy (H(i \<mapsto> (k, True)))"
    unfolding nobuddy_def
  proof (intro allI impI)
    fix j l assume j: "(H(i \<mapsto> (k, True))) j = Some (l, True)" "l < 30" "even (j div 2 ^ l)"
    show "(H(i \<mapsto> (k, True))) (j + 2 ^ l) \<noteq> Some (l, True)"
    proof (cases "j = i")
      case True
      then show ?thesis using b(1) j by auto
    next
      case ji: False
      then have hj: "H j = Some (l, True)" using j(1) by simp
      show ?thesis
      proof (cases "j + 2 ^ l = i")
        case True
        have "odd (i div 2 ^ l)" unfolding True[symmetric] using j(3) div_add_self2[of "2 ^ l" j] by simp
        then show ?thesis using b(2) j(2) hj True by auto
      next
        case False
        then show ?thesis using p hj j unfolding partial_inv_def nobuddy_def by auto
      qed
    qed
  qed
  moreover have "ctrl_ok (memsys5Link i k s) (H(i \<mapsto> (k, True))) (X - {i})"
    using p c by (auto simp: ctrl_ok_def partial_inv_def)
  ultimately show ?thesis using p tiled_mark[OF t i] by (simp add: partial_inv_def)
qed

section \<open>Malloc keeps the invariant\<close>

lemma full_size_ok:
  "full_size n sz l = (sz', l') \<Longrightarrow> sz > 0 \<Longrightarrow>
     l \<le> l' \<and> sz' = sz * 2 ^ (l' - l) \<and> n \<le> sz' \<and> (l < l' \<longrightarrow> sz' < 2 * n)"
proof (induction n sz l arbitrary: sz' l' rule: full_size.induct)
  case (1 n sz l)
  show ?case
  proof (cases "sz < n")
    case True
    then have r: "full_size n (sz * 2) (l + 1) = (sz', l')"
      using 1(2,3) by (subst (asm) full_size.simps) simp
    then have IH: "l + 1 \<le> l'" "sz' = sz * 2 * 2 ^ (l' - (l + 1))" "n \<le> sz'" "l + 1 < l' \<longrightarrow> sz' < 2 * n"
      using 1(1)[OF _ r] True 1(3) by auto
    have "2 * 2 ^ (l' - (l + 1)) = (2 ^ (l' - l) :: nat)" using IH(1) by (simp flip: power_Suc add: Suc_diff_Suc)
    then have "sz' = sz * 2 ^ (l' - l)" using IH(2) by simp
    moreover have "sz' < 2 * n" using IH True by (cases "l + 1 < l'") auto
    ultimately show ?thesis using IH by simp
  next
    case False
    then show ?thesis using 1(2) by (subst (asm) full_size.simps) auto
  qed
qed

lemma full_size_bound:
  assumes "full_size n sz 0 = (sz', l)" "sz > 0" "n \<le> 2 ^ 30"
  shows "l \<le> 30" "sz' = sz * 2 ^ l" "n \<le> sz'"
proof -
  have f: "sz' = sz * 2 ^ l" "n \<le> sz'" "0 < l \<longrightarrow> sz' < 2 * n" using full_size_ok[OF assms(1,2)] by auto
  then show "sz' = sz * 2 ^ l" "n \<le> sz'" by auto
  show "l \<le> 30"
  proof (rule ccontr)
    assume l: "\<not> l \<le> 30"
    then have "sz' < 2 ^ 31" using f(3) assms(3) by simp
    moreover have "(2 :: nat) ^ 31 \<le> 2 ^ l" using l by (intro power_increasing) auto
    moreover have "2 ^ l \<le> sz'" using f(1) assms(2) by simp
    ultimately show False by linarith
  qed
qed

lemma szAtom_split_down: "szAtom (split_down i l b s) = szAtom s"
  by (induction i l b s rule: split_down.induct) (auto simp: Let_def)

lemma split_down_ok:
  "partial_inv s H {i} \<Longrightarrow> H i = Some (b, False) \<Longrightarrow> iLog \<le> b \<Longrightarrow>
   \<exists>H'. partial_inv (split_down i iLog b s) H' {i} \<and> H' i = Some (iLog, False)
      \<and> same_pool s (split_down i iLog b s) \<and> (\<forall>j. j \<noteq> i \<longrightarrow> in_use H' j = in_use H j) \<and> kept H {i} s (split_down i iLog b s)"
proof (induction i iLog b s arbitrary: H rule: split_down.induct)
  case (1 i iLog s)
  then show ?case by auto
next
  case (2 i iLog b s)
  show ?case
  proof (cases "Suc b > iLog")
    case False
    then have "Suc b = iLog" "split_down i iLog (Suc b) s = s" using 2(4) by simp_all
    then show ?thesis using 2(2,3) by (intro exI[of _ H]) (simp only: same_pool_simps kept_refl simp_thms)
  next
    case True
    let ?n = "i + 2 ^ b"
    let ?s = "set_ctrl ?n (32 OR b) s"
    let ?H = "H(i \<mapsto> (b, False), ?n \<mapsto> (b, False))"
    note p = 2(2)[unfolded partial_inv_def]
    have t: "tiled H (nBlock s)" using p by blast
    have hn: "H ?n = None" using tiled_disjoint[OF t 2(3), of ?n] by (cases "H ?n") auto
    have t': "tiled ?H (nBlock s)" using tiled_split[OF t 2(3)] .
    have "2 ^ Suc b dvd i" using tiledD(1)[OF t 2(3)] .
    then obtain q where q: "i = 2 ^ Suc b * q" by (elim dvdE)
    have "i div 2 ^ b = 2 * q" unfolding q power_Suc2 by (simp add: algebra_simps)
    then have odd: "odd (?n div 2 ^ b)" using div_add_self2[of "2 ^ b" i] by simp
    have F: "free_at ?H = free_at H" using 2(3) hn by (auto simp: free_at_def fun_eq_iff)
    have "nobuddy ?H" by (rule nobuddy_mono[of H]) (use p in \<open>auto split: if_splits\<close>)
    moreover have "ctrl_ok ?s ?H {i, ?n}" using p by (auto simp: ctrl_ok_def)
    ultimately have p1: "partial_inv ?s ?H {i, ?n}" using p t' by (simp add: partial_inv_def F)
    have b30: "b \<le> 30" using tiledD(3)[OF t 2(3)] by simp
    have "kept ?H {i, ?n} ?s (memsys5Link ?n b ?s)"
      by (rule Link_kept[OF partial_invD(4,5)[OF p1] b30 partial_invD(2)[OF p1]]) simp_all
    then have k1: "kept ?H {i, ?n} s (memsys5Link ?n b ?s)" by simp
    from Link_partial[OF p1, of ?n b]
    have "partial_inv (memsys5Link ?n b ?s) (?H(?n \<mapsto> (b, True))) ({i, ?n} - {?n})" using odd by simp
    moreover have "{i, ?n} - {?n} = {i}" by auto
    ultimately have "partial_inv (memsys5Link ?n b ?s) (?H(?n \<mapsto> (b, True))) {i}" by simp
    then obtain H' where H': "partial_inv (split_down i iLog b (memsys5Link ?n b ?s)) H' {i}"
        "H' i = Some (iLog, False)" "same_pool (memsys5Link ?n b ?s) (split_down i iLog b (memsys5Link ?n b ?s))"
        "\<forall>j. j \<noteq> i \<longrightarrow> in_use H' j = in_use (?H(?n \<mapsto> (b, True))) j"
        "kept (?H(?n \<mapsto> (b, True))) {i} (memsys5Link ?n b ?s) (split_down i iLog b (memsys5Link ?n b ?s))"
      using 2(1)[OF True refl refl refl, of "?H(?n \<mapsto> (b, True))"] True by fastforce
    have "\<forall>j. j \<noteq> i \<longrightarrow> in_use H' j = in_use H j"
      using H'(4) hn by (auto simp: in_use_def split: if_splits)
    moreover have "same_pool s (split_down i iLog b (memsys5Link ?n b ?s))"
      using same_pool_trans[OF _ H'(3), of s] by simp
    moreover have "kept H {i} s (split_down i iLog b (memsys5Link ?n b ?s))"
    proof (rule kept_trans[OF _ H'(5)])
      show "kept H {i} s (memsys5Link ?n b ?s)"
        by (rule kept_trans[OF kept_refl k1]) (use hn in auto)
    qed (use hn in auto)
    ultimately show ?thesis using H'(1,2) True by (intro exI[of _ H']) (simp add: Let_def)
  qed
qed

text \<open>What a successful Malloc does to the blocks in use, and why one fails.\<close>

lemma Malloc_ok:
  assumes inv: "partial_inv s H {}" and n: "0 < n" "n \<le> 2 ^ 30"
    and l: "full_size n (szAtom s) 0 = (sz, l)"
  shows "case memsys5Malloc n s of
      (None, s') \<Rightarrow> s' = s \<and> (\<forall>k. l \<le> k \<longrightarrow> k \<le> 30 \<longrightarrow> free_at H k = {})
    | (Some p, s') \<Rightarrow> \<exists>i H'. p = i * szAtom s \<and> partial_inv s' H' {} \<and> same_pool s s' \<and> kept H {} s s'
        \<and> in_use H i = None \<and> in_use H' = (in_use H)(i \<mapsto> l)"
proof -
  note p = inv[unfolded partial_inv_def]
  note L = full_size_bound[OF l partial_invD(1)[OF inv] n(2)]
  have lists: "lists_ok s (free_at H)" using p by blast
  have M: "memsys5Malloc n s = (case find (\<lambda>b. aiFreelist s b \<ge> 0) [l..<31] of None \<Rightarrow> (None, s)
     | Some b \<Rightarrow> let i = nat (aiFreelist s b) in
         (Some (i * szAtom s), set_ctrl i l (split_down i l b (memsys5Unlink i b s))))"
    using n l by (simp add: memsys5Malloc_def memsys5MallocUnsafe_def Let_def szAtom_split_down
        split: option.splits)
  show ?thesis
  proof (cases "find (\<lambda>b. aiFreelist s b \<ge> 0) [l..<31]")
    case None
    then have "\<forall>k. l \<le> k \<longrightarrow> k \<le> 30 \<longrightarrow> \<not> aiFreelist s k \<ge> 0" by (auto simp: find_None_iff)
    then show ?thesis using M None lists_ok_head(1)[OF lists] by auto
  next
    case (Some b)
    then have b: "l \<le> b" "b \<le> 30" "aiFreelist s b \<ge> 0" by (auto simp: find_Some_iff)
    define i where "i = nat (aiFreelist s b)"
    have "i \<in> free_at H b" using lists_ok_head(2)[OF lists b(2,3)] i_def by simp
    then have i: "H i = Some (b, True)" by (simp add: free_at_def)
    let ?u = "memsys5Unlink i b s" and ?H = "H(i \<mapsto> (b, False))"
    have F: "free_at ?H = (free_at H)(b := free_at H b - {i})" using i by (auto simp: free_at_def fun_eq_iff)
    have "lists_ok ?u (free_at ?H)" unfolding F
      using i p by (intro Unlink_lists lists b(2) free_disjoint) (simp_all add: free_at_def)
    moreover have "nobuddy ?H" by (rule nobuddy_mono[of H]) (use p in \<open>auto split: if_splits\<close>)
    moreover have "ctrl_ok ?u ?H {i}" using p by (auto simp: ctrl_ok_def)
    ultimately have "partial_inv ?u ?H {i}" using p tiled_mark[of H "nBlock s" i b True False] i by (simp add: partial_inv_def)
    from split_down_ok[OF this _ b(1)] obtain H' where
      H': "partial_inv (split_down i l b ?u) H' {i}" "H' i = Some (l, False)"
        "same_pool ?u (split_down i l b ?u)" "\<forall>j. j \<noteq> i \<longrightarrow> in_use H' j = in_use ?H j"
        "kept ?H {i} ?u (split_down i l b ?u)"
      by auto
    have "kept H {} s ?u" by (rule Unlink_kept[where n = "nBlock s"]) (use p b(2) i in auto)
    then have kept: "kept H {} s (split_down i l b ?u)"
      by (rule kept_trans[OF _ H'(5)]) (use i in auto)
    let ?s = "set_ctrl i l (split_down i l b ?u)"
    have "ctrl_ok ?s H' {}" using H'(1,2) by (auto simp: partial_inv_def ctrl_ok_def)
    then have "partial_inv ?s H' {}" using H'(1) by (simp add: partial_inv_def)
    moreover have "same_pool s ?s" using same_pool_trans[OF _ H'(3), of s] by simp
    moreover have "in_use H i = None" using i by (simp add: in_use_def)
    moreover have "in_use H' = (in_use H)(i \<mapsto> l)"
      using H'(2,4) by (auto simp: fun_eq_iff in_use_def)
    moreover have "kept H {} s ?s" using kept by simp
    ultimately show ?thesis using M Some unfolding i_def[symmetric] by (auto simp: i_def[symmetric] Let_def)
  qed
qed

section \<open>Free keeps the invariant\<close>

definition buddy_of :: "nat \<Rightarrow> nat \<Rightarrow> nat" where
  "buddy_of i k = (if odd (i div 2 ^ k) then i - 2 ^ k else i + 2 ^ k)"

lemma merge_step:
  assumes p: "partial_inv s H {i}" and i: "H i = Some (k, False)" and k: "k < 30"
    and b: "H (buddy_of i k) = Some (k, True)"
  defines "m \<equiv> min i (buddy_of i k)" and "h \<equiv> max i (buddy_of i k)"
  defines "H' \<equiv> H(m \<mapsto> (Suc k, False), h := None)"
  shows "partial_inv (set_ctrl h 0 (set_ctrl m (32 OR Suc k) (memsys5Unlink (buddy_of i k) k s))) H' {m}"
    "H' m = Some (Suc k, False)" "\<forall>j. j \<noteq> m \<longrightarrow> in_use H' j = (if j = i then None else in_use H j)"
    "h = m + 2 ^ k" "m \<noteq> h"
proof -
  note q = p[unfolded partial_inv_def]
  have t: "tiled H (nBlock s)" using q by blast
  have "2 ^ k dvd i" using tiledD(1)[OF t i] .
  then obtain a where a: "i = 2 ^ k * a" by (elim dvdE)
  have h: "h = m + 2 ^ k \<and> 2 ^ Suc k dvd m \<and> m \<noteq> h \<and> {m, h} = {i, buddy_of i k}"
  proof (cases "odd a")
    case True
    then obtain c where c: "a = 2 * c + 1" by (elim oddE)
    then have "buddy_of i k = 2 ^ Suc k * c" "i = 2 ^ Suc k * c + 2 ^ k"
      unfolding buddy_of_def a by (simp_all add: algebra_simps)
    then show ?thesis unfolding m_def h_def by auto
  next
    case False
    then have "even a" by simp
    then obtain c where c: "a = 2 * c" by (elim evenE)
    then have "i = 2 ^ Suc k * c" "buddy_of i k = i + 2 ^ k"
      unfolding buddy_of_def a by (simp_all add: algebra_simps)
    then show ?thesis unfolding m_def h_def by auto
  qed
  then have blocks: "\<exists>f. H m = Some (k, f)" "\<exists>g. H h = Some (k, g)" "buddy_of i k \<noteq> i"
    using i b by (auto simp: doubleton_eq_iff)
  have tiled': "tiled H' (nBlock s)"
    using tiled_merge[OF t, of m k] blocks h k unfolding H'_def by auto
  have F: "free_at H' = (free_at H)(k := free_at H k - {buddy_of i k})"
    using h i b blocks unfolding H'_def by (auto simp: free_at_def fun_eq_iff doubleton_eq_iff)
  have "lists_ok (memsys5Unlink (buddy_of i k) k s) (free_at H')"
    unfolding F using q k b by (intro Unlink_lists free_disjoint) (auto simp: free_at_def)
  moreover have "nobuddy H'"
    by (rule nobuddy_mono[of H]) (use q h in \<open>auto simp: H'_def split: if_splits\<close>)
  moreover have "ctrl_ok (set_ctrl h 0 (set_ctrl m (32 OR Suc k) (memsys5Unlink (buddy_of i k) k s))) H' {m}"
    using q h unfolding H'_def by (auto simp: ctrl_ok_def doubleton_eq_iff)
  ultimately show "partial_inv (set_ctrl h 0 (set_ctrl m (32 OR Suc k) (memsys5Unlink (buddy_of i k) k s))) H' {m}"
    using q tiled' by (simp add: partial_inv_def)
  show "H' m = Some (Suc k, False)" "h = m + 2 ^ k" "m \<noteq> h" using h by (auto simp: H'_def)
  show "\<forall>j. j \<noteq> m \<longrightarrow> in_use H' j = (if j = i then None else in_use H j)"
    using h b by (auto simp: H'_def in_use_def doubleton_eq_iff split: if_splits)
qed

lemma merge_up_ok:
  "partial_inv s H {i} \<Longrightarrow> H i = Some (k, False) \<Longrightarrow> aCtrl s i = 32 OR k \<Longrightarrow>
   merge_up i k s = (i', k', s') \<Longrightarrow>
   \<exists>H'. partial_inv s' H' {i'} \<and> H' i' = Some (k', False) \<and> aCtrl s' i' = 32 OR k' \<and> same_pool s s' \<and> kept H {i} s s'
      \<and> (k' < 30 \<longrightarrow> H' (buddy_of i' k') \<noteq> Some (k', True))
      \<and> (\<forall>j. j \<noteq> i' \<longrightarrow> in_use H' j = (if j = i then None else in_use H j))
      \<and> (i' \<noteq> i \<longrightarrow> in_use H i' = None)"
proof (induction "30 - k" arbitrary: i k s H rule: less_induct)
  case 1: less
  note p = 1(2)[unfolded partial_inv_def]
  have t: "tiled H (nBlock s)" using p by blast
  have k30: "k \<le> 30" using tiledD(3)[OF t 1(3)] .
  have stop: ?case if "k < 30 \<Longrightarrow> H (buddy_of i k) \<noteq> Some (k, True)" "merge_up i k s = (i, k, s)"
    using that 1(2-5) by (intro exI[of _ H]) auto
  let ?b = "buddy_of i k" and ?lower = "odd (i div 2 ^ k)"
  show ?case
  proof (cases "k < 30 \<and> (?lower \<or> ?b < nBlock s)")
    case False
    have "H ?b \<noteq> Some (k, True)" if "k < 30"
    proof
      assume "H ?b = Some (k, True)"
      then have "?b + 2 ^ k \<le> nBlock s" by (rule tiledD(2)[OF t])
      moreover have "(0 :: nat) < 2 ^ k" by simp
      ultimately have "?b < nBlock s" by linarith
      then show False using False that by blast
    qed
    moreover have "merge_up i k s = (i, k, s)"
      using False by (subst merge_up.simps) (auto simp: buddy_of_def Let_def)
    ultimately show ?thesis using stop by blast
  next
    case True
    have "(0 :: nat) < 2 ^ k" by simp
    then have "i < nBlock s" using tiledD(2)[OF t 1(3)] by linarith
    then have "?b < nBlock s" using True by (auto simp: buddy_of_def)
    then obtain l g where b: "H ?b = Some (l, g)" "l \<le> k"
      using buddy_head[OF t 1(3)] by (auto simp: buddy_of_def)
    have ne: "?b \<noteq> i"
    proof (cases ?lower)
      case True
      then have "i div 2 ^ k \<noteq> 0" by (metis even_zero)
      then have "i \<noteq> 0" by (metis div_0)
      moreover have "(2 :: nat) ^ k \<noteq> 0" by simp
      ultimately have "i - 2 ^ k \<noteq> i" by linarith
      then show ?thesis using True by (simp only: buddy_of_def if_True not_False_eq_True)
    qed (simp add: buddy_of_def)
    have c: "aCtrl s ?b = (if g then 32 OR l else l)" using p b ne by (auto simp: ctrl_ok_def)
    have eq: "aCtrl s ?b = 32 OR k \<longleftrightarrow> g \<and> l = k"
      unfolding c using ctrl_bits(3,4)[of k l] k30 b(2) by auto
    show ?thesis
    proof (cases "g \<and> l = k")
      case False
      have "merge_up i k s = (i, k, s)"
        using True False eq by (subst merge_up.simps) (auto simp: buddy_of_def Let_def)
      moreover have "H ?b \<noteq> Some (k, True)" using b False by auto
      ultimately show ?thesis using stop by blast
    next
      case free: True
      then have hb: "H ?b = Some (k, True)" using b by simp
      let ?m = "min i ?b" and ?h = "max i ?b"
      let ?s = "set_ctrl ?h 0 (set_ctrl ?m (32 OR Suc k) (memsys5Unlink ?b k s))"
      let ?H = "H(?m \<mapsto> (Suc k, False), ?h := None)"
      note ms = merge_step[OF 1(2,3) conjunct1[OF True] hb]
      have nb: "\<not> (\<not> ?lower \<and> ?b \<ge> nBlock s)" using True by auto
      have step: "merge_up i k s = merge_up ?m (Suc k) ?s"
      proof (cases "?b < i")
        case lt: True
        then have "merge_up i k s = merge_up ?b (Suc k) (set_ctrl i 0 (set_ctrl ?b (32 OR Suc k) (memsys5Unlink ?b k s)))"
          using True free eq nb by (subst merge_up.simps) (auto simp: buddy_of_def[symmetric] Let_def)
        then show ?thesis using lt by (simp add: min_def max_def)
      next
        case ge: False
        then have "merge_up i k s = merge_up i (Suc k) (set_ctrl ?b 0 (set_ctrl i (32 OR Suc k) (memsys5Unlink ?b k s)))"
          using True free eq nb by (subst merge_up.simps) (auto simp: buddy_of_def[symmetric] Let_def)
        then show ?thesis using ge by (simp add: min_def max_def)
      qed
      have cm: "aCtrl ?s ?m = 32 OR Suc k" using ms(5) by simp
      have IH: "\<exists>H'. partial_inv s' H' {i'} \<and> H' i' = Some (k', False) \<and> aCtrl s' i' = 32 OR k' \<and> same_pool ?s s' \<and> kept ?H {?m} ?s s'
          \<and> (k' < 30 \<longrightarrow> H' (buddy_of i' k') \<noteq> Some (k', True))
          \<and> (\<forall>j. j \<noteq> i' \<longrightarrow> in_use H' j = (if j = ?m then None else in_use ?H j))
          \<and> (i' \<noteq> ?m \<longrightarrow> in_use ?H i' = None)"
        by (rule 1(1)[OF _ ms(1,2) cm]) (use True 1(5) step in auto)
      then obtain H' where H': "partial_inv s' H' {i'}" "H' i' = Some (k', False)" "aCtrl s' i' = 32 OR k'"
          "same_pool ?s s'" "k' < 30 \<longrightarrow> H' (buddy_of i' k') \<noteq> Some (k', True)"
          "\<forall>j. j \<noteq> i' \<longrightarrow> in_use H' j = (if j = ?m then None else in_use ?H j)"
          "i' \<noteq> ?m \<longrightarrow> in_use ?H i' = None" "kept ?H {?m} ?s s'" by blast
      have "kept H {} s (memsys5Unlink ?b k s)"
        by (rule Unlink_kept[where n = "nBlock s"]) (use p True hb in auto)
      then have "kept H {i} s (memsys5Unlink ?b k s)" by (simp add: kept_def)
      then have "kept H {i} s ?s" by simp
      moreover have "?H j = Some (l, False) \<and> j \<notin> {?m}" if "H j = Some (l, False)" "j \<notin> {i}" for j l
        using that hb by (auto simp: min_def max_def)
      ultimately have kept: "kept H {i} s s'" by (intro kept_trans[OF _ H'(8)]) simp_all
      have "i' \<noteq> i \<longrightarrow> in_use H i' = None"
        using H'(7) hb by (auto simp: in_use_def min_def max_def split: if_splits)
      have "in_use H' j = (if j = i then None else in_use H j)" if "j \<noteq> i'" for j
        using H'(6) ms(3) that hb ne by (auto simp: in_use_def min_def split: if_splits)
      moreover have "same_pool s s'" using same_pool_trans[OF _ H'(4), of s] by simp
      ultimately show ?thesis using H'(1-3,5) \<open>i' \<noteq> i \<longrightarrow> in_use H i' = None\<close> kept by blast
    qed
  qed
qed

lemma Free_ok:
  assumes inv: "partial_inv s H {}" and i: "in_use H i = Some k"
  shows "\<exists>H'. partial_inv (memsys5Free (i * szAtom s) s) H' {}
    \<and> same_pool s (memsys5Free (i * szAtom s) s) \<and> in_use H' = (in_use H)(i := None)
    \<and> kept H {i} s (memsys5Free (i * szAtom s) s)"
proof -
  note p = inv[unfolded partial_inv_def]
  have hi: "H i = Some (k, False)" using i in_use_iff by blast
  have t: "tiled H (nBlock s)" and k: "k \<le> 30" using p hi tiledD(3)[of H "nBlock s" i k False] by blast+
  have c: "aCtrl s i = k" using p hi by (force simp: ctrl_ok_def)
  have div: "i * szAtom s div szAtom s = i" using partial_invD(1)[OF inv] by simp
  define e where "e = i + 2 ^ k - 1"
  have "(1 :: nat) \<le> 2 ^ k" by simp
  then have e: "i \<le> e" "e < i + 2 ^ k" unfolding e_def by linarith+
  have ne: "H e = None" if "e \<noteq> i" using tiled_disjoint[OF t hi, of e] e that by (cases "H e") auto
  define s1 where "s1 = set_ctrl i (32 OR k) (set_ctrl e (aCtrl (set_ctrl i (k OR 32) s) e OR 32) (set_ctrl i (k OR 32) s))"
  have "ctrl_ok s1 H {i}" using p ne by (auto simp: ctrl_ok_def s1_def)
  then have p1: "partial_inv s1 H {i}" using p by (simp add: partial_inv_def s1_def)
  have c1: "aCtrl s1 i = 32 OR k" by (simp add: s1_def)
  obtain i' k' s2 where m: "merge_up i k s1 = (i', k', s2)" by (metis prod_cases3)
  from merge_up_ok[OF p1 hi c1 m] obtain H' where H': "partial_inv s2 H' {i'}" "H' i' = Some (k', False)"
      "aCtrl s2 i' = 32 OR k'" "same_pool s1 s2" "k' < 30 \<longrightarrow> H' (buddy_of i' k') \<noteq> Some (k', True)"
      "\<forall>j. j \<noteq> i' \<longrightarrow> in_use H' j = (if j = i then None else in_use H j)"
      "i' \<noteq> i \<longrightarrow> in_use H i' = None" "kept H {i} s1 s2" by blast
  have F: "memsys5Free (i * szAtom s) s = memsys5Link i' k' s2"
    by (simp only: memsys5Free_def memsys5FreeUnsafe_def div Let_def c ctrl_bits(2)[OF k k]
        m[unfolded s1_def e_def] prod.case)
  let ?H = "H'(i' \<mapsto> (k', True))"
  have "partial_inv (memsys5Link i' k' s2) ?H ({i'} - {i'})"
    by (rule Link_partial[OF H'(1,2,3)]) (use H'(5) in \<open>auto simp: buddy_of_def\<close>)
  moreover have "in_use ?H = (in_use H)(i := None)"
  proof
    fix j
    show "in_use ?H j = ((in_use H)(i := None)) j"
    proof (cases "j = i'")
      case False
      then show ?thesis using H'(6) by (auto simp: in_use_def)
    next
      case True
      have "in_use H i' = None \<or> i' = i" using H'(7) by blast
      then show ?thesis using True by (auto simp: in_use_def)
    qed
  qed
  moreover have "same_pool s (memsys5Link i' k' s2)" using H'(4) same_pool_trans[of s s1 s2]
    by (simp add: s1_def)
  moreover have "kept H {i} s (memsys5Link i' k' s2)"
  proof (rule kept_trans)
    show "kept H {i} s s2" using H'(8) by (simp add: s1_def)
    have k': "k' \<le> 30" using tiledD(3)[OF partial_invD(4)[OF H'(1)] H'(2)] .
    show "kept H' {i'} s2 (memsys5Link i' k' s2)"
      by (rule Link_kept[OF partial_invD(4,5)[OF H'(1)] k' partial_invD(2)[OF H'(1)]]) (use H'(2) in auto)
    show "szAtom s2 = szAtom s" using H'(4) by (simp add: same_pool_def s1_def)
    show "H' j = Some (l, False) \<and> j \<notin> {i'}" if "H j = Some (l, False)" "j \<notin> {i}" for j l
    proof -
      have "in_use H j = Some l" using that(1) in_use_iff by blast
      then have "j \<noteq> i'" using H'(7) that(2) by auto
      then show ?thesis using H'(6) \<open>in_use H j = Some l\<close> that(2) in_use_iff[of H' j l] by simp
    qed
  qed
  ultimately show ?thesis unfolding F by auto
qed

section \<open>Init establishes the invariant\<close>

lemma tiled_snoc:
  assumes t: "tiled H n" and k: "2 ^ k dvd n" "k \<le> 30"
  shows "tiled (H(n \<mapsto> (k, f))) (n + 2 ^ k)"
proof -
  have pos: "(0 :: nat) < 2 ^ l" for l by simp
  have below: "i < n" if "H i = Some (l, g)" for i l g
    using tiledD(2)[OF t that] pos[of l] by linarith
  show ?thesis
  proof (rule tiledI)
    fix i l g assume "(H(n \<mapsto> (k, f))) i = Some (l, g)"
    then show "2 ^ l dvd i \<and> i + 2 ^ l \<le> n + 2 ^ k \<and> l \<le> 30"
      using tiledD[OF t, of i l g] k by (auto split: if_splits)
  next
    fix i j l g assume h: "(H(n \<mapsto> (k, f))) i = Some (l, g)" "(H(n \<mapsto> (k, f))) j \<noteq> None" "i < j"
    have "i \<noteq> n"
    proof
      assume "i = n"
      then obtain l' g' where "H j = Some (l', g')" using h(2,3) by auto
      then show False using below[of j] h(3) \<open>i = n\<close> by auto
    qed
    then have "H i = Some (l, g)" using h(1) by auto
    then show "i + 2 ^ l \<le> j"
      using tiledD(2)[OF t, of i l g] tiled_disjoint[OF t, of i l g j] h(2,3) by (auto split: if_splits)
  next
    fix x assume x: "x < n + 2 ^ k"
    show "\<exists>i l g. (H(n \<mapsto> (k, f))) i = Some (l, g) \<and> i \<le> x \<and> x < i + 2 ^ l"
    proof (cases "x < n")
      case True
      then obtain i l g where i: "H i = Some (l, g)" "i \<le> x" "x < i + 2 ^ l" by (rule tiled_cover[OF t])
      then show ?thesis using below[OF i(1)] by (intro exI[of _ i] exI[of _ l] exI[of _ g]) simp
    next
      case False
      then show ?thesis using x by (intro exI[of _ n] exI[of _ k] exI[of _ f]) simp
    qed
  qed
qed

definition init_inv :: "nat \<Rightarrow> nat \<times> mem5 \<Rightarrow> bool" where
  "init_inv m st \<longleftrightarrow> (case st of (off, s) \<Rightarrow> \<exists>H. 8 \<le> szAtom s \<and> nBlock s < 2 ^ 31 \<and> tiled H off \<and> lists_ok s (free_at H)
     \<and> ctrl_ok s H {} \<and> nobuddy H \<and> off \<le> nBlock s \<and> 2 ^ m dvd off \<and> nBlock s - off < 2 ^ m
     \<and> (\<forall>i k f. H i = Some (k, f) \<longrightarrow> m \<le> k \<and> f))"

lemma init_block_ok:
  assumes "init_inv (Suc m) (off, s)" "m \<le> 30"
  shows "init_inv m (init_block m (off, s))"
proof -
  obtain H where H: "8 \<le> szAtom s" "tiled H off" "lists_ok s (free_at H)" "ctrl_ok s H {}" "nobuddy H"
    "off \<le> nBlock s" "2 ^ Suc m dvd off" "nBlock s - off < 2 ^ Suc m"
    "\<And>i k f. H i = Some (k, f) \<Longrightarrow> Suc m \<le> k \<and> f" "nBlock s < 2 ^ 31"
    using assms(1) unfolding init_inv_def by auto
  have dvd: "2 ^ m dvd off" using H(7) by (meson dvd_trans le_imp_power_dvd lessI less_imp_le)
  show ?thesis
  proof (cases "off + 2 ^ m \<le> nBlock s")
    case False
    then have "nBlock s - off < 2 ^ m" using H(6) by (simp add: less_diff_conv2)
    then have "init_inv m (off, s)"
      unfolding init_inv_def using H dvd by (auto intro!: exI[of _ H] dest: Suc_leD)
    then show ?thesis using False by (simp add: init_block_def)
  next
    case True
    let ?s = "memsys5Link off m (set_ctrl off (m OR 32) s)" and ?H = "H(off \<mapsto> (m, True))"
    have none: "H off = None" "H (off + 2 ^ m) = None"
    proof -
      have "H j = None" if "off \<le> j" for j
      proof (cases "H j")
        case (Some kf)
        then have "j + 2 ^ fst kf \<le> off" using tiledD(2)[OF H(2), of j "fst kf" "snd kf"] by simp
        moreover have "(0 :: nat) < 2 ^ fst kf" by simp
        ultimately show ?thesis using that by linarith
      qed
      then show "H off = None" "H (off + 2 ^ m) = None" by simp_all
    qed
    have t: "tiled ?H (off + 2 ^ m)" using tiled_snoc[OF H(2) dvd assms(2)] .
    have F: "free_at ?H = (free_at H)(m := insert off (free_at H m))"
      using none by (auto simp: free_at_def fun_eq_iff)
    have lt: "i < 2 ^ 31" if "H i = Some (k, f)" for i k f
      using tiledD(2)[OF H(2) that] H(6,10) by simp
    have l: "lists_ok ?s (free_at ?H)" unfolding F
      using H(1,3,6,10) none assms(2) lt by (intro Link_lists free_disjoint) (auto simp: free_at_def)
    have c: "ctrl_ok ?s ?H {}"
      using H(4) ctrl_bits(5)[OF assms(2,2)] none by (auto simp: ctrl_ok_def)
    have nb: "nobuddy ?H" unfolding nobuddy_def
    proof (intro allI impI)
      fix i k assume i: "?H i = Some (k, True)" "k < 30" "even (i div 2 ^ k)"
      show "?H (i + 2 ^ k) \<noteq> Some (k, True)"
      proof (cases "i = off")
        case True
        then show ?thesis using i none by auto
      next
        case False
        then have hi: "H i = Some (k, True)" using i(1) by simp
        then have "m < k" using H(9) by fastforce
        then show ?thesis using H(5) hi i(2,3) unfolding nobuddy_def by auto
      qed
    qed
    have lev: "\<forall>i k f. ?H i = Some (k, f) \<longrightarrow> m \<le> k \<and> f"
      using H(9) Suc_leD by (fastforce split: if_splits)
    have rest: "nBlock s - (off + 2 ^ m) < 2 ^ m" "2 ^ m dvd off + 2 ^ m"
      using H(8) True dvd by (simp_all add: less_diff_conv2)
    have "init_inv m (off + 2 ^ m, ?s)"
      unfolding init_inv_def prod.case using t l c nb lev True H(1,10) rest
      by (intro exI[of _ ?H]) (simp only: pool_simps simp_thms)
    then show ?thesis using True by (simp add: init_block_def)
  qed
qed

lemma init_fold_ok: "init_inv m st \<Longrightarrow> m \<le> 31 \<Longrightarrow> init_inv 0 (fold init_block (rev [0..<m]) st)"
proof (induction m arbitrary: st)
  case (Suc m)
  obtain off s where st: "st = (off, s)" by (cases st)
  have "init_inv m (init_block m st)" using init_block_ok[of m off s] Suc.prems st by simp
  then show ?case using Suc.IH[of "init_block m st"] Suc.prems by simp
qed simp

lemma Init_ok:
  assumes "nHeap < 2 ^ 31"
  shows "\<exists>H. partial_inv (memsys5Init nHeap mnReq s) H {} \<and> in_use H = Map.empty"
proof -
  let ?a = "fst (full_size 8 (2 ^ memsys5Log mnReq) 0)"
  let ?s = "s\<lparr>szAtom := ?a, nBlock := nHeap div (?a + 1),
        aiFreelist := (\<lambda>ii. if ii \<le> 30 then -1 else aiFreelist s ii)\<rparr>"
  obtain sz l where f: "full_size 8 (2 ^ memsys5Log mnReq) 0 = (sz, l)" by (rule prod.exhaust)
  have pos: "8 \<le> ?a" using full_size_ok[OF f] f by simp
  have n: "nHeap div (?a + 1) < 2 ^ 31" using assms div_le_dividend[of nHeap "?a + 1"] by linarith
  have "free_at Map.empty = (\<lambda>_. {})" by (auto simp: free_at_def)
  then have "lists_ok ?s (free_at Map.empty)" by (auto simp: lists_ok_def intro!: exI[of _ "[]"])
  moreover have "tiled Map.empty 0" by (simp add: tiled_def)
  ultimately have "init_inv 31 (0, ?s)"
    unfolding init_inv_def prod.case using pos n
    by (intro exI[of _ Map.empty]) (simp add: ctrl_ok_def nobuddy_def)
  from init_fold_ok[OF this] have i: "init_inv 0 (fold init_block (rev [0..<31]) (0, ?s))" by simp
  obtain off s' where r: "fold init_block (rev [0..<31]) (0, ?s) = (off, s')" by (rule prod.exhaust)
  from i obtain H where H: "8 \<le> szAtom s' \<and> nBlock s' < 2 ^ 31" "tiled H off" "lists_ok s' (free_at H)" "ctrl_ok s' H {}" "nobuddy H"
    "off \<le> nBlock s'" "nBlock s' - off < 2 ^ 0" "\<And>i k f. H i = Some (k, f) \<Longrightarrow> f"
    unfolding r init_inv_def prod.case by blast
  have "off = nBlock s'" using H(6,7) by simp
  moreover have "memsys5Init nHeap mnReq s = s'"
    unfolding memsys5Init_def Let_def using r by simp
  moreover have "in_use H = Map.empty" using H(8) by (auto simp: in_use_def fun_eq_iff split: option.splits bool.splits)
  ultimately show ?thesis using H by (auto simp: partial_inv_def intro!: exI[of _ H])
qed

section \<open>Nothing in use means nothing fragmented\<close>

lemma all_free_no_small:
  "tiled H n \<Longrightarrow> nobuddy H \<Longrightarrow> in_use H = Map.empty \<Longrightarrow> H y = Some (k, True) \<Longrightarrow>
   even (y div 2 ^ k) \<Longrightarrow> k < 30 \<Longrightarrow> y + 2 ^ k < n \<Longrightarrow> y + 2 ^ Suc k \<le> n \<Longrightarrow> False"
proof (induction k arbitrary: y rule: less_induct)
  case (less k)
  let ?b = "y + 2 ^ k"
  obtain l g where b: "H ?b = Some (l, g)" "l \<le> k"
    using buddy_head[OF less.prems(1,4,7)] less.prems(5) by auto
  have "g" using less.prems(3) b(1) in_use_iff[of H ?b l] by (cases g) auto
  show False
  proof (cases "l = k")
    case True
    then show ?thesis using less.prems(2,4,5,6) b \<open>g\<close> unfolding nobuddy_def by auto
  next
    case False
    then have "l < k" using b(2) by simp
    have "2 ^ k dvd y" using tiledD(1)[OF less.prems(1,4)] .
    moreover have "2 ^ Suc l dvd (2 ^ k :: nat)" using \<open>l < k\<close> by (intro le_imp_power_dvd) simp
    ultimately have "2 ^ Suc l dvd ?b" by (meson dvd_add dvd_trans)
    then have "even (?b div 2 ^ l)" by (auto elim!: dvdE)
    moreover have "2 ^ Suc l \<le> (2 ^ k :: nat)" using \<open>l < k\<close> by (intro power_increasing) auto
    moreover from this have "?b + 2 ^ Suc l \<le> n" using less.prems(8) by simp
    moreover have "(0 :: nat) < 2 ^ l" by simp
    then have "?b + 2 ^ l < n" using \<open>?b + 2 ^ Suc l \<le> n\<close> by (simp only: power_Suc)
    ultimately show ?thesis
      using less.IH[OF \<open>l < k\<close> less.prems(1-3), of ?b] b(1) \<open>g\<close> less.prems(6) \<open>l < k\<close> by auto
  qed
qed

lemma all_free_big_block:
  assumes "partial_inv s H {}" "in_use H = Map.empty" "2 ^ l \<le> nBlock s" "l \<le> 30"
  shows "\<exists>k. l \<le> k \<and> k \<le> 30 \<and> free_at H k \<noteq> {}"
proof -
  note p = assms(1)[unfolded partial_inv_def]
  have t: "tiled H (nBlock s)" using p by blast
  have "(0 :: nat) < 2 ^ l" by simp
  then have "0 < nBlock s" using assms(3) by linarith
  then obtain i k f where i: "H i = Some (k, f)" "i \<le> 0" by (rule tiled_cover[OF t])
  then have h: "H 0 = Some (k, True)"
    using assms(2) in_use_iff[of H 0 k] by (cases f) auto
  have "l \<le> k"
  proof (rule ccontr)
    assume "\<not> l \<le> k"
    then have "2 ^ Suc k \<le> (2 ^ l :: nat)" by (intro power_increasing) auto
    then have "2 ^ Suc k \<le> nBlock s" using assms(3) by linarith
    moreover have "k < 30" using \<open>\<not> l \<le> k\<close> assms(4) by simp
    moreover have "(0 :: nat) < 2 ^ k" by simp
    then have "0 + 2 ^ k < nBlock s" using \<open>2 ^ Suc k \<le> nBlock s\<close> by (simp only: power_Suc)
    ultimately show False using all_free_no_small[OF t _ assms(2) h] p by simp
  qed
  then show ?thesis using tiledD(3)[OF t h] h by (intro exI[of _ k]) (auto simp: free_at_def)
qed

section \<open>A client's calls\<close>

text \<open>
  The states a well-behaved client can bring the allocator into, with the map \<open>A\<close> of the blocks it
  holds (offset and size in bytes): it frees and resizes only blocks it holds, resizes to sizes
  \<open>memsys5Roundup\<close> has returned, and writes only into its own blocks.
\<close>

inductive mem5_run :: "mem5 \<Rightarrow> (nat \<rightharpoonup> nat) \<Rightarrow> bool" where
  start: "nHeap < 2 ^ 31 \<Longrightarrow> mem5_run (memsys5Init nHeap mnReq s) Map.empty"
| malloc: "mem5_run s A \<Longrightarrow> memsys5Malloc n s = (Some p, s') \<Longrightarrow> mem5_run s' (A(p \<mapsto> memsys5Size p s'))"
| no_memory: "mem5_run s A \<Longrightarrow> memsys5Malloc n s = (None, s') \<Longrightarrow> mem5_run s' A"
| free: "mem5_run s A \<Longrightarrow> A p = Some sz \<Longrightarrow> mem5_run (memsys5Free p s) (A(p := None))"
| realloc: "mem5_run s A \<Longrightarrow> A p = Some sz \<Longrightarrow> memsys5Realloc p (memsys5Roundup n s) s = (Some q, s') \<Longrightarrow>
    mem5_run s' ((A(p := None))(q \<mapsto> memsys5Size q s'))"
| client_write: "mem5_run s A \<Longrightarrow> A p = Some sz \<Longrightarrow> off < sz \<Longrightarrow>
    mem5_run (s\<lparr>zPool := (zPool s)(p + off := v)\<rparr>) A"

definition held :: "nat \<Rightarrow> (nat \<rightharpoonup> nat) \<Rightarrow> nat \<rightharpoonup> nat" where
  "held atom U p = (if atom dvd p then map_option (\<lambda>k. atom * 2 ^ k) (U (p div atom)) else None)"

definition mem5_inv :: "mem5 \<Rightarrow> (nat \<rightharpoonup> nat) \<Rightarrow> bool" where
  "mem5_inv s A \<longleftrightarrow> (\<exists>H. partial_inv s H {} \<and> A = held (szAtom s) (in_use H))"

lemma held_update: "a > 0 \<Longrightarrow> held a (U(i := x)) = (held a U)(i * a := map_option (\<lambda>k. a * 2 ^ k) x)"
  by (auto simp: held_def fun_eq_iff)

lemma heldE:
  assumes "held a U p = Some sz" "a > 0"
  obtains i k where "p = i * a" "U i = Some k" "sz = a * 2 ^ k"
  using assms by (auto simp: held_def split: if_splits elim!: dvdE)

lemma Size_in_use:
  assumes "partial_inv s H {}" "in_use H i = Some k"
  shows "memsys5Size (i * szAtom s) s = szAtom s * 2 ^ k"
proof -
  note p = assms(1)[unfolded partial_inv_def]
  have h: "H i = Some (k, False)" using assms(2) in_use_iff by blast
  have "k \<le> 30" using tiledD(3)[of H "nBlock s" i k False] p h by blast
  moreover have "aCtrl s i = k" using p h by (force simp: ctrl_ok_def)
  ultimately show ?thesis using p ctrl_bits(2)[of k k] by (simp add: memsys5Size_def)
qed

text \<open>Clients write into the blocks they hold, which leaves the links alone.\<close>

lemma partial_inv_bytes:
  assumes p: "partial_inv s H X" and i: "H i = Some (k, False)"
    and d: "\<And>b. b < i * szAtom s \<or> (i + 2 ^ k) * szAtom s \<le> b \<Longrightarrow> d b = zPool s b"
  shows "partial_inv (s\<lparr>zPool := d\<rparr>) H X"
proof -
  let ?s = "s\<lparr>zPool := d\<rparr>"
  have links: "link_next ?s x = link_next s x \<and> link_prev ?s x = link_prev s x" if x: "x \<in> free_at H l" for x l
  proof -
    have byte: "d (x * szAtom s + n) = zPool s (x * szAtom s + n)" if "n < 8" for n
    proof (rule d, rule ccontr)
      let ?b = "x * szAtom s + n"
      assume "\<not> (?b < i * szAtom s \<or> (i + 2 ^ k) * szAtom s \<le> ?b)"
      then have b: "i * szAtom s \<le> ?b" "?b < (i + 2 ^ k) * szAtom s" by linarith+
      have "?b < x * szAtom s \<or> x * szAtom s + 8 \<le> ?b"
        using x i by (intro other_block[OF partial_invD(4)[OF p] i _ _ partial_invD(2)[OF p] b]) (auto simp: free_at_def)
      then show False using that by simp
    qed
    have "get_int d (x * szAtom s + m) = get_int (zPool s) (x * szAtom s + m)" if "m = 0 \<or> m = 4" for m
      using byte[of m] byte[of "m + 1"] byte[of "m + 2"] byte[of "m + 3"] that unfolding get_int_def add.assoc by auto
    from this[of 0] this[of 4] show ?thesis by (simp add: link_next_def link_prev_def)
  qed
  have "lists_ok ?s (free_at H)" unfolding lists_ok_def
  proof (intro allI impI)
    fix l :: nat assume "l \<le> 30"
    then obtain xs where xs: "distinct xs" "set xs = free_at H l" "chain (link_next s) (link_prev s) (-1) xs (aiFreelist s l)"
      by (rule lists_ok_D[OF partial_invD(5)[OF p]])
    then have "chain (link_next ?s) (link_prev ?s) (-1) xs (aiFreelist ?s l)"
      using links by (subst chain_cong[of xs _ "link_next s" _ "link_prev s"]) auto
    then show "\<exists>xs. distinct xs \<and> set xs = free_at H l \<and> chain (link_next ?s) (link_prev ?s) (-1) xs (aiFreelist ?s l)"
      using xs(1,2) by blast
  qed
  then show ?thesis using p by (simp add: partial_inv_def ctrl_ok_def)
qed

lemma mem5_inv_bytes:
  assumes "mem5_inv s A" "A p = Some sz" "\<And>b. b < p \<or> p + sz \<le> b \<Longrightarrow> d b = zPool s b"
  shows "mem5_inv (s\<lparr>zPool := d\<rparr>) A"
proof -
  obtain H where H: "partial_inv s H {}" "A = held (szAtom s) (in_use H)" using assms(1) by (auto simp: mem5_inv_def)
  obtain i k where i: "p = i * szAtom s" "in_use H i = Some k" "sz = szAtom s * 2 ^ k"
    using heldE[OF assms(2)[unfolded H(2)] partial_invD(1)[OF H(1)]] by blast
  have "partial_inv (s\<lparr>zPool := d\<rparr>) H {}"
    using i assms(3) by (intro partial_inv_bytes[OF H(1)]) (auto simp: in_use_iff algebra_simps)
  then show ?thesis using H(2) by (auto simp: mem5_inv_def)
qed

text \<open>What is stored in the blocks \<open>A\<close> of the client is left alone.\<close>

definition stored_kept :: "(nat \<rightharpoonup> nat) \<Rightarrow> mem5 \<Rightarrow> mem5 \<Rightarrow> bool" where
  "stored_kept A s s' \<longleftrightarrow> (\<forall>r l a. A r = Some l \<longrightarrow> a < l \<longrightarrow> zPool s' (r + a) = zPool s (r + a))"

lemma kept_held:
  assumes "kept H X s s'" "0 < szAtom s" "A = held (szAtom s) (in_use H)"
    and "\<And>r l. B r = Some l \<Longrightarrow> A r = Some l \<and> r div szAtom s \<notin> X"
  shows "stored_kept B s s'"
  unfolding stored_kept_def
proof (intro allI impI)
  fix r l a assume h: "B r = Some l" "a < l"
  have "held (szAtom s) (in_use H) r = Some l" using assms(3,4) h(1) by blast
  from heldE[OF this assms(2)] obtain i k where i: "r = i * szAtom s" "in_use H i = Some k" "l = szAtom s * 2 ^ k" .
  have "i \<notin> X" using assms(2) assms(4)[OF h(1)] i(1) by simp
  moreover have "i * szAtom s \<le> r + a" "r + a < (i + 2 ^ k) * szAtom s" using h(2) i by (simp_all add: algebra_simps)
  ultimately show "zPool s' (r + a) = zPool s (r + a)"
    using assms(1) i(2) unfolding kept_def in_use_iff by blast
qed

lemma Malloc_cases:
  assumes inv: "mem5_inv s A" and m: "memsys5Malloc n s = (r, s')"
  shows "(r = None \<and> s' = s) \<or>
    (\<exists>p. r = Some p \<and> 0 < n \<and> n \<le> 2 ^ 30 \<and> A p = None \<and> mem5_inv s' (A(p \<mapsto> memsys5Size p s'))
       \<and> memsys5Size p s' = memsys5Roundup n s \<and> n \<le> memsys5Size p s' \<and> same_pool s s' \<and> stored_kept A s s')"
proof (cases "0 < n \<and> n \<le> 2 ^ 30")
  case False
  then show ?thesis using m by (auto simp: memsys5Malloc_def memsys5MallocUnsafe_def split: if_splits)
next
  case True
  obtain H where H: "partial_inv s H {}" "A = held (szAtom s) (in_use H)" using inv by (auto simp: mem5_inv_def)
  have a: "szAtom s > 0" using partial_invD(1)[OF H(1)] .
  obtain sz l where f: "full_size n (szAtom s) 0 = (sz, l)" by (rule prod.exhaust)
  have M: "case (r, s') of (None, s') \<Rightarrow> s' = s \<and> (\<forall>k. l \<le> k \<longrightarrow> k \<le> 30 \<longrightarrow> free_at H k = {})
    | (Some p, s') \<Rightarrow> \<exists>i H'. p = i * szAtom s \<and> partial_inv s' H' {} \<and> same_pool s s' \<and> kept H {} s s'
        \<and> in_use H i = None \<and> in_use H' = (in_use H)(i \<mapsto> l)"
    using Malloc_ok[OF H(1) _ _ f] True unfolding m by blast
  show ?thesis
  proof (cases r)
    case None
    then show ?thesis using M by simp
  next
    case (Some p)
    then obtain i H' where i: "p = i * szAtom s" "partial_inv s' H' {}" "same_pool s s'"
        "in_use H i = None" "in_use H' = (in_use H)(i \<mapsto> l)" "kept H {} s s'" using M by auto
    have "stored_kept A s s'" by (rule kept_held[OF i(6) a H(2)]) simp
    have sa: "szAtom s' = szAtom s" using i(3) by (simp add: same_pool_def)
    have size: "memsys5Size p s' = szAtom s * 2 ^ l" using Size_in_use[OF i(2), of i l] i(1,5) sa by simp
    have "A p = None" using H(2) i(1,4) a by (simp add: held_def)
    moreover have "mem5_inv s' (A(p \<mapsto> memsys5Size p s'))"
      unfolding mem5_inv_def using i H(2) held_update[OF a] size sa by (intro exI[of _ H']) simp
    moreover have "memsys5Size p s' = memsys5Roundup n s" "n \<le> memsys5Size p s'"
      using size full_size_bound[OF f a] f True by (simp_all add: memsys5Roundup_def)
    ultimately show ?thesis using Some i(3) True \<open>stored_kept A s s'\<close> by blast
  qed
qed

lemma Free_inv:
  assumes inv: "mem5_inv s A" and p: "A p = Some sz"
  shows "mem5_inv (memsys5Free p s) (A(p := None))" "same_pool s (memsys5Free p s)"
    "stored_kept (A(p := None)) s (memsys5Free p s)"
proof -
  obtain H where H: "partial_inv s H {}" "A = held (szAtom s) (in_use H)" using inv by (auto simp: mem5_inv_def)
  have a: "szAtom s > 0" using partial_invD(1)[OF H(1)] .
  obtain i k where i: "p = i * szAtom s" "in_use H i = Some k" using heldE[OF p[unfolded H(2)] a] by blast
  from Free_ok[OF H(1) i(2)] obtain H' where H': "partial_inv (memsys5Free p s) H' {}"
      "same_pool s (memsys5Free p s)" "in_use H' = (in_use H)(i := None)" "kept H {i} s (memsys5Free p s)" unfolding i(1) by blast
  show "stored_kept (A(p := None)) s (memsys5Free p s)"
  proof (rule kept_held[OF H'(4) a H(2)])
    show "A r = Some l \<and> r div szAtom s \<notin> {i}" if "(A(p := None)) r = Some l" for r l
    proof -
      have "A r = Some l" "r \<noteq> p" using that by (auto split: if_splits)
      moreover obtain j where "r = j * szAtom s" using heldE[OF \<open>A r = Some l\<close>[unfolded H(2)] a] by blast
      ultimately show ?thesis using i(1) a by auto
    qed
  qed
  show "same_pool s (memsys5Free p s)" by (rule H'(2))
  have "szAtom (memsys5Free p s) = szAtom s" using H'(2) by (simp add: same_pool_def)
  then show "mem5_inv (memsys5Free p s) (A(p := None))"
    unfolding mem5_inv_def using H'(1,3) H(2) held_update[OF a, of "in_use H" i None] i(1)
    by (intro exI[of _ H']) simp
qed

lemma Held_size:
  assumes "mem5_inv s A" "A p = Some sz"
  shows "memsys5Size p s = sz"
proof -
  obtain H where H: "partial_inv s H {}" "A = held (szAtom s) (in_use H)" using assms(1) by (auto simp: mem5_inv_def)
  obtain i k where "p = i * szAtom s" "in_use H i = Some k" "sz = szAtom s * 2 ^ k"
    using heldE[OF assms(2)[unfolded H(2)] partial_invD(1)[OF H(1)]] by blast
  then show ?thesis using Size_in_use[OF H(1)] by simp
qed

lemma inv_disjoint:
  assumes inv: "mem5_inv s A" and p: "A p = Some m"
  shows "p + m \<le> nBlock s * szAtom s"
    "A q = Some l \<Longrightarrow> p \<noteq> q \<Longrightarrow> p + m \<le> q \<or> q + l \<le> p"
proof -
  obtain H where H: "partial_inv s H {}" "A = held (szAtom s) (in_use H)" using inv by (auto simp: mem5_inv_def)
  note a = partial_invD(1)[OF H(1)] and t = partial_invD(4)[OF H(1)]
  obtain i k where i: "p = i * szAtom s" "in_use H i = Some k" "m = szAtom s * 2 ^ k"
    using heldE[OF p[unfolded H(2)] a] by blast
  have hi: "H i = Some (k, False)" using i(2) in_use_iff by blast
  have "(i + 2 ^ k) * szAtom s \<le> nBlock s * szAtom s" using tiledD(2)[OF t hi] by simp
  then show "p + m \<le> nBlock s * szAtom s" using i by (simp add: algebra_simps)
  assume q: "A q = Some l" "p \<noteq> q"
  obtain j k' where j: "q = j * szAtom s" "in_use H j = Some k'" "l = szAtom s * 2 ^ k'"
    using heldE[OF q(1)[unfolded H(2)] a] by blast
  have hj: "H j = Some (k', False)" using j(2) in_use_iff by blast
  have "i \<noteq> j" using q(2) i(1) j(1) by auto
  then consider "i + 2 ^ k \<le> j" | "j + 2 ^ k' \<le> i"
    using tiled_disjoint[OF t hi, of j] tiled_disjoint[OF t hj, of i] hi hj by fastforce
  then show "p + m \<le> q \<or> q + l \<le> p"
  proof cases
    case 1
    then have "(i + 2 ^ k) * szAtom s \<le> j * szAtom s" by simp
    then show ?thesis using i j by (simp add: algebra_simps)
  next
    case 2
    then have "(j + 2 ^ k') * szAtom s \<le> i * szAtom s" by simp
    then show ?thesis using i j by (simp add: algebra_simps)
  qed
qed

lemma Realloc_cases:
  assumes inv: "mem5_inv s A" and p: "A p = Some sz" and r: "memsys5Realloc p n s = (Some q, s')"
  shows "(q = p \<and> s' = s \<and> n \<le> sz) \<or>
    (q \<noteq> p \<and> A q = None \<and> sz < n \<and> n \<le> memsys5Size q s' \<and> mem5_inv s' ((A(p := None))(q \<mapsto> memsys5Size q s'))
      \<and> (\<forall>a < sz. zPool s' (q + a) = zPool s (p + a)) \<and> stored_kept (A(p := None)) s s')"
proof -
  have sz: "memsys5Size p s = sz" using Held_size[OF inv p] .
  have n: "n \<noteq> 0" using r by (intro notI) (simp add: memsys5Realloc_def)
  show ?thesis
  proof (cases "n \<le> sz")
    case True
    then show ?thesis using r n sz by (simp add: memsys5Realloc_def)
  next
    case False
    obtain x s1 where m: "memsys5Malloc n s = (x, s1)" by (rule prod.exhaust)
    from Malloc_cases[OF inv m] show ?thesis
    proof (elim disjE conjE exE)
      assume "x = None"
      then show ?thesis using r n sz False m by (simp add: memsys5Realloc_def)
    next
      fix p' assume c: "x = Some p'" "A p' = None" "mem5_inv s1 (A(p' \<mapsto> memsys5Size p' s1))"
        "n \<le> memsys5Size p' s1" "same_pool s s1" "stored_kept A s s1"
      let ?S = "memsys5Size p' s1" and ?s2 = "memcpy p' p sz s1"
      have q: "q = p'" "s' = memsys5Free p ?s2" using r n sz False m c(1) by (auto simp: memsys5Realloc_def)
      have "mem5_inv ?s2 (A(p' \<mapsto> ?S))"
        unfolding memcpy_def by (rule mem5_inv_bytes[OF c(3)]) (use False c(4) in auto)
      moreover have ne: "p \<noteq> p'" using p c(2) by auto
      ultimately have f: "mem5_inv s' ((A(p' \<mapsto> ?S))(p := None))" "stored_kept ((A(p' \<mapsto> ?S))(p := None)) ?s2 s'"
        using Free_inv[of ?s2 "A(p' \<mapsto> ?S)" p sz] p unfolding q(2) by simp_all
      have up: "(A(p' \<mapsto> ?S))(p := None) = (A(p := None))(q \<mapsto> ?S)" using ne q(1) by auto
      have size: "memsys5Size q s' = ?S" using Held_size[OF f(1), of q ?S] ne q(1) by simp
      have copied: "zPool s' (q + a) = zPool s (p + a)" if "a < sz" for a
      proof -
        have "zPool s' (q + a) = zPool ?s2 (q + a)"
          using f(2) that ne False c(4) unfolding stored_kept_def q(1) by simp
        also have "\<dots> = zPool s1 (p + a)" using that q(1) by (simp add: memcpy_def)
        also have "\<dots> = zPool s (p + a)" using c(6) p that by (simp add: stored_kept_def)
        finally show ?thesis .
      qed
      have "stored_kept (A(p := None)) s s'" unfolding stored_kept_def
      proof (intro allI impI)
        fix b l a assume h: "(A(p := None)) b = Some l" "a < l"
        then have b: "A b = Some l" "b \<noteq> p" "b \<noteq> p'" using c(2) by (auto split: if_splits)
        have "b + l \<le> p' \<or> p' + ?S \<le> b"
          using inv_disjoint(2)[OF c(3), of b l p' ?S] b by simp
        then have "\<not> (p' \<le> b + a \<and> b + a < p' + sz)" using h(2) False c(4) by linarith
        moreover have "zPool s' (b + a) = zPool ?s2 (b + a)" using f(2) b h(2) by (simp add: stored_kept_def)
        moreover have "zPool s1 (b + a) = zPool s (b + a)" using c(6) b(1) h(2) by (simp add: stored_kept_def)
        ultimately show "zPool s' (b + a) = zPool s (b + a)" by (auto simp: memcpy_def)
      qed
      then show ?thesis using c(2,4) f(1) up size False ne q(1) copied by simp
    qed
  qed
qed


lemma mem5_run_inv: "mem5_run s A \<Longrightarrow> mem5_inv s A"
proof (induction rule: mem5_run.induct)
  case (start nHeap mnReq s)
  from Init_ok[OF start, of mnReq s] show ?case by (auto simp: mem5_inv_def held_def fun_eq_iff)
next
  case (malloc s A n p s')
  from Malloc_cases[OF malloc(3,2)] show ?case by blast
next
  case (no_memory s A n s')
  from Malloc_cases[OF no_memory(3,2)] no_memory(3) show ?case by auto
next
  case (free s A p sz)
  then show ?case using Free_inv(1) by blast
next
  case (realloc s A p sz n q s')
  have same: "(A(p := None))(p \<mapsto> memsys5Size p s) = A" using realloc(2) Held_size[OF realloc(4,2)] by auto
  from Realloc_cases[OF realloc(4,2,3)] show ?case
  proof (elim disjE conjE)
    assume "q = p" "s' = s"
    then show ?thesis using realloc(4) same by (simp only:)
  qed
next
  case (client_write s A p sz off v)
  then show ?case by (intro mem5_inv_bytes[of s A p sz]) auto
qed

inductive_cases mem5_run_cases: "mem5_run s A"

section \<open>Properties\<close>

definition zero_mem5 :: mem5 where
  "zero_mem5 = \<lparr>szAtom = 0, nBlock = 0, aiFreelist = (\<lambda>_. 0), aCtrl = (\<lambda>_. 0), zPool = (\<lambda>_. 0)\<rparr>"

lemma init_fold_pool: "szAtom (snd (fold init_block xs st)) = szAtom (snd st)
    \<and> nBlock (snd (fold init_block xs st)) = nBlock (snd st)"
  by (induction xs arbitrary: st) (auto simp: init_block_def Let_def split: prod.splits)

lemma Init_pool:
  "szAtom (memsys5Init nHeap mnReq s) = fst (full_size 8 (2 ^ memsys5Log mnReq) 0)"
  "nBlock (memsys5Init nHeap mnReq s) = nHeap div (fst (full_size 8 (2 ^ memsys5Log mnReq) 0) + 1)"
  using init_fold_pool[of "rev [0..<31]"] unfolding memsys5Init_def Let_def by simp_all

lemma Malloc_succeeds:
  assumes "mem5_run s Map.empty" and "0 < n" and "n \<le> 2 ^ 30"
    and "memsys5Roundup n s \<le> nBlock s * szAtom s"
  shows "\<exists>p s'. memsys5Malloc n s = (Some p, s')"
proof -
  obtain H where H: "partial_inv s H {}" "Map.empty = held (szAtom s) (in_use H)"
    using mem5_run_inv[OF assms(1)] by (auto simp: mem5_inv_def)
  have a: "szAtom s > 0" using partial_invD(1)[OF H(1)] .
  have "in_use H i = None" for i
    using fun_cong[OF H(2), of "i * szAtom s"] a by (simp add: held_def)
  then have U: "in_use H = Map.empty" by auto
  obtain sz l where f: "full_size n (szAtom s) 0 = (sz, l)" by (rule prod.exhaust)
  note L = full_size_bound[OF f a assms(3)]
  have "memsys5Roundup n s = szAtom s * 2 ^ l" using f L assms(3) by (simp add: memsys5Roundup_def)
  then have "2 ^ l \<le> nBlock s" using assms(4) a by (simp add: mult.commute)
  then obtain k where k: "l \<le> k" "k \<le> 30" "free_at H k \<noteq> {}"
    using all_free_big_block[OF H(1) U _ L(1)] by blast
  then show ?thesis
    using Malloc_ok[OF H(1) assms(2,3) f] by (auto split: prod.splits option.splits)
qed

text \<open>A concrete client: a heap of 4096 bytes, and a block of 20.\<close>

definition small_heap :: mem5 where
  "small_heap = memsys5Init 4096 8 zero_mem5"

lemma small_heap_run: "mem5_run small_heap Map.empty"
  unfolding small_heap_def by (rule start) simp

lemma small_heap_pool: "szAtom small_heap = 8" "nBlock small_heap = 455" "memsys5Roundup 20 small_heap = 32"
proof -
  have "memsys5Log 8 = 3" by (simp add: memsys5Log_def upt_conv_Cons)
  then show p: "szAtom small_heap = 8" "nBlock small_heap = 455"
    unfolding small_heap_def Init_pool by (simp_all add: full_size.simps)
  show "memsys5Roundup 20 small_heap = 32"
    by (simp add: memsys5Roundup_def p full_size.simps)
qed

lemma small_heap_malloc: obtains p s' where "memsys5Malloc 20 small_heap = (Some p, s')"
  using Malloc_succeeds[OF small_heap_run, of 20] by (auto simp: small_heap_pool)

text \<open>C13. Memory safety: whatever a client allocates, frees, resizes and writes, the blocks it holds
  lie inside the pool, never overlap, and the size the allocator reports for each is the one it
  was given with.\<close>

theorem mem5_blocks_disjoint:
  assumes "mem5_run s A" and "A p = Some m"
  shows "p + m \<le> nBlock s * szAtom s \<and> memsys5Size p s = m
    \<and> (\<forall>q l. A q = Some l \<longrightarrow> p \<noteq> q \<longrightarrow> p + m \<le> q \<or> q + l \<le> p)"
  using inv_disjoint[OF mem5_run_inv[OF assms(1)] assms(2)] Held_size[OF mem5_run_inv[OF assms(1)] assms(2)]
  by blast

theorem mem5_blocks_disjoint_witness:
  "\<exists>p s'. memsys5Malloc 20 small_heap = (Some p, s') \<and> p + memsys5Size p s' \<le> nBlock s' * szAtom s'"
proof -
  obtain p s' where m: "memsys5Malloc 20 small_heap = (Some p, s')" by (rule small_heap_malloc)
  have "mem5_run s' (Map.empty(p \<mapsto> memsys5Size p s'))" using malloc[OF small_heap_run m] .
  from mem5_blocks_disjoint[OF this, of p] show ?thesis using m by auto
qed

text \<open>C14. A successful Malloc returns a block the client did not hold, of the size \<open>memsys5Roundup\<close>
  promises, which is at least the size asked for; a failed one changes nothing. No byte that the client
  has stored in a block it holds changes, although the links of the free lists are written into the
  same pool.\<close>

theorem mem5_malloc_correct:
  assumes "mem5_run s A" and "memsys5Malloc n s = (r, s')"
  shows "case r of
      None \<Rightarrow> s' = s
    | Some p \<Rightarrow> A p = None \<and> memsys5Size p s' = memsys5Roundup n s \<and> n \<le> memsys5Size p s'
        \<and> (\<forall>q l a. A q = Some l \<longrightarrow> a < l \<longrightarrow> zPool s' (q + a) = zPool s (q + a))"
  using Malloc_cases[OF mem5_run_inv[OF assms(1)] assms(2)] by (auto simp: stored_kept_def)

theorem mem5_malloc_correct_witness:
  "\<exists>p s'. memsys5Malloc 20 small_heap = (Some p, s') \<and> memsys5Size p s' = 32"
proof -
  obtain p s' where m: "memsys5Malloc 20 small_heap = (Some p, s')" by (rule small_heap_malloc)
  from mem5_malloc_correct[OF small_heap_run m] show ?thesis using m by (simp add: small_heap_pool)
qed

text \<open>C15. No lasting fragmentation: when the client holds nothing, whatever happened before, a
  request is met exactly when its rounded size fits into the pool. This needs the eager merging of
  buddies in Free.\<close>

theorem mem5_no_fragmentation:
  assumes "mem5_run s Map.empty" and "0 < n" and "n \<le> 2 ^ 30"
  shows "(\<exists>p s'. memsys5Malloc n s = (Some p, s')) \<longleftrightarrow> memsys5Roundup n s \<le> nBlock s * szAtom s"
proof
  assume "\<exists>p s'. memsys5Malloc n s = (Some p, s')"
  then obtain p s' where m: "memsys5Malloc n s = (Some p, s')" by blast
  then have r: "mem5_run s' (Map.empty(p \<mapsto> memsys5Size p s'))" using malloc[OF assms(1)] by blast
  have c: "memsys5Size p s' = memsys5Roundup n s" "same_pool s s'"
    using Malloc_cases[OF mem5_run_inv[OF assms(1)] m] by auto
  have "p + memsys5Size p s' \<le> nBlock s' * szAtom s'" using inv_disjoint(1)[OF mem5_run_inv[OF r], of p] by simp
  then show "memsys5Roundup n s \<le> nBlock s * szAtom s" using c by (simp add: same_pool_def)
qed (rule Malloc_succeeds[OF assms])

theorem mem5_no_fragmentation_witness:
  "(\<exists>p s'. memsys5Malloc 20 small_heap = (Some p, s')) \<and> memsys5Roundup 20 small_heap = 32"
  using mem5_no_fragmentation[OF small_heap_run, of 20] by (simp add: small_heap_pool)








end
