(* ===== verification/Sqlite_Number.thy ===== *)
theory Sqlite_Number
  imports Sqlite_Chars "HOL-Library.Signed_Division"
begin

text \<open>
  Numbers of SQLite's \<open>src/util.c\<close>: reading 64-bit and 32-bit integers from text in three
  encodings, decimal and hexadecimal, the 64-bit additions, subtractions and multiplications that
  report overflow, and the logarithmic estimates of the query planner.

  A 64-bit or 32-bit signed integer is an \<open>int\<close>; arithmetic on unsigned 64-bit integers is on
  \<open>u64\<close> and wraps. In the overflow checked operations every signed operation is checked: \<open>None\<close>
  stands for a signed overflow, which is undefined in C.
\<close>

section \<open>Reading integers\<close>

abbreviation (input) "LARGEST_INT64 \<equiv> (9223372036854775807 :: int)"
abbreviation (input) "SMALLEST_INT64 \<equiv> (- 9223372036854775808 :: int)"


text \<open>The first position at or after \<open>i\<close>, in steps of two, where a high byte is not zero or the text
  has ended.\<close>

function high_scan :: "cstring \<Rightarrow> nat \<Rightarrow> nat \<Rightarrow> nat" where
  "high_scan z len i = (if i < len \<and> char_at z i = 0 then high_scan z len (i + 2) else i)"
  by pat_completeness auto
termination by (relation "measure (\<lambda>(z, len, i). len - i)") auto

declare high_scan.simps [simp del]

text \<open>The characters a loop reads that goes from \<open>from\<close> to \<open>zEnd\<close> by \<open>incr\<close> bytes.\<close>

function chars_between :: "cstring \<Rightarrow> nat \<Rightarrow> nat \<Rightarrow> nat \<Rightarrow> nat list" where
  "chars_between z incr from zEnd =
     (if from < zEnd \<and> 0 < incr then char_at z from # chars_between z incr (from + incr) zEnd else [])"
  by pat_completeness auto
termination by (relation "measure (\<lambda>(z, incr, from, zEnd). zEnd - from)") auto

declare chars_between.simps [simp del]

definition pow63 :: cstring where
  "pow63 = [57, 50, 50, 51, 51, 55, 50, 48, 51, 54, 56, 53, 52, 55, 55, 53, 56, 48]"

fun compare_loop :: "cstring \<Rightarrow> cstring \<Rightarrow> int" where
  "compare_loop (d # ds) (p # ps) =
     (let c = (int d - int p) * 10 in if c \<noteq> 0 then c else compare_loop ds ps)"
| "compare_loop _ _ = 0"

definition compare2pow63 :: "cstring \<Rightarrow> int" where
  "compare2pow63 zNum =
     (let c = compare_loop zNum pow63 in if c = 0 then int (char_at zNum 18) - 56 else c)"

definition is_digit :: "nat \<Rightarrow> bool" where "is_digit c \<longleftrightarrow> 48 \<le> c \<and> c \<le> 57"

text \<open>From the first digit on: skipping leading zeros, the value, and the return code.\<close>

definition scan_digits :: "bool \<Rightarrow> bool \<Rightarrow> nat list \<Rightarrow> nat \<times> int" where
  "scan_digits neg nonNum zStart =
     (let zNum = dropWhile (\<lambda>c. c = 48) zStart;
          digits = takeWhile is_digit zNum;
          i = length digits;
          u = foldl (\<lambda>u c. u * 10 + of_nat c - 48) (0 :: u64) digits;
          v = (if uint u > LARGEST_INT64 then (if neg then SMALLEST_INT64 else LARGEST_INT64)
               else if neg then - uint u else uint u);
          rc = (if (i = 0 \<and> length zStart = length zNum) \<or> nonNum then 1
                else if list_ex (\<lambda>c. \<not> sqlite3Isspace c) (drop i zNum) then 1 else 0)
      in if i < 19 then (rc, v)
         else let c = (if i > 19 then 1 else compare2pow63 zNum)
              in if c < 0 then (rc, v)
                 else let v = (if neg then SMALLEST_INT64 else LARGEST_INT64)
                      in if c > 0 then (2, v) else (if neg then rc else 3, v))"

definition scan_number :: "nat list \<Rightarrow> bool \<Rightarrow> nat \<times> int" where
  "scan_number cs nonNum =
     (let zNum = dropWhile sqlite3Isspace cs;
          neg = (zNum \<noteq> [] \<and> hd zNum = 45);
          zStart = (if zNum \<noteq> [] \<and> (hd zNum = 45 \<or> hd zNum = 43) then tl zNum else zNum)
      in scan_digits neg nonNum zStart)"

definition sqlite3Atoi64 :: "cstring \<Rightarrow> nat \<Rightarrow> nat \<Rightarrow> nat \<times> int" where
  "sqlite3Atoi64 zNum len enc =
     (if enc = SQLITE_UTF8 then scan_number (chars_between zNum 1 0 len) False
      else let i = high_scan zNum len (3 - enc);
               nonNum = (i < len);
               zEnd = i XOR 1
           in scan_number (chars_between zNum 2 (enc AND 1) zEnd) nonNum)"

definition sqlite3DecOrHexToI64 :: "cstring \<Rightarrow> nat \<times> int" where
  "sqlite3DecOrHexToI64 z =
     (if char_at z 0 = 48 \<and> (char_at z 1 = 120 \<or> char_at z 1 = 88) then
        let s = dropWhile (\<lambda>c. c = 48) (drop 2 z);
            digits = takeWhile sqlite3Isxdigit s;
            u = foldl (\<lambda>u c. u * 16 + of_nat (sqlite3HexToInt c)) (0 :: u64) digits
        in (if ch (drop (length digits) s) = 0 \<and> length digits \<le> 16 then 0 else 2, sint u)
      else sqlite3Atoi64 z (length z) SQLITE_UTF8)"

definition get_hex32 :: "cstring \<Rightarrow> int option" where
  "get_hex32 zNum =
     (let s = dropWhile (\<lambda>c. c = 48) zNum;
          digits = take 8 (takeWhile sqlite3Isxdigit s);
          u = foldl (\<lambda>u c. u * 16 + of_nat (sqlite3HexToInt c)) (0 :: u32) digits
      in if u AND 0x80000000 = 0 \<and> \<not> sqlite3Isxdigit (char_at s (length digits)) then Some (sint u) else None)"

definition get_dec32 :: "bool \<Rightarrow> cstring \<Rightarrow> int option" where
  "get_dec32 neg zNum =
     (if \<not> sqlite3Isdigit (ch zNum) then None
      else let s = dropWhile (\<lambda>c. c = 48) zNum;
               digits = take 11 (takeWhile is_digit s);
               v = foldl (\<lambda>v c. v * 10 + (int c - 48)) 0 digits
           in if length digits > 10 then None
              else if v - of_bool neg > 2147483647 then None
              else Some (if neg then - v else v))"

definition sqlite3GetInt32 :: "cstring \<Rightarrow> int option" where
  "sqlite3GetInt32 zNum =
     (if ch zNum = 45 then get_dec32 True (tl zNum)
      else if ch zNum = 43 then get_dec32 False (tl zNum)
      else if ch zNum = 48 \<and> (char_at zNum 1 = 120 \<or> char_at zNum 1 = 88) \<and> sqlite3Isxdigit (char_at zNum 2)
      then get_hex32 (drop 2 zNum)
      else get_dec32 False zNum)"

definition sqlite3Atoi :: "cstring option \<Rightarrow> int" where
  "sqlite3Atoi z = (case z of None \<Rightarrow> 0 | Some s \<Rightarrow> (case sqlite3GetInt32 s of None \<Rightarrow> 0 | Some x \<Rightarrow> x))"

section \<open>Arithmetic that reports overflow\<close>

definition i64 :: "int \<Rightarrow> int option" where
  "i64 x = (if SMALLEST_INT64 \<le> x \<and> x \<le> LARGEST_INT64 then Some x else None)"

text \<open>The value is the returned code, true for overflow, and \<open>*pA\<close> afterwards.\<close>

definition sqlite3AddInt64 :: "int \<Rightarrow> int \<Rightarrow> (bool \<times> int) option" where
  "sqlite3AddInt64 iA iB =
     (if iB \<ge> 0 then
        (if iA > 0 then
           Option.bind (i64 (LARGEST_INT64 - iA)) (\<lambda>room.
             if room < iB then Some (True, iA) else map_option (Pair False) (i64 (iA + iB)))
         else map_option (Pair False) (i64 (iA + iB)))
      else
        (if iA < 0 then
           Option.bind (i64 (iA + LARGEST_INT64)) (\<lambda>x. Option.bind (i64 (- x)) (\<lambda>room.
             Option.bind (i64 (iB + 1)) (\<lambda>b.
               if room > b then Some (True, iA) else map_option (Pair False) (i64 (iA + iB)))))
         else map_option (Pair False) (i64 (iA + iB))))"

definition sqlite3SubInt64 :: "int \<Rightarrow> int \<Rightarrow> (bool \<times> int) option" where
  "sqlite3SubInt64 iA iB =
     (if iB = SMALLEST_INT64 then
        (if iA \<ge> 0 then Some (True, iA) else map_option (Pair False) (i64 (iA - iB)))
      else Option.bind (i64 (- iB)) (\<lambda>b. sqlite3AddInt64 iA b))"

definition sqlite3MulInt64 :: "int \<Rightarrow> int \<Rightarrow> (bool \<times> int) option" where
  "sqlite3MulInt64 iA iB =
     (let product = map_option (Pair False) (i64 (iA * iB))
      in if iB > 0 then
           Option.bind (i64 (LARGEST_INT64 sdiv iB)) (\<lambda>hi.
             if iA > hi then Some (True, iA)
             else Option.bind (i64 (SMALLEST_INT64 sdiv iB)) (\<lambda>lo.
               if iA < lo then Some (True, iA) else product))
         else if iB < 0 then
           (if iA > 0 then
              Option.bind (i64 (SMALLEST_INT64 sdiv iA)) (\<lambda>lo.
                if iB < lo then Some (True, iA) else product)
            else if iA < 0 then
              (if iB = SMALLEST_INT64 then Some (True, iA)
               else if iA = SMALLEST_INT64 then Some (True, iA)
               else Option.bind (i64 (- iA)) (\<lambda>a. Option.bind (i64 (- iB)) (\<lambda>b.
                 Option.bind (i64 (LARGEST_INT64 sdiv b)) (\<lambda>hi.
                   if a > hi then Some (True, iA) else product))))
            else product)
         else product)"

definition sqlite3AbsInt32 :: "int \<Rightarrow> int" where
  "sqlite3AbsInt32 x = (if x \<ge> 0 then x else if x = - 2147483648 then 2147483647 else - x)"

section \<open>Logarithmic estimates\<close>

definition logest_add_x :: "int list" where
  "logest_add_x = [10, 10, 9, 9, 8, 8, 7, 7, 7, 6, 6, 6, 5, 5, 5, 4, 4, 4, 4,
                   3, 3, 3, 3, 3, 3, 2, 2, 2, 2, 2, 2, 2]"

text \<open>A \<open>LogEst\<close> is a 16-bit integer; the sum is an \<open>int\<close> that is converted when it is returned.\<close>

definition to_i16 :: "int \<Rightarrow> int" where
  "to_i16 x = (x + 2 ^ 15) mod 2 ^ 16 - 2 ^ 15"

definition sqlite3LogEstAdd :: "int \<Rightarrow> int \<Rightarrow> int" where
  "sqlite3LogEstAdd a b =
     (if a \<ge> b then
        (if a > b + 49 then a else if a > b + 31 then to_i16 (a + 1) else to_i16 (a + logest_add_x ! nat (a - b)))
      else
        (if b > a + 49 then b else if b > a + 31 then to_i16 (b + 1) else to_i16 (b + logest_add_x ! nat (b - a))))"

definition logest_a :: "int list" where "logest_a = [0, 2, 3, 5, 6, 7, 8, 9]"

function logest_up :: "nat \<Rightarrow> int \<Rightarrow> nat \<times> int" where
  "logest_up x y = (if 0 < x \<and> x < 8 then logest_up (x * 2) (y - 10) else (x, y))"
  by pat_completeness auto
termination by (relation "measure (\<lambda>(x, y). 8 - x)") auto

function logest_down4 :: "nat \<Rightarrow> int \<Rightarrow> nat \<times> int" where
  "logest_down4 x y = (if x > 255 then logest_down4 (x div 16) (y + 40) else (x, y))"
  by pat_completeness auto
termination by (relation "measure (\<lambda>(x, y). x)") auto

function logest_down1 :: "nat \<Rightarrow> int \<Rightarrow> nat \<times> int" where
  "logest_down1 x y = (if x > 15 then logest_down1 (x div 2) (y + 10) else (x, y))"
  by pat_completeness auto
termination by (relation "measure (\<lambda>(x, y). x)") auto

declare logest_up.simps [simp del] logest_down4.simps [simp del] logest_down1.simps [simp del]

text \<open>The build for compilers with a count of leading zeros (\<open>clz\<close>, at 64 bits) and the build with loops.\<close>

fun bit_length :: "nat \<Rightarrow> nat" where
  "bit_length x = (if x = 0 then 0 else Suc (bit_length (x div 2)))"

declare bit_length.simps [simp del]

definition clz :: "nat \<Rightarrow> nat" where "clz x = 64 - bit_length x"

definition sqlite3LogEst :: "bool \<Rightarrow> nat \<Rightarrow> int" where
  "sqlite3LogEst gcc x =
     (if x < 2 then 0
      else let (x', y) =
             (if x < 8 then logest_up x 40
              else if gcc then (let i = 60 - clz x in (x div 2 ^ i, 40 + int i * 10))
              else (let (x1, y1) = logest_down4 x 40 in logest_down1 x1 y1))
           in logest_a ! (x' mod 8) + y - 10)"

text \<open>\<open>LogEst\<close> and the remainder are C's: towards zero. A negative remainder becomes a huge unsigned
  number, so the model is for estimates from zero up.\<close>

definition sqlite3LogEstToInt :: "nat \<Rightarrow> nat" where
  "sqlite3LogEstToInt x =
     (let n = x mod 10; x = x div 10;
          n = (if n \<ge> 5 then n - 2 else if n \<ge> 1 then n - 1 else n)
      in if x > 60 then nat LARGEST_INT64
         else if x \<ge> 3 then (n + 8) * 2 ^ (x - 3) else (n + 8) div 2 ^ (3 - x))"

section \<open>Digits and values\<close>

fun decimal :: "nat list \<Rightarrow> nat" where
  "decimal [] = 0"
| "decimal (c # ds) = (c - 48) * 10 ^ length ds + decimal ds"

fun hex_value :: "nat list \<Rightarrow> nat" where
  "hex_value [] = 0"
| "hex_value (c # ds) = sqlite3HexToInt c * 16 ^ length ds + hex_value ds"

lemma decimal_append: "decimal (as @ bs) = decimal as * 10 ^ length bs + decimal bs"
  by (induction as) (simp_all add: algebra_simps power_add)

lemma decimal_less: "list_all is_digit ds \<Longrightarrow> decimal ds < 10 ^ length ds"
proof (induction ds)
  case (Cons c ds)
  then have "c - 48 \<le> 9" "decimal ds < 10 ^ length ds" by (auto simp: is_digit_def)
  then have "(c - 48) * 10 ^ length ds + decimal ds < 9 * 10 ^ length ds + 10 ^ length ds"
    by (intro add_le_less_mono mult_right_mono) auto
  then show ?case by simp
qed simp

lemma decimal_ge:
  "list_all is_digit ds \<Longrightarrow> ds \<noteq> [] \<Longrightarrow> hd ds \<noteq> 48 \<Longrightarrow> 10 ^ (length ds - 1) \<le> decimal ds"
proof (cases ds)
  case (Cons c cs)
  assume "list_all is_digit ds" "hd ds \<noteq> 48"
  then have "1 \<le> c - 48" by (auto simp: Cons is_digit_def)
  then have "1 * 10 ^ length cs \<le> (c - 48) * 10 ^ length cs" by (rule mult_right_mono) simp
  then show ?thesis by (simp add: Cons trans_le_add1)
qed simp

lemma fold_decimal_word:
  "list_all is_digit ds \<Longrightarrow>
   foldl (\<lambda>u c. u * 10 + of_nat c - 48) u ds = u * 10 ^ length ds + of_nat (decimal ds)"
  for u :: u64
proof (induction ds arbitrary: u)
  case (Cons c ds)
  then obtain k where "c = 48 + k" by (auto simp: is_digit_def le_iff_add)
  with Cons show ?case by (simp add: algebra_simps)
qed simp

lemma fold_decimal_int:
  "list_all is_digit ds \<Longrightarrow>
   foldl (\<lambda>v c. v * 10 + (int c - 48)) v ds = v * 10 ^ length ds + int (decimal ds)"
proof (induction ds arbitrary: v)
  case (Cons c ds)
  then obtain k where "c = 48 + k" by (auto simp: is_digit_def le_iff_add)
  with Cons show ?case by (simp add: algebra_simps)
qed simp

lemma fold_hex_word:
  "foldl (\<lambda>u c. u * 16 + of_nat (sqlite3HexToInt c)) u ds = u * 16 ^ length ds + of_nat (hex_value ds)"
  for u :: "'a::len word"
  by (induction ds arbitrary: u) (simp_all add: algebra_simps)

lemma decimal_zeros: "decimal (dropWhile (\<lambda>c. c = 48) ds) = decimal ds"
  by (induction ds) auto

lemma hex_zeros: "hex_value (dropWhile (\<lambda>c. c = 48) ds) = hex_value ds"
proof (induction ds)
  case (Cons c ds)
  have "sqlite3HexToInt 48 = 0" by code_simp
  with Cons show ?case by auto
qed simp

lemma HexToInt_less: "sqlite3HexToInt c < 16"
proof -
  have "sqlite3HexToInt c = take_bit 4 (c + 9 * (drop_bit 6 c AND 1))"
    by (simp add: sqlite3HexToInt_def take_bit_eq_mask mask_eq_exp_minus_1)
  then show ?thesis using take_bit_nat_less_exp[of 4 "c + 9 * (drop_bit 6 c AND 1)"] by simp
qed

lemma hex_value_less: "hex_value ds < 16 ^ length ds"
proof (induction ds)
  case (Cons c ds)
  have "sqlite3HexToInt c \<le> 15" using HexToInt_less[of c] by simp
  then have "sqlite3HexToInt c * 16 ^ length ds + hex_value ds < 15 * 16 ^ length ds + 16 ^ length ds"
    using Cons by (intro add_le_less_mono mult_right_mono) auto
  then show ?case by simp
qed simp

section \<open>Comparison with two to the 63\<close>

lemma compare_loop_append:
  "length ds = length ps \<Longrightarrow> compare_loop (ds @ r) ps = compare_loop ds ps"
  by (induction ds ps rule: list_induct2) (auto simp: Let_def)

lemma compare_loop_sign:
  assumes "length ds = length ps" "list_all is_digit ds" "list_all is_digit ps"
  shows "(compare_loop ds ps < 0 \<longleftrightarrow> decimal ds < decimal ps)
    \<and> (compare_loop ds ps = 0 \<longleftrightarrow> decimal ds = decimal ps)"
  using assms
proof (induction ds ps rule: list_induct2)
  case (Cons d ds p ps)
  let ?B = "10 ^ length ps :: nat"
  have less: "decimal ds < ?B" "decimal ps < ?B"
    using decimal_less[of ds] decimal_less[of ps] Cons by auto
  have dig: "48 \<le> d" "48 \<le> p" using Cons.prems by (auto simp: is_digit_def)
  consider "d = p" | "d < p" | "p < d" by linarith
  then show ?case
  proof cases
    case 1
    then show ?thesis using Cons by (simp add: Let_def)
  next
    case 2
    then have "(d - 48 + 1) * ?B \<le> (p - 48) * ?B" using dig by (intro mult_right_mono) auto
    then show ?thesis using 2 less Cons.hyps by (auto simp: Let_def)
  next
    case 3
    then have "(p - 48 + 1) * ?B \<le> (d - 48) * ?B" using dig by (intro mult_right_mono) auto
    then show ?thesis using 3 less Cons.hyps by (auto simp: Let_def)
  qed
qed simp

lemma compare2pow63_sign:
  assumes "length ds = 19" "list_all is_digit ds"
  shows "(compare2pow63 (ds @ r) < 0 \<longleftrightarrow> decimal ds < 2 ^ 63)
    \<and> (compare2pow63 (ds @ r) = 0 \<longleftrightarrow> decimal ds = 2 ^ 63)"
proof -
  obtain es l where ds: "ds = es @ [l]" "length es = 18"
    using assms(1) by (cases ds rule: rev_cases) auto
  have p: "length pow63 = 18" "decimal pow63 = 922337203685477580" "list_all is_digit pow63"
    by (simp_all add: pow63_def is_digit_def)
  have es: "list_all is_digit es" "48 \<le> l" "l \<le> 57" using assms(2) by (auto simp: ds is_digit_def)
  have c: "compare_loop (ds @ r) pow63 = compare_loop es pow63"
    using compare_loop_append[of es pow63 "l # r"] ds p by simp
  have l: "char_at (ds @ r) 18 = l" using ds by (simp add: char_at_def nth_append)
  have v: "decimal ds = decimal es * 10 + (l - 48)" using ds decimal_append[of es "[l]"] by simp
  show ?thesis
    using compare_loop_sign[of es pow63] ds(2) p es v
    by (auto simp: compare2pow63_def Let_def c l)
qed

section \<open>Text in three encodings\<close>

text \<open>A text is a list of bytes in UTF-8 and of 16-bit units in UTF-16.\<close>

definition encode_text :: "nat \<Rightarrow> nat list \<Rightarrow> cstring" where
  "encode_text enc cs =
     (if enc = SQLITE_UTF8 then cs
      else if enc = SQLITE_UTF16LE then concat (map (\<lambda>c. [c mod 256, c div 256]) cs)
      else concat (map (\<lambda>c. [c div 256, c mod 256]) cs))"

lemma length_pairs: "length (concat (map (\<lambda>c. [f c, g c]) cs)) = 2 * length cs"
  by (induction cs) auto

lemma nth_pairs:
  "k < length cs \<Longrightarrow> concat (map (\<lambda>c. [f c, g c]) cs) ! (2 * k) = f (cs ! k)"
  "k < length cs \<Longrightarrow> concat (map (\<lambda>c. [f c, g c]) cs) ! Suc (2 * k) = g (cs ! k)"
proof (induction cs arbitrary: k)
  case (Cons c cs)
  case 1
  then show ?case using Cons(1)[of "k - 1"] by (cases k) auto
  case 2
  then show ?case using Cons(2)[of "k - 1"] by (cases k) auto
qed simp_all

lemma high_scan_end:
  assumes "\<forall>k < m. i + 2 * k < len \<and> char_at z (i + 2 * k) = 0" "len \<le> i + 2 * m \<or> char_at z (i + 2 * m) \<noteq> 0"
  shows "high_scan z len i = i + 2 * m"
  using assms
proof (induction m arbitrary: i)
  case 0
  then show ?case by (subst high_scan.simps) auto
next
  case (Suc m)
  have "i + 2 + 2 * k < len \<and> char_at z (i + 2 + 2 * k) = 0" if "k < m" for k
    using Suc.prems(1)[rule_format, of "Suc k"] that by (simp add: algebra_simps)
  then have "high_scan z len (i + 2) = i + 2 + 2 * m" using Suc.prems(2) by (intro Suc.IH) (auto simp: algebra_simps)
  moreover have "i < len" "char_at z i = 0" using Suc.prems(1)[rule_format, of 0] by simp_all
  ultimately show ?case by (subst high_scan.simps) simp
qed

lemma chars_between_list:
  assumes "\<forall>k < length cs. char_at z (from + k * incr) = cs ! k"
    and "0 < incr" "zEnd \<le> from + length cs * incr" "from + length cs * incr < zEnd + incr"
  shows "chars_between z incr from zEnd = cs"
  using assms
proof (induction cs arbitrary: "from")
  case Nil
  then show ?case by (subst chars_between.simps) simp
next
  case (Cons c cs)
  have "char_at z (from + incr + k * incr) = cs ! k" if "k < length cs" for k
    using Cons.prems(1)[rule_format, of "Suc k"] that by (simp add: algebra_simps)
  then have "chars_between z incr (from + incr) zEnd = cs"
    using Cons.prems by (intro Cons.IH) (auto simp: algebra_simps)
  moreover have "from < zEnd" using Cons.prems(2-4) by simp
  moreover have "char_at z from = c" using Cons.prems(1)[rule_format, of 0] by simp
  ultimately show ?case using Cons.prems(2) by (subst chars_between.simps) simp
qed

lemma even_xor_one: "even n \<Longrightarrow> n XOR Suc 0 = n + 1" "odd n \<Longrightarrow> n XOR Suc 0 = n - 1" for n :: nat
  by (simp_all add: xor_Suc_0_eq)

text \<open>What the UTF-16 branch looks at: the units below 256 at the front, and whether there are others.\<close>

definition narrow :: "nat list \<Rightarrow> nat list" where
  "narrow cs = takeWhile (\<lambda>c. c < 256) cs"

lemma narrow_stop:
  "k < length (narrow cs) \<Longrightarrow> narrow cs ! k = cs ! k \<and> cs ! k < 256"
  "length (narrow cs) < length cs \<Longrightarrow> \<not> cs ! length (narrow cs) < 256"
  "length (narrow cs) < length cs \<longleftrightarrow> \<not> list_all (\<lambda>c. c < 256) cs"
  "length (narrow cs) \<le> length cs"
proof -
  show "k < length (narrow cs) \<Longrightarrow> narrow cs ! k = cs ! k \<and> cs ! k < 256"
    unfolding narrow_def using takeWhile_nth[of k "\<lambda>c. c < 256" cs] nth_mem[of k "takeWhile (\<lambda>c. c < 256) cs"]
    by (auto dest: set_takeWhileD)
  show stop: "length (narrow cs) < length cs \<Longrightarrow> \<not> cs ! length (narrow cs) < 256"
    unfolding narrow_def by (rule nth_length_takeWhile)
  show le: "length (narrow cs) \<le> length cs" unfolding narrow_def by (rule length_takeWhile_le)
  show "length (narrow cs) < length cs \<longleftrightarrow> \<not> list_all (\<lambda>c. c < 256) cs"
  proof
    assume "length (narrow cs) < length cs"
    then show "\<not> list_all (\<lambda>c. c < 256) cs" using stop by (auto simp: list_all_length)
  next
    assume "\<not> list_all (\<lambda>c. c < 256) cs"
    then have "narrow cs \<noteq> cs" by (auto simp: narrow_def list_all_iff takeWhile_eq_all_conv)
    then have "length (narrow cs) \<noteq> length cs" using takeWhile_eq_take[of "\<lambda>c. c < 256" cs] by (auto simp: narrow_def)
    then show "length (narrow cs) < length cs" using le by simp
  qed
qed

lemma Atoi64_utf16:
  assumes z: "length z = 2 * length cs" "\<And>k. k < length cs \<Longrightarrow> char_at z (2 * k + h) = cs ! k div 256"
      "\<And>k. k < length cs \<Longrightarrow> char_at z (2 * k + (1 - h)) = cs ! k mod 256"
    and enc: "enc = 2 \<and> h = 1 \<or> enc = 3 \<and> h = 0"
  shows "sqlite3Atoi64 z (length z) enc = scan_number (narrow cs) (\<not> list_all (\<lambda>c. c < 256) cs)"
proof -
  let ?m = "length (narrow cs)"
  note n = narrow_stop[where cs = cs]
  have m: "?m \<le> length cs" by (rule n)
  have zero: "\<forall>k < ?m. h + 2 * k < length z \<and> char_at z (h + 2 * k) = 0"
  proof (intro allI impI)
    fix k assume k: "k < ?m"
    then show "h + 2 * k < length z \<and> char_at z (h + 2 * k) = 0"
      using n(1)[OF k] m z(1) z(2)[of k] enc by (auto simp: add.commute)
  qed
  have stop: "length z \<le> h + 2 * ?m \<or> char_at z (h + 2 * ?m) \<noteq> 0"
  proof (cases "?m = length cs")
    case False
    then have l: "?m < length cs" using m by simp
    have "cs ! ?m div 256 \<noteq> 0" using n(2)[OF l] by simp
    then show ?thesis using z(2)[OF l] by (simp add: add.commute)
  qed (use z(1) in simp)
  have scan: "high_scan z (length z) h = h + 2 * ?m" by (rule high_scan_end[OF zero stop])
  have nn: "h + 2 * ?m < length z \<longleftrightarrow> \<not> list_all (\<lambda>c. c < 256) cs"
    using n(3) z(1) enc m by auto
  have e: "3 - enc = h" "enc AND 1 = 1 - h" "(h + 2 * ?m) XOR 1 = 2 * ?m + (1 - h)" "enc \<noteq> 1"
  proof -
    have "(2 :: nat) AND 1 = 0" "(3 :: nat) AND 1 = 1" by code_simp+
    then show "3 - enc = h" "enc AND 1 = 1 - h" "(h + 2 * ?m) XOR 1 = 2 * ?m + (1 - h)" "enc \<noteq> 1"
      using enc by (auto simp: even_xor_one)
  qed
  have "chars_between z 2 (1 - h) (2 * ?m + (1 - h)) = narrow cs"
  proof (rule chars_between_list)
    show "\<forall>k < ?m. char_at z (1 - h + k * 2) = narrow cs ! k"
    proof (intro allI impI)
      fix k assume k: "k < ?m"
      then show "char_at z (1 - h + k * 2) = narrow cs ! k"
        using n(1)[OF k] m z(3)[of k] by (simp add: ac_simps)
    qed
  qed auto
  then show ?thesis using e nn by (simp add: sqlite3Atoi64_def scan Let_def)
qed

lemma Atoi64_encoded:
  assumes "enc \<in> {SQLITE_UTF8, SQLITE_UTF16LE, SQLITE_UTF16BE}" "enc = SQLITE_UTF8 \<Longrightarrow> list_all (\<lambda>c. c < 256) cs"
  shows "sqlite3Atoi64 (encode_text enc cs) (length (encode_text enc cs)) enc = scan_number (narrow cs) (\<not> list_all (\<lambda>c. c < 256) cs)"
proof -
  consider "enc = 1" | "enc = 2" | "enc = 3" using assms by auto
  then show ?thesis
  proof cases
    case 1
    then have all: "list_all (\<lambda>c. c < 256) cs" using assms(2) by simp
    then have "narrow cs = cs" by (simp add: narrow_def list_all_iff takeWhile_eq_all_conv)
    moreover have "chars_between cs 1 0 (length cs) = cs" by (rule chars_between_list) (auto simp: char_at_def)
    ultimately show ?thesis using 1 all by (simp add: sqlite3Atoi64_def encode_text_def)
  next
    case 2
    show ?thesis unfolding 2 encode_text_def
      by (simp, rule Atoi64_utf16[where h = 1]) (auto simp: length_pairs nth_pairs char_at_def)
  next
    case 3
    show ?thesis unfolding 3 encode_text_def
      by (simp, rule Atoi64_utf16[where h = 0]) (auto simp: length_pairs nth_pairs char_at_def)
  qed
qed

section \<open>The value that is read\<close>

text \<open>The code and the value for digits \<open>ds\<close> and what is behind them: units from 256 up are no spaces.\<close>

definition atoi64_spec :: "bool \<Rightarrow> nat list \<Rightarrow> nat list \<Rightarrow> nat \<times> int" where
  "atoi64_spec neg ds rest =
     (if ds = [] then (1, 0)
      else let V = decimal ds;
          base = (if list_ex (\<lambda>c. 256 \<le> c \<or> \<not> sqlite3Isspace c) rest then 1 else 0)
      in (if V > 2 ^ 63 then 2 else if V = 2 ^ 63 \<and> \<not> neg then 3 else base,
          if neg then max SMALLEST_INT64 (- int V) else min LARGEST_INT64 (int V)))"

lemma space_iff: "c < 256 \<Longrightarrow> sqlite3Isspace c = (c = 32 \<or> (9 \<le> c \<and> c \<le> 13))"
  by (simp only: sqlite3Isspace_def ctype_bits(1))

lemma digit_not_space:
  "is_digit c \<Longrightarrow> \<not> sqlite3Isspace c" "\<not> sqlite3Isspace 43" "\<not> sqlite3Isspace 45"
  by (auto simp: is_digit_def space_iff)

lemma takeWhile_stops:
  "list_all P ds \<Longrightarrow> rest = [] \<or> \<not> P (hd rest) \<Longrightarrow> takeWhile P (ds @ rest) = ds"
  by (cases rest) (auto simp: list_all_iff takeWhile_append)

lemma dropWhile_stops:
  "list_all P sp \<Longrightarrow> rest = [] \<or> \<not> P (hd rest) \<Longrightarrow> dropWhile P (sp @ rest) = rest"
  by (cases rest) (auto simp: list_all_iff dropWhile_append)

lemma significant:
  assumes "list_all is_digit ds" "ds \<noteq> []" "rest = [] \<or> \<not> is_digit (hd rest)"
  defines "sig \<equiv> dropWhile (\<lambda>c. c = 48) ds"
  shows "dropWhile (\<lambda>c. c = 48) (ds @ rest) = sig @ rest" "list_all is_digit sig"
    "decimal sig = decimal ds" "sig \<noteq> [] \<Longrightarrow> hd sig \<noteq> 48" "sig = [] \<Longrightarrow> length rest < length (ds @ rest)"
proof -
  have "rest = [] \<or> hd rest \<noteq> 48" using assms(3) by (auto simp: is_digit_def)
  then show "dropWhile (\<lambda>c. c = 48) (ds @ rest) = sig @ rest"
    unfolding sig_def by (cases rest) (auto simp: dropWhile_append)
  show "list_all is_digit sig" using assms(1) unfolding sig_def list_all_iff
    by (meson set_dropWhileD)
  show "decimal sig = decimal ds" unfolding sig_def by (rule decimal_zeros)
  show "hd sig \<noteq> 48" if "sig \<noteq> []"
    using that hd_dropWhile[of "\<lambda>c. c = 48" ds] unfolding sig_def by simp
  show "length rest < length (ds @ rest)" using assms(2) by (cases ds) auto
qed

lemma short_value:
  assumes "list_all is_digit ds" "length ds < 19"
  shows "decimal ds < 2 ^ 63"
proof -
  have "decimal ds < 10 ^ length ds" by (rule decimal_less[OF assms(1)])
  also have "\<dots> \<le> 10 ^ 18" using assms(2) by (intro power_increasing) auto
  finally show ?thesis by simp
qed

lemma long_value:
  assumes "list_all is_digit ds" "length ds > 19" "hd ds \<noteq> 48"
  shows "2 ^ 63 < decimal ds"
proof -
  have "(10 :: nat) ^ 19 \<le> 10 ^ (length ds - 1)" using assms(2) by (intro power_increasing) auto
  also have "\<dots> \<le> decimal ds" using assms by (intro decimal_ge) auto
  finally show ?thesis by simp
qed

lemma narrow_simps [simp]:
  "narrow [] = []" "list_all (\<lambda>c. c < 256) cs \<Longrightarrow> narrow (cs @ rest) = cs @ narrow rest"
  by (auto simp: narrow_def list_all_iff takeWhile_append)

lemma narrow_hd: "narrow rest = [] \<or> narrow rest \<noteq> [] \<and> hd (narrow rest) = hd rest \<and> hd rest < 256"
  by (cases rest) (auto simp: narrow_def)

lemma narrow_rest:
  "(\<not> list_all (\<lambda>c. c < 256) rest \<or> list_ex (\<lambda>c. \<not> sqlite3Isspace c) (narrow rest)) \<longleftrightarrow>
   list_ex (\<lambda>c. 256 \<le> c \<or> \<not> sqlite3Isspace c) rest"
proof (cases "list_all (\<lambda>c. c < 256) rest")
  case True
  then have "narrow rest = rest" using narrow_simps(2)[OF True, of "[]"] by simp
  then show ?thesis using True by (auto simp: list_all_iff list_ex_iff)
qed (auto simp: list_all_iff list_ex_iff not_less)

lemma scan_digits_correct:
  assumes ds: "list_all is_digit ds" "rest = [] \<or> \<not> is_digit (hd rest)"
  shows "scan_digits neg (\<not> list_all (\<lambda>c. c < 256) rest) (ds @ narrow rest) = atoi64_spec neg ds rest"
proof (cases "ds = []")
  case True
  have "narrow rest = [] \<or> \<not> is_digit (hd (narrow rest))" using ds(2) narrow_hd[of rest] by auto
  then have "dropWhile (\<lambda>c. c = 48) (narrow rest) = narrow rest" "takeWhile is_digit (narrow rest) = []"
    by (cases "narrow rest"; auto simp: is_digit_def)+
  then show ?thesis using True by (simp add: scan_digits_def atoi64_spec_def Let_def)
next
  case ne: False
  define R where "R = narrow rest"
  have R: "R = [] \<or> \<not> is_digit (hd R)" using ds(2) narrow_hd[of rest] by (auto simp: R_def)
  define sig where "sig = dropWhile (\<lambda>c. c = 48) ds"
  note sig = significant[OF ds(1) ne R, folded sig_def]
  have take: "takeWhile is_digit (sig @ R) = sig"
    by (rule takeWhile_stops[OF sig(2) R])
  have fold: "foldl (\<lambda>u c. u * 10 + of_nat c - 48) (0 :: u64) sig = of_nat (decimal ds)"
    using fold_decimal_word[OF sig(2), of 0] sig(3) by simp
  have digits: "(length sig = 0 \<and> length (ds @ R) = length (sig @ R)) = False" using sig(5) by auto
  have drop: "drop (length sig) (sig @ R) = R" by simp
  have base: "(if \<not> list_all (\<lambda>c. c < 256) rest then 1 else if list_ex (\<lambda>c. \<not> sqlite3Isspace c) R then 1 else 0) =
      (if list_ex (\<lambda>c. 256 \<le> c \<or> \<not> sqlite3Isspace c) rest then 1 else (0 :: nat))"
    using narrow_rest[of rest] by (auto simp: R_def)
  note scan = scan_digits_def[of neg "\<not> list_all (\<lambda>c. c < 256) rest" "ds @ R", unfolded sig(1) Let_def take fold drop digits simp_thms base]
  note spec = atoi64_spec_def[of neg ds rest, unfolded Let_def]
  have small: "uint (of_nat (decimal ds) :: u64) = int (decimal ds)" if "decimal ds < 2 ^ 63"
    using that by (simp add: unsigned_of_nat take_bit_nat_eq_self)
  consider "length sig < 19" | "length sig = 19" | "length sig > 19" by linarith
  then show ?thesis unfolding R_def[symmetric]
  proof cases
    case 1
    then have "decimal ds < 2 ^ 63" using short_value[OF sig(2)] sig(3) by simp
    then show "scan_digits neg (\<not> list_all (\<lambda>c. c < 256) rest) (ds @ R) = atoi64_spec neg ds rest"
      using 1 small ne unfolding scan spec by auto
  next
    case 2
    note c = compare2pow63_sign[OF 2 sig(2), of R, unfolded sig(3)]
    show "scan_digits neg (\<not> list_all (\<lambda>c. c < 256) rest) (ds @ R) = atoi64_spec neg ds rest"
    proof (cases "decimal ds < 2 ^ 63")
      case True
      then show ?thesis using 2 small c ne unfolding scan spec by auto
    next
      case False
      then show ?thesis using 2 c ne unfolding scan spec by auto
    qed
  next
    case 3
    then have "sig \<noteq> []" by auto
    then have "2 ^ 63 < decimal ds" using long_value[OF sig(2) 3] sig(3,4) by simp
    then show "scan_digits neg (\<not> list_all (\<lambda>c. c < 256) rest) (ds @ R) = atoi64_spec neg ds rest"
      using 3 ne unfolding scan spec by auto
  qed
qed

text \<open>Where a number may start: behind the spaces there is a sign, a digit, or something else.\<close>

definition number_text :: "nat list \<Rightarrow> nat list \<Rightarrow> nat list \<Rightarrow> nat list \<Rightarrow> bool" where
  "number_text sp sign ds rest \<longleftrightarrow>
     list_all (\<lambda>c. c < 256 \<and> sqlite3Isspace c) sp \<and> sign \<in> {[], [43], [45]} \<and> list_all is_digit ds
     \<and> (rest = [] \<or> \<not> is_digit (hd rest))
     \<and> (sign = [] \<and> ds = [] \<and> rest \<noteq> [] \<and> hd rest < 256 \<longrightarrow> hd rest \<noteq> 43 \<and> hd rest \<noteq> 45 \<and> \<not> sqlite3Isspace (hd rest))"

lemma scan_number_correct:
  assumes "number_text sp sign ds rest"
  shows "scan_number (narrow (sp @ sign @ ds @ rest)) (\<not> list_all (\<lambda>c. c < 256) (sp @ sign @ ds @ rest))
    = atoi64_spec (sign = [45]) ds rest"
proof -
  note t = assms[unfolded number_text_def]
  let ?R = "narrow rest"
  have d256: "list_all (\<lambda>c. c < 256) ds" using t by (auto simp: list_all_iff is_digit_def)
  have n256: "list_all (\<lambda>c. c < 256) (sp @ sign @ ds)"
    using t d256 by (auto simp: list_all_iff)
  have N: "narrow (sp @ sign @ ds @ rest) = sp @ sign @ ds @ ?R"
    using narrow_simps(2)[OF n256, of rest] by simp
  have L: "list_all (\<lambda>c. c < 256) (sp @ sign @ ds @ rest) = list_all (\<lambda>c. c < 256) rest" using n256 by simp
  have sp: "list_all sqlite3Isspace sp" using t by (simp add: list_all_iff)
  have hdR: "?R = [] \<or> \<not> is_digit (hd ?R)" using t narrow_hd[of rest] by auto
  have start: "sign @ ds @ ?R = [] \<or> \<not> sqlite3Isspace (hd (sign @ ds @ ?R))"
  proof (cases "sign = [] \<and> ds = []")
    case True
    then show ?thesis using t narrow_hd[of rest] by (auto simp: narrow_def)
  next
    case False
    then show ?thesis using t digit_not_space by (cases ds) (auto simp: hd_append)
  qed
  have drop: "dropWhile sqlite3Isspace (sp @ sign @ ds @ ?R) = sign @ ds @ ?R"
    by (rule dropWhile_stops[OF sp start])
  have nosign: "ds @ ?R = [] \<or> hd (ds @ ?R) \<noteq> 43 \<and> hd (ds @ ?R) \<noteq> 45" if "sign = []"
  proof (cases ds)
    case Nil
    then show ?thesis using t that narrow_hd[of rest] by (auto simp: narrow_def)
  next
    case (Cons d es)
    then show ?thesis using t by (auto simp: is_digit_def)
  qed
  have tl: "(if sign @ ds @ ?R \<noteq> [] \<and> (hd (sign @ ds @ ?R) = 45 \<or> hd (sign @ ds @ ?R) = 43)
      then tl (sign @ ds @ ?R) else sign @ ds @ ?R) = ds @ ?R"
    and neg: "(sign @ ds @ ?R \<noteq> [] \<and> hd (sign @ ds @ ?R) = 45) = (sign = [45])"
    using t nosign by auto
  have "scan_number (sp @ sign @ ds @ ?R) nn = scan_digits (sign = [45]) nn (ds @ ?R)" for nn
    unfolding scan_number_def Let_def drop tl neg ..
  then show ?thesis using scan_digits_correct[of ds rest "sign = [45]"] t unfolding N L by simp
qed

section \<open>32-bit integers\<close>

lemma isdigit_iff: "c < 256 \<Longrightarrow> sqlite3Isdigit c = is_digit c"
  by (simp only: sqlite3Isdigit_def ctype_bits(3) is_digit_def)

lemma xdigit_iff:
  "c < 256 \<Longrightarrow> sqlite3Isxdigit c = (is_digit c \<or> (65 \<le> c \<and> c \<le> 70) \<or> (97 \<le> c \<and> c \<le> 102))"
  by (simp only: sqlite3Isxdigit_def ctype_bits(5) is_digit_def)

lemma get_dec32_correct:
  assumes ds: "list_all is_digit ds" "ds \<noteq> []" "rest = [] \<or> \<not> is_digit (hd rest)"
  shows "get_dec32 neg (ds @ rest) =
    (if int (decimal ds) \<le> (if neg then 2147483648 else 2147483647)
     then Some (if neg then - int (decimal ds) else int (decimal ds)) else None)"
proof -
  define sig where "sig = dropWhile (\<lambda>c. c = 48) ds"
  note sig = significant[OF ds, folded sig_def]
  have take: "takeWhile is_digit (sig @ rest) = sig" by (rule takeWhile_stops[OF sig(2) ds(3)])
  have dig: "list_all is_digit (take 11 sig)" using sig(2) by (simp add: list_all_iff) (meson in_set_takeD)
  note fold = fold_decimal_int[OF dig, of 0]
  have "is_digit (ch (ds @ rest))" using ds by (cases ds) auto
  then have d: "sqlite3Isdigit (ch (ds @ rest))" by (subst isdigit_iff) (auto simp: is_digit_def)
  note get = get_dec32_def[of neg "ds @ rest", unfolded sig(1) take Let_def fold]
  show ?thesis
  proof (cases "length sig > 10")
    case True
    then have ne: "sig \<noteq> []" by auto
    have "(10 :: nat) ^ 10 \<le> 10 ^ (length sig - 1)" using True by (intro power_increasing) auto
    also have "\<dots> \<le> decimal sig" by (rule decimal_ge[OF sig(2) ne sig(4)[OF ne]])
    finally have "10000000000 \<le> decimal ds" using sig(3) by simp
    then show ?thesis using True d sig(3) unfolding get by auto
  next
    case False
    then have "take 11 sig = sig" by simp
    then show ?thesis using False d sig(3) unfolding get by auto
  qed
qed

lemma high_bit:
  fixes w :: "'a::len word"
  assumes "LENGTH('a) = Suc n"
  shows "uint w < 2 ^ n \<longleftrightarrow> \<not> bit w n" "sint w = uint w - (if bit w n then 2 ^ Suc n else 0)"
proof -
  have s: "signed_take_bit n (uint w) = take_bit (Suc n) (uint w) - 2 ^ Suc n * of_bool (bit (uint w) n)"
    by (rule signed_take_bit_eq_take_bit_minus)
  have t: "take_bit (Suc n) (uint w) = uint w" using bintr_uint[where w = w and n = "Suc n"] assms by simp
  have b: "bit (uint w) n = bit w n" using assms by (simp add: bit_uint_iff)
  show "sint w = uint w - (if bit w n then 2 ^ Suc n else 0)"
    using s t b assms by (simp add: sint_uint)
  have "uint w < 2 ^ n \<longleftrightarrow> take_bit n (uint w) = uint w"
    by (simp add: take_bit_int_eq_self_iff)
  also have "\<dots> \<longleftrightarrow> \<not> bit w n"
  proof
    assume e: "take_bit n (uint w) = uint w"
    have "\<not> bit (take_bit n (uint w)) n" by (simp add: bit_take_bit_iff)
    then show "\<not> bit w n" unfolding e b .
  next
    assume nb: "\<not> bit w n"
    show "take_bit n (uint w) = uint w"
    proof (rule bit_eqI)
      fix m
      show "bit (take_bit n (uint w)) m = bit (uint w) m"
        using nb bit_imp_le_length[of w m] assms
        by (cases "m = n") (auto simp: bit_take_bit_iff bit_uint_iff)
    qed
  qed
  finally show "uint w < 2 ^ n \<longleftrightarrow> \<not> bit w n" .
qed

lemma HexToInt_zero: "c < 256 \<Longrightarrow> sqlite3Isxdigit c \<Longrightarrow> c \<noteq> 48 \<Longrightarrow> 1 \<le> sqlite3HexToInt c"
proof -
  assume c: "c < 256" "sqlite3Isxdigit c" "c \<noteq> 48"
  have all: "list_all (\<lambda>c. 1 \<le> sqlite3HexToInt c) ([49..<58] @ [65..<71] @ [97..<103])" by code_simp
  have "(49 \<le> c \<and> c < 58) \<or> (65 \<le> c \<and> c < 71) \<or> (97 \<le> c \<and> c < 103)"
    using c(2,3) unfolding xdigit_iff[OF c(1)] is_digit_def by linarith
  then have "c \<in> set ([49..<58] @ [65..<71] @ [97..<103])"
    unfolding set_append set_upt Un_iff atLeastLessThan_iff .
  then show ?thesis using all unfolding list_all_iff by blast
qed

definition hex_digit :: "nat \<Rightarrow> bool" where "hex_digit c \<longleftrightarrow> c < 256 \<and> sqlite3Isxdigit c"

lemma hex_value_ge:
  "list_all hex_digit ds \<Longrightarrow> ds \<noteq> [] \<Longrightarrow> hd ds \<noteq> 48 \<Longrightarrow> 16 ^ (length ds - 1) \<le> hex_value ds"
proof (cases ds)
  case (Cons c cs)
  assume "list_all hex_digit ds" "hd ds \<noteq> 48"
  then have "1 \<le> sqlite3HexToInt c" using HexToInt_zero[of c] by (auto simp: Cons hex_digit_def)
  then have "1 * 16 ^ length cs \<le> sqlite3HexToInt c * 16 ^ length cs" by (rule mult_right_mono) simp
  then show ?thesis by (simp add: Cons trans_le_add1)
qed simp

lemma hex_significant:
  assumes "list_all hex_digit ds" "rest = [] \<or> \<not> sqlite3Isxdigit (hd rest)"
  defines "sig \<equiv> dropWhile (\<lambda>c. c = 48) ds"
  shows "dropWhile (\<lambda>c. c = 48) (ds @ rest) = sig @ rest" "list_all hex_digit sig"
    "takeWhile sqlite3Isxdigit (sig @ rest) = sig" "hex_value sig = hex_value ds"
    "sig \<noteq> [] \<Longrightarrow> hd sig \<noteq> 48"
proof -
  have "sqlite3Isxdigit 48" by (subst xdigit_iff) (auto simp: is_digit_def)
  then have "rest = [] \<or> hd rest \<noteq> 48" using assms(2) by auto
  then show "dropWhile (\<lambda>c. c = 48) (ds @ rest) = sig @ rest"
    unfolding sig_def by (cases rest) (auto simp: dropWhile_append)
  show all: "list_all hex_digit sig" using assms(1) unfolding sig_def list_all_iff
    by (meson set_dropWhileD)
  then have "list_all sqlite3Isxdigit sig" by (simp add: list_all_iff hex_digit_def)
  then show "takeWhile sqlite3Isxdigit (sig @ rest) = sig" using assms(2) by (rule takeWhile_stops)
  show "hex_value sig = hex_value ds" unfolding sig_def by (rule hex_zeros)
  show "hd sig \<noteq> 48" if "sig \<noteq> []"
    using that hd_dropWhile[of "\<lambda>c. c = 48" ds] unfolding sig_def by simp
qed

lemma get_hex32_correct:
  assumes "list_all hex_digit ds" "rest = [] \<or> \<not> sqlite3Isxdigit (hd rest)"
  shows "get_hex32 (ds @ rest) = (if hex_value ds < 2 ^ 31 then Some (int (hex_value ds)) else None)"
proof -
  define sig where "sig = dropWhile (\<lambda>c. c = 48) ds"
  note sig = hex_significant[OF assms, folded sig_def]
  note get = get_hex32_def[of "ds @ rest", unfolded sig(1) sig(3) Let_def fold_hex_word]
  show ?thesis
  proof (cases "length sig > 8")
    case True
    then have ne: "sig \<noteq> []" by auto
    have "(16 :: nat) ^ 8 \<le> 16 ^ (length sig - 1)" using True by (intro power_increasing) auto
    also have "\<dots> \<le> hex_value sig" by (rule hex_value_ge[OF sig(2) ne sig(5)[OF ne]])
    finally have big: "4294967296 \<le> hex_value ds" using sig(4) by simp
    have "hex_digit (sig ! 8)" using sig(2) True by (simp add: list_all_length)
    then have "sqlite3Isxdigit (char_at (sig @ rest) 8)"
      using True by (simp add: char_at_def nth_append hex_digit_def)
    then show ?thesis using True big unfolding get by simp
  next
    case False
    then have take: "take 8 sig = sig" by simp
    have "hex_value sig < 16 ^ length sig" by (rule hex_value_less)
    also have "\<dots> \<le> 16 ^ 8" using False by (intro power_increasing) auto
    finally have less: "hex_value ds < 4294967296" using sig(4) by simp
    define u :: u32 where "u = of_nat (hex_value ds)"
    have u: "uint u = int (hex_value ds)"
      using less unfolding u_def by (simp add: unsigned_of_nat take_bit_nat_eq_self)
    have b: "(u AND 0x80000000 = 0) = (\<not> bit u 31)"
      using and_exp_eq_0_iff_not_bit[of u 31] by simp
    have stop: "\<not> sqlite3Isxdigit (char_at (sig @ rest) (length sig))"
    proof (cases rest)
      case Nil
      have "\<not> sqlite3Isxdigit 0" by (subst xdigit_iff) (auto simp: is_digit_def)
      then show ?thesis using Nil by (simp add: char_at_def)
    next
      case (Cons c cs)
      then show ?thesis using assms(2) by (simp add: char_at_def)
    qed
    have "get_hex32 (ds @ rest) = (if \<not> bit u 31 then Some (sint u) else None)"
      unfolding get take sig(4) using stop b by (simp add: u_def)
    then show ?thesis using high_bit[of 31 u] u by auto
  qed
qed

section \<open>Arithmetic\<close>

lemma i64_simps: "i64 x = Some y \<longleftrightarrow> y = x \<and> - (2 ^ 63) \<le> x \<and> x < 2 ^ 63"
  by (auto simp: i64_def)

definition in64 :: "int \<Rightarrow> bool" where "in64 x \<longleftrightarrow> - (2 ^ 63) \<le> x \<and> x < 2 ^ 63"

lemma i64_in64: "i64 x = (if in64 x then Some x else None)"
  by (simp add: i64_def in64_def)

lemma AddInt64_exact:
  "in64 a \<Longrightarrow> in64 b \<Longrightarrow>
   sqlite3AddInt64 a b = Some (if in64 (a + b) then (False, a + b) else (True, a))"
  by (auto simp: sqlite3AddInt64_def i64_in64 in64_def)

lemma SubInt64_exact:
  "in64 a \<Longrightarrow> in64 b \<Longrightarrow>
   sqlite3SubInt64 a b = Some (if in64 (a - b) then (False, a - b) else (True, a))"
proof (cases "b = - 9223372036854775808")
  case True
  then show "in64 a \<Longrightarrow> in64 b \<Longrightarrow> ?thesis"
    by (auto simp: sqlite3SubInt64_def i64_in64 in64_def)
next
  case False
  assume ab: "in64 a" "in64 b"
  then have "in64 (- b)" using False by (auto simp: in64_def)
  then show ?thesis
    using False AddInt64_exact[OF ab(1), of "- b"] by (simp add: sqlite3SubInt64_def i64_in64)
qed

lemma sdiv_pos: "0 \<le> x \<Longrightarrow> 0 < y \<Longrightarrow> x sdiv y = x div y"
  "x < 0 \<Longrightarrow> 0 < y \<Longrightarrow> x sdiv y = - ((- x) div y)" for x y :: int
  by (cases "x = 0") (auto simp: signed_divide_int_def)

lemma less_div_iff: "0 < b \<Longrightarrow> (m div b < a) \<longleftrightarrow> (m < a * b)" for a b m :: int
proof
  assume b: "0 < b" and "m div b < a"
  then have "(m div b + 1) * b \<le> a * b" by (intro mult_right_mono) auto
  moreover have "m = m div b * b + m mod b" by simp
  ultimately show "m < a * b" using pos_mod_bound[OF b, of m] unfolding distrib_right by linarith
next
  assume b: "0 < b" and less: "m < a * b"
  show "m div b < a"
  proof (rule ccontr)
    assume "\<not> m div b < a"
    then have "a * b \<le> m div b * b" using b by (intro mult_right_mono) auto
    moreover have "m = m div b * b + m mod b" by simp
    ultimately show False using less pos_mod_sign[OF b, of m] by linarith
  qed
qed

lemma quotient_bounds: "0 \<le> m \<Longrightarrow> 0 < b \<Longrightarrow> 0 \<le> m div b \<and> m div b \<le> m" for b m :: int
  by (cases "m = 0") (simp_all add: pos_imp_zdiv_nonneg_iff int_div_le_self)

lemma MulInt64_exact:
  assumes "in64 a" "in64 b"
  shows "sqlite3MulInt64 a b = Some (if in64 (a * b) then (False, a * b) else (True, a))"
proof -
  have q: "0 \<le> LARGEST_INT64 div y" "LARGEST_INT64 div y \<le> LARGEST_INT64"
      "0 \<le> 9223372036854775808 div y" "9223372036854775808 div y \<le> 9223372036854775808" if "0 < y" for y
    using quotient_bounds[of _ y] that by (simp_all del: div_pos_pos_trivial)
  consider "b = 0" | "a = 0" | "b > 0" "a > 0" | "b > 0" "a < 0" | "b < 0" "a > 0" | "b < 0" "a < 0" by linarith
  then show ?thesis
  proof cases
    case 1
    then show ?thesis by (simp add: sqlite3MulInt64_def i64_in64 in64_def)
  next
    case 2
    then show ?thesis
      using q[of b] by (cases "b > 0") (auto simp: sqlite3MulInt64_def Let_def i64_in64 in64_def sdiv_pos)
  next
    case 3
    have "a * b > 0" using 3 by simp
    then have "SMALLEST_INT64 \<le> a * b" by linarith
    then show ?thesis
      using 3 \<open>SMALLEST_INT64 \<le> a * b\<close> q[of b] less_div_iff[of b LARGEST_INT64 a]
      by (simp add: sqlite3MulInt64_def i64_in64 in64_def sdiv_pos)
  next
    case 4
    have "a * b < 0" using 4 by (simp add: mult_less_0_iff)
    then have "a * b \<le> LARGEST_INT64" by linarith
    then show ?thesis
      using 4 \<open>a * b \<le> LARGEST_INT64\<close> q[of b] less_div_iff[of b 9223372036854775808 "- a"]
      by (simp add: sqlite3MulInt64_def i64_in64 in64_def sdiv_pos) linarith
  next
    case 5
    have "a * b < 0" using 5 by (simp add: mult_less_0_iff)
    then have "a * b \<le> LARGEST_INT64" by linarith
    then show ?thesis
      using 5 \<open>a * b \<le> LARGEST_INT64\<close> q[of a] less_div_iff[of a 9223372036854775808 "- b"]
      by (simp add: sqlite3MulInt64_def i64_in64 in64_def sdiv_pos mult.commute) linarith
  next
    case 6
    have "a * b > 0" using 6 by (simp add: mult_neg_neg)
    then have "SMALLEST_INT64 \<le> a * b" by linarith
    show ?thesis
    proof (cases "b = SMALLEST_INT64 \<or> a = SMALLEST_INT64")
      case True
      then have "\<not> in64 (a * b)" using 6 by (auto simp: in64_def)
      then show ?thesis using True 6 by (auto simp: sqlite3MulInt64_def)
    next
      case False
      then have in64: "in64 (- a)" "in64 (- b)" using assms by (auto simp: in64_def)
      obtain c d where cd: "b = - c" "a = - d" "0 < c" "0 < d"
        using 6 by (metis minus_minus neg_0_less_iff_less)
      then show ?thesis
        using False in64 \<open>SMALLEST_INT64 \<le> a * b\<close> q[of c] less_div_iff[of c LARGEST_INT64 d]
        by (simp add: sqlite3MulInt64_def i64_in64 in64_def sdiv_pos)
    qed
  qed
qed

section \<open>Estimates\<close>

text \<open>What the estimate should be: ten times the exponent, plus a table of the next three bits.\<close>

definition logest_spec :: "nat \<Rightarrow> int" where
  "logest_spec x =
     (let k = bit_length x - 1
      in if k \<ge> 3 then 10 * int k + logest_a ! (x div 2 ^ (k - 3) - 8)
         else 10 * int k + logest_a ! (x * 2 ^ (3 - k) - 8))"

lemma bit_length_bounds: "0 < x \<Longrightarrow> 2 ^ (bit_length x - 1) \<le> x \<and> x < 2 ^ bit_length x \<and> 0 < bit_length x"
proof (induction x rule: bit_length.induct)
  case (1 x)
  show ?case
  proof (cases "x div 2 = 0")
    case True
    then have "x = 1" using 1 by auto
    then show ?thesis by (simp add: bit_length.simps)
  next
    case False
    let ?k = "bit_length (x div 2)"
    have IH: "2 ^ (?k - 1) \<le> x div 2" "x div 2 < 2 ^ ?k" "0 < ?k" using 1 False by auto
    have "bit_length x = Suc ?k" using 1 by (simp add: bit_length.simps[of x])
    moreover have "2 ^ ?k \<le> x"
    proof -
      obtain m where "?k = Suc m" using IH(3) by (cases ?k) auto
      then show ?thesis using IH(1) by simp
    qed
    ultimately show ?thesis using IH by simp
  qed
qed

lemma bit_length_unique: "2 ^ k \<le> x \<Longrightarrow> x < 2 ^ Suc k \<Longrightarrow> bit_length x = Suc k"
proof -
  assume x: "2 ^ k \<le> x" "x < 2 ^ Suc k"
  have "(0::nat) < 2 ^ k" by simp
  with x(1) have "0 < x" by (rule less_le_trans[rotated])
  then have b: "2 ^ (bit_length x - 1) \<le> x" "x < 2 ^ bit_length x" "0 < bit_length x"
    using bit_length_bounds by auto
  have "(2::nat) ^ k < 2 ^ bit_length x" using x b by linarith
  moreover have "(2::nat) ^ (bit_length x - 1) < 2 ^ Suc k" using x b by linarith
  ultimately have "k < bit_length x" "bit_length x - 1 < Suc k"
    using power_less_imp_less_exp[of "2::nat" k "bit_length x"]
      power_less_imp_less_exp[of "2::nat" "bit_length x - 1" "Suc k"] by simp_all
  then show ?thesis by linarith
qed

lemma logest_down1_ok:
  "8 \<le> x \<Longrightarrow> logest_down1 x y =
     (x div 2 ^ (bit_length x - 4), y + 10 * int (bit_length x - 4))"
proof (induction x y rule: logest_down1.induct)
  case (1 x y)
  show ?case
  proof (cases "x > 15")
    case True
    have len: "bit_length x = Suc (bit_length (x div 2))" using True by (simp add: bit_length.simps[of x])
    have "8 \<le> x div 2" using True by simp
    moreover from this have "4 \<le> bit_length (x div 2)"
      using bit_length_bounds[of "x div 2"] power_less_imp_less_exp[of "2::nat" 3 "bit_length (x div 2)"] by simp
    ultimately obtain m where "8 \<le> x div 2" "bit_length (x div 2) = 4 + m" by (auto simp: le_iff_add)
    then show ?thesis
      using 1(1)[OF True] True len by (subst logest_down1.simps) (simp add: div_mult2_eq[symmetric])
  next
    case False
    then have "bit_length x = Suc 3" using 1 by (intro bit_length_unique) auto
    then show ?thesis using False by (subst logest_down1.simps) simp
  qed
qed

lemma logest_down4_ok:
  "8 \<le> x \<Longrightarrow> (case logest_down4 x y of (x1, y1) \<Rightarrow> logest_down1 x1 y1) = logest_down1 x y"
proof (induction x y rule: logest_down4.induct)
  case (1 x y)
  show ?case
  proof (cases "x > 255")
    case True
    have "15 < x div 2" "15 < x div 4" "15 < x div 8" using True by simp_all
    then have step: "logest_down1 x y = logest_down1 (x div 16) (y + 40)"
      using True by (simp add: logest_down1.simps[of x] logest_down1.simps[of "x div 2"]
          logest_down1.simps[of "x div 4"] logest_down1.simps[of "x div 8"] div_mult2_eq[symmetric] add.commute)
    have "8 \<le> x div 16" using True by simp
    then show ?thesis using 1(1)[OF True] True step by (subst logest_down4.simps) simp
  next
    case False
    then show ?thesis by (subst logest_down4.simps) simp
  qed
qed

lemma LogEst_is_spec:
  assumes "2 \<le> x" "x < 2 ^ 64"
  shows "sqlite3LogEst gcc x = logest_spec x"
proof (cases "x < 8")
  case True
  then have "x \<in> {2, 3, 4, 5, 6, 7}" using assms by auto
  then show ?thesis
    by (elim insertE emptyE;
        simp add: sqlite3LogEst_def logest_spec_def logest_up.simps bit_length.simps logest_a_def Let_def)
next
  case False
  let ?b = "bit_length x"
  have b: "2 ^ (?b - 1) \<le> x" "x < 2 ^ ?b" "0 < ?b" using bit_length_bounds[of x] assms by auto
  have "(2::nat) ^ (?b - 1) < 2 ^ 64" using b(1) assms(2) by (rule le_less_trans)
  then have hi: "?b \<le> 64" using power_less_imp_less_exp[of "2::nat" "?b - 1" 64] by simp
  have "(2::nat) ^ 3 < 2 ^ ?b" using False b by simp
  then have lo: "4 \<le> ?b" using power_less_imp_less_exp[of "2::nat" 3 ?b] by simp
  let ?x = "x div 2 ^ (?b - 4)"
  obtain m where m4: "?b = 4 + m" using lo by (auto simp: le_iff_add)
  then have p: "(2::nat) ^ ?b = 16 * 2 ^ (?b - 4)" "(2::nat) ^ (?b - 1) = 8 * 2 ^ (?b - 4)"
    by (simp_all add: power_add)
  have "8 \<le> ?x" using b(1) p(2) by (simp add: less_eq_div_iff_mult_less_eq)
  moreover have "?x < 16" using b(2) p(1) by (simp add: div_less_iff_less_mult)
  ultimately have m: "?x mod 8 = ?x - 8" by (simp add: mod_if)
  have gcc: "60 - clz x = ?b - 4" using hi lo by (simp add: clz_def)
  have "sqlite3LogEst gcc x = logest_a ! (?x mod 8) + (40 + 10 * int (?b - 4)) - 10"
    using False assms logest_down4_ok[of x 40] logest_down1_ok[of x 40]
    by (auto simp: sqlite3LogEst_def gcc Let_def split: prod.splits)
  then show ?thesis using lo m by (simp add: logest_spec_def Let_def m4)
qed

lemma logest_window:
  assumes "2 \<le> x"
  obtains r where "logest_spec x = int r" "2 ^ r \<le> 2 * x ^ 10" "x ^ 10 < 2 ^ (r + 2)"
proof (cases "x < 8")
  case True
  then have "x \<in> {2, 3, 4, 5, 6, 7}" using assms by auto
  then show ?thesis
    using that[of "nat (logest_spec x)"]
    by (elim insertE emptyE; simp add: logest_spec_def bit_length.simps logest_a_def)
next
  case False
  let ?b = "bit_length x"
  have b: "2 ^ (?b - 1) \<le> x" "x < 2 ^ ?b" "0 < ?b" using bit_length_bounds[of x] assms by auto
  have "(2::nat) ^ 3 < 2 ^ ?b" using False b by simp
  then have "4 \<le> ?b" using power_less_imp_less_exp[of "2::nat" 3 ?b] by simp
  then obtain e where e: "?b = 4 + e" by (auto simp: le_iff_add)
  define t where "t = x div 2 ^ e"
  have "8 * 2 ^ e \<le> x" "x < 16 * 2 ^ e" using b e by (simp_all add: power_add)
  then have t: "8 \<le> t" "t < 16"
    unfolding t_def by (simp_all add: less_eq_div_iff_mult_less_eq div_less_iff_less_mult)
  have lo: "t * 2 ^ e \<le> x" unfolding t_def by simp
  have hi: "x < (t + 1) * 2 ^ e"
    unfolding t_def using dividend_less_div_times[of "2 ^ e" x] by (simp add: algebra_simps)
  define r where "r = 10 * e + (30 + nat (logest_a ! (t - 8)))"
  have tab: "0 \<le> logest_a ! (t - 8)" "2 ^ (30 + nat (logest_a ! (t - 8))) \<le> 2 * t ^ 10"
    "(t + 1) ^ 10 \<le> 2 ^ (30 + nat (logest_a ! (t - 8)) + 2)"
  proof -
    have "t \<in> {8, 9, 10, 11, 12, 13, 14, 15}" using t by auto
    then show "0 \<le> logest_a ! (t - 8)" "2 ^ (30 + nat (logest_a ! (t - 8))) \<le> 2 * t ^ 10"
      "(t + 1) ^ 10 \<le> 2 ^ (30 + nat (logest_a ! (t - 8)) + 2)"
      by (elim insertE emptyE; simp add: logest_a_def)+
  qed
  have pow: "(2 ^ e) ^ 10 = (2 :: nat) ^ (10 * e)" by (simp add: power_mult[symmetric] mult.commute)
  show ?thesis
  proof (rule that[of r])
    show "logest_spec x = int r"
      using tab(1) by (simp add: logest_spec_def Let_def e r_def t_def)
    have "2 ^ r = 2 ^ (10 * e) * (2 :: nat) ^ (30 + nat (logest_a ! (t - 8)))"
      unfolding r_def by (rule power_add)
    also have "\<dots> \<le> 2 ^ (10 * e) * (2 * t ^ 10)" using tab(2) by (intro mult_left_mono) auto
    also have "\<dots> = 2 * (t * 2 ^ e) ^ 10" unfolding power_mult_distrib pow by simp
    also have "\<dots> \<le> 2 * x ^ 10" using power_mono[OF lo, of 10] by simp
    finally show "2 ^ r \<le> 2 * x ^ 10" .
    have "x ^ 10 < ((t + 1) * 2 ^ e) ^ 10" using hi by (intro power_strict_mono) auto
    also have "\<dots> = (t + 1) ^ 10 * 2 ^ (10 * e)" unfolding power_mult_distrib pow ..
    also have "\<dots> \<le> 2 ^ (30 + nat (logest_a ! (t - 8)) + 2) * 2 ^ (10 * e)"
      using tab(3) by (intro mult_right_mono) auto
    also have "\<dots> = 2 ^ (r + 2)" unfolding r_def power_add[symmetric] by (simp add: algebra_simps)
    finally show "x ^ 10 < 2 ^ (r + 2)" .
  qed
qed

lemma logest_add_x_bounds:
  assumes "0 \<le> d" "d \<le> 31"
  shows "2 \<le> logest_add_x ! nat d \<and> logest_add_x ! nat d \<le> 10"
proof -
  have k: "nat d < 32" using assms by linarith
  have all: "list_all (\<lambda>y. 2 \<le> y \<and> y \<le> 10) logest_add_x" by code_simp
  have len: "length logest_add_x = 32" by code_simp
  show ?thesis using all k len unfolding list_all_length by simp
qed

lemma to_i16_id: "- (2 ^ 15) \<le> x \<Longrightarrow> x < 2 ^ 15 \<Longrightarrow> to_i16 x = x"
  by (simp add: to_i16_def)

lemma LogEstAdd_bounds:
  assumes "- (2 ^ 15) \<le> a" "- (2 ^ 15) \<le> b" "max a b \<le> 32757"
  shows "max a b \<le> sqlite3LogEstAdd a b \<and> sqlite3LogEstAdd a b \<le> max a b + 10"
proof (cases "a \<ge> b")
  case True
  then show ?thesis using logest_add_x_bounds[of "a - b"] assms
    by (cases "a - b \<le> 31") (auto simp: sqlite3LogEstAdd_def to_i16_id)
next
  case False
  then show ?thesis using logest_add_x_bounds[of "b - a"] assms
    by (cases "b - a \<le> 31") (auto simp: sqlite3LogEstAdd_def to_i16_id)
qed

lemma LogEstAdd_commute: "sqlite3LogEstAdd a b = sqlite3LogEstAdd b a"
  by (auto simp: sqlite3LogEstAdd_def)

section \<open>Properties\<close>

text \<open>C19. Reading a 64-bit integer: for text of spaces, an optional sign, digits and anything behind
  them, in UTF-8 or in 16-bit units of either UTF-16 (which may have high bytes that are not zero),
  \<open>sqlite3Atoi64\<close> stores the exact value, or the nearest 64-bit integer when it does not fit, and
  returns 0, 1 for trailing text that is not space, 2 for a value out of range and 3 for two to the 63
  without a minus sign, although its accumulator wraps and the comparison looks at nineteen characters
  only; without digits it stores 0 and returns 1. Hexadecimal literals of at most 16 significant digits
  are read as two's complement.\<close>

theorem atoi64_exact:
  assumes "number_text sp sign ds rest"
    and "enc \<in> {SQLITE_UTF8, SQLITE_UTF16LE, SQLITE_UTF16BE}" and "enc = SQLITE_UTF8 \<longrightarrow> list_all (\<lambda>c. c < 256) rest"
    and "list_all hex_digit hs" and "length (dropWhile (\<lambda>c. c = 48) hs) \<le> 16" and "x \<in> {88, 120}"
  shows "sqlite3Atoi64 (encode_text enc (sp @ sign @ ds @ rest))
        (length (encode_text enc (sp @ sign @ ds @ rest))) enc = atoi64_spec (sign = [45]) ds rest
    \<and> sqlite3DecOrHexToI64 (48 # x # hs) =
        (0, if hex_value hs < 2 ^ 63 then int (hex_value hs) else int (hex_value hs) - 2 ^ 64)"
proof
  have "list_all (\<lambda>c. c < 256) (sp @ sign @ ds @ rest)" if "enc = SQLITE_UTF8"
    using assms(1,3) that by (auto simp: number_text_def list_all_iff is_digit_def)
  then show "sqlite3Atoi64 (encode_text enc (sp @ sign @ ds @ rest))
      (length (encode_text enc (sp @ sign @ ds @ rest))) enc = atoi64_spec (sign = [45]) ds rest"
    using Atoi64_encoded[OF assms(2)] scan_number_correct[OF assms(1)] by metis
  define sig where "sig = dropWhile (\<lambda>c. c = 48) hs"
  note sig = hex_significant[OF assms(4), of "[]", folded sig_def, unfolded append_Nil2, OF disjI1[OF refl]]
  have "hex_value sig < 16 ^ length sig" by (rule hex_value_less)
  also have "\<dots> \<le> 16 ^ 16" using assms(5) unfolding sig_def by (intro power_increasing) auto
  finally have less: "hex_value hs < 2 ^ 64" using sig by simp
  define u :: u64 where "u = of_nat (hex_value hs)"
  have u: "uint u = int (hex_value hs)"
    using less unfolding u_def by (simp add: unsigned_of_nat take_bit_nat_eq_self)
  have "sqlite3DecOrHexToI64 (48 # x # hs) = (0, sint u)"
  proof -
    have "dropWhile (\<lambda>c. c = 48) (drop 2 (48 # x # hs)) = sig" by (simp add: sig_def)
    note def = sqlite3DecOrHexToI64_def[of "48 # x # hs", unfolded this Let_def sig(3) fold_hex_word sig(4)]
    show ?thesis using assms(5,6) unfolding def by (auto simp: char_at_def u_def sig_def)
  qed
  then show "sqlite3DecOrHexToI64 (48 # x # hs) =
      (0, if hex_value hs < 2 ^ 63 then int (hex_value hs) else int (hex_value hs) - 2 ^ 64)"
    using high_bit[of 63 u] u by auto
qed

theorem atoi64_exact_witness:
  "sqlite3Atoi64 [32, 0, 45, 0, 57, 0, 57, 0, 32, 1] (length [32 :: nat, 0, 45, 0, 57, 0, 57, 0, 32, 1]) SQLITE_UTF16LE = (1, -99)
   \<and> sqlite3DecOrHexToI64 [48, 120, 102, 70] = (0, 255)"
  using atoi64_exact[of "[32]" "[45]" "[57, 57]" "[288]" SQLITE_UTF16LE "[102, 70]" 120]
  by (simp add: number_text_def space_iff is_digit_def encode_text_def atoi64_spec_def hex_digit_def xdigit_iff
      sqlite3HexToInt_def)

text \<open>C20. Reading a 32-bit integer: \<open>sqlite3GetInt32\<close> succeeds exactly when the string starts with
  a signed decimal number between minus two to the 31 and two to the 31 less one, or with a
  hexadecimal number below two to the 31, and then gives that number; a string that starts with neither,
  such as one without digits, is refused, and \<open>sqlite3Atoi\<close> gives zero for whatever is refused.\<close>

theorem getInt32_exact:
  assumes "sign \<in> {[], [43], [45]}" and "list_all is_digit ds" and "list_all (\<lambda>c. c < 256) rest"
    and "rest = [] \<or> \<not> is_digit (hd rest)" and "sign = [] \<and> ds = [] \<longrightarrow> ch rest \<notin> {43, 45}"
    and "sign = [] \<and> ds = [48] \<and> ch rest \<in> {88, 120} \<longrightarrow> \<not> sqlite3Isxdigit (char_at rest 1)"
    and "list_all hex_digit hs" and "hs \<noteq> []" and "hrest = [] \<or> \<not> sqlite3Isxdigit (hd hrest)" and "x \<in> {88, 120}"
  shows "let v = (if sign = [45] then - int (decimal ds) else int (decimal ds));
      r = (if ds \<noteq> [] \<and> - (2 ^ 31) \<le> v \<and> v < 2 ^ 31 then Some v else None)
    in sqlite3GetInt32 (sign @ ds @ rest) = r
       \<and> sqlite3Atoi (Some (sign @ ds @ rest)) = (case r of None \<Rightarrow> 0 | Some x \<Rightarrow> x)
       \<and> sqlite3GetInt32 (48 # x # hs @ hrest) =
           (if hex_value hs < 2 ^ 31 then Some (int (hex_value hs)) else None)"
proof -
  have hx: "sqlite3GetInt32 (48 # x # hs @ hrest) = get_hex32 (hs @ hrest)"
  proof -
    have "sqlite3Isxdigit (char_at (48 # x # hs @ hrest) 2)"
      using assms(7,8) by (cases hs) (auto simp: char_at_def hex_digit_def)
    then show ?thesis using assms(10) by (auto simp: sqlite3GetInt32_def char_at_def)
  qed
  have dec: "sqlite3GetInt32 (sign @ ds @ rest) = get_dec32 (sign = [45]) (ds @ rest)"
  proof (cases "sign = []")
    case True
    have hd: "ch (ds @ rest) \<noteq> 45 \<and> ch (ds @ rest) \<noteq> 43"
      using assms(2,5) True by (cases ds) (auto simp: is_digit_def)
    have nohex: "\<not> (ch (ds @ rest) = 48 \<and> (char_at (ds @ rest) 1 = 120 \<or> char_at (ds @ rest) 1 = 88) \<and> sqlite3Isxdigit (char_at (ds @ rest) 2))"
    proof (cases ds)
      case Nil
      then show ?thesis using assms(4) by (cases rest) (auto simp: is_digit_def)
    next
      case (Cons c es)
      show ?thesis
      proof (cases es)
        case Nil
        have e: "char_at (c # rest) 1 = ch rest" "char_at (c # rest) 2 = char_at rest 1"
          by (cases rest; simp add: char_at_def)+
        show ?thesis using assms(6) True unfolding Cons Nil by (auto simp: e e(1)[unfolded One_nat_def])
      next
        case (Cons e fs)
        then show ?thesis using \<open>ds = c # es\<close> assms(2) by (auto simp: char_at_def is_digit_def)
      qed
    qed
    show ?thesis using True hd nohex by (auto simp: sqlite3GetInt32_def)
  next
    case False
    then show ?thesis using assms(1) by (auto simp: sqlite3GetInt32_def)
  qed
  have val: "get_dec32 neg (ds @ rest) =
    (if ds \<noteq> [] \<and> int (decimal ds) \<le> (if neg then 2147483648 else 2147483647)
     then Some (if neg then - int (decimal ds) else int (decimal ds)) else None)" for neg
  proof (cases "ds = []")
    case True
    have "\<not> sqlite3Isdigit (ch rest)"
    proof (cases rest)
      case Nil
      then show ?thesis by (simp add: isdigit_iff is_digit_def)
    next
      case (Cons c cs)
      then show ?thesis using assms(3,4) isdigit_iff[of c] by simp
    qed
    then show ?thesis using True by (simp add: get_dec32_def)
  next
    case False
    then show ?thesis using get_dec32_correct[OF assms(2) False assms(4), of neg] by simp
  qed
  show ?thesis
    unfolding Let_def hx dec sqlite3Atoi_def val get_hex32_correct[OF assms(7,9)]
    by (auto simp: dec val)
qed

theorem getInt32_exact_witness:
  "sqlite3GetInt32 [45, 50, 49, 52, 55, 52, 56, 51, 54, 52, 56, 65] = Some (- 2147483648)
   \<and> sqlite3GetInt32 [48, 88, 55, 102] = Some 127 \<and> sqlite3GetInt32 [97, 98] = None"
  using getInt32_exact[of "[45]" "[50, 49, 52, 55, 52, 56, 51, 54, 52, 56]" "[65]" "[55, 102]" "[]" 88]
    getInt32_exact[of "[]" "[]" "[97, 98]" "[55]" "[]" 88]
  by (simp add: is_digit_def hex_digit_def xdigit_iff sqlite3HexToInt_def Let_def)

text \<open>C21. The checked 64-bit operations are exact: for all 64-bit operands the addition, subtraction
  and multiplication evaluate without any signed overflow of their own, report overflow exactly
  when the mathematical result does not fit, and then leave the operand unchanged.\<close>

theorem int64_arithmetic_exact:
  assumes "in64 a" and "in64 b"
  shows "sqlite3AddInt64 a b = Some (if in64 (a + b) then (False, a + b) else (True, a))
    \<and> sqlite3SubInt64 a b = Some (if in64 (a - b) then (False, a - b) else (True, a))
    \<and> sqlite3MulInt64 a b = Some (if in64 (a * b) then (False, a * b) else (True, a))"
  using AddInt64_exact SubInt64_exact MulInt64_exact assms by blast

theorem int64_arithmetic_exact_witness:
  "sqlite3MulInt64 (- (2 ^ 62)) 2 = Some (False, - (2 ^ 63))
   \<and> sqlite3SubInt64 (- (2 ^ 62)) 2 = Some (False, - (2 ^ 62) - 2)"
  using int64_arithmetic_exact[of "- (2 ^ 62)" 2] by (simp add: in64_def)

text \<open>C22. Estimates: for a positive 64-bit number the build with a count of leading zeros and the build
  with loops give the same estimate \<open>r\<close> of ten times the binary logarithm, never more than one
  above and less than two below it; the sum of two estimates is symmetric and, for estimates of at
  most 32757, so that ten more fit into 16 bits, between the larger one and ten above it; the estimate of
  a power of two is turned back into it.\<close>

theorem logest_accurate:
  assumes "1 \<le> x" and "x < 2 ^ 64" and "k \<le> 60"
    and "- (2 ^ 15) \<le> a" and "- (2 ^ 15) \<le> b" and "max a b \<le> 32757"
  shows "(\<exists>r. sqlite3LogEst True x = int r \<and> sqlite3LogEst False x = int r
        \<and> 2 ^ r \<le> 2 * x ^ 10 \<and> x ^ 10 < 2 ^ (r + 2))
    \<and> sqlite3LogEstAdd a b = sqlite3LogEstAdd b a
    \<and> max a b \<le> sqlite3LogEstAdd a b \<and> sqlite3LogEstAdd a b \<le> max a b + 10
    \<and> sqlite3LogEstToInt (10 * k) = 2 ^ k"
proof (intro conjI)
  show "\<exists>r. sqlite3LogEst True x = int r \<and> sqlite3LogEst False x = int r
      \<and> 2 ^ r \<le> 2 * x ^ 10 \<and> x ^ 10 < 2 ^ (r + 2)"
  proof (cases "x = 1")
    case True
    then show ?thesis by (intro exI[of _ 0]) (simp add: sqlite3LogEst_def)
  next
    case False
    then have "2 \<le> x" using assms by simp
    then show ?thesis using logest_window[of x] LogEst_is_spec[of x] assms(2) by metis
  qed
  show "sqlite3LogEstToInt (10 * k) = 2 ^ k"
  proof (cases "k \<ge> 3")
    case True
    then obtain m where "k = 3 + m" by (auto simp: le_iff_add)
    then show ?thesis using assms(3) by (simp add: sqlite3LogEstToInt_def power_add)
  next
    case False
    then have "k \<in> {0, 1, 2}" by auto
    then show ?thesis by (auto simp: sqlite3LogEstToInt_def)
  qed
qed (use LogEstAdd_bounds[OF assms(4-6)] LogEstAdd_commute in auto)

theorem logest_accurate_witness:
  "sqlite3LogEst True 1000 = sqlite3LogEst False 1000 \<and> sqlite3LogEstToInt 100 = 1024
   \<and> 99 \<le> sqlite3LogEstAdd 99 70 \<and> sqlite3LogEstAdd 99 70 \<le> 109"
  using logest_accurate[of 1000 10 99 70] by auto

end
