(* ===== verification/Sqlite_Utf.thy ===== *)
theory Sqlite_Utf
  imports Sqlite_Chars
begin

text \<open>
  Unicode text in SQLite: \<open>src/utf.c\<close> (decoding UTF-8 as it comes, the writers and readers of
  UTF-8 and UTF-16, the translation of a value between encodings, byte order marks, lengths) and
  the SQL functions \<open>char\<close> and \<open>unicode\<close> of \<open>src/func.c\<close>.

  Text is the list of its bytes up to its end; a byte is a number below 256. A code point is a
  number below two to the 32, and the shift of the decoder wraps there, as the source's
  \<open>unsigned int\<close> does.
\<close>

section \<open>Decoding and encoding UTF-8\<close>

definition sqlite3Utf8Trans1 :: "nat list" where
  "sqlite3Utf8Trans1 = [
     0x00, 0x01, 0x02, 0x03, 0x04, 0x05, 0x06, 0x07, 0x08, 0x09, 0x0a, 0x0b, 0x0c, 0x0d, 0x0e, 0x0f,
     0x10, 0x11, 0x12, 0x13, 0x14, 0x15, 0x16, 0x17, 0x18, 0x19, 0x1a, 0x1b, 0x1c, 0x1d, 0x1e, 0x1f,
     0x00, 0x01, 0x02, 0x03, 0x04, 0x05, 0x06, 0x07, 0x08, 0x09, 0x0a, 0x0b, 0x0c, 0x0d, 0x0e, 0x0f,
     0x00, 0x01, 0x02, 0x03, 0x04, 0x05, 0x06, 0x07, 0x00, 0x01, 0x02, 0x03, 0x00, 0x01, 0x00, 0x00]"

definition is_cont :: "nat \<Rightarrow> bool" where "is_cont b \<longleftrightarrow> b AND 0xc0 = 0x80"

fun cont_loop :: "nat \<Rightarrow> cstring \<Rightarrow> nat \<times> cstring" where
  "cont_loop c [] = (c, [])"
| "cont_loop c (b # z) =
     (if is_cont b then cont_loop ((push_bit 6 c + (b AND 0x3f)) mod 2 ^ 32) z else (c, b # z))"

definition bad_char :: "nat \<Rightarrow> bool" where
  "bad_char c \<longleftrightarrow> c < 0x80 \<or> c AND 0xFFFFF800 = 0xD800 \<or> c AND 0xFFFFFFFE = 0xFFFE"

text \<open>A character is read from the front of the text; at its end the function reads the terminating
  zero. The macro stops at the end of the text and the function at the terminating zero, which is
  not a continuation byte, so that they are the same on the text.\<close>

definition READ_UTF8 :: "cstring \<Rightarrow> nat \<times> cstring" where
  "READ_UTF8 z =
     (case z of
        [] \<Rightarrow> (0, [])
      | b # z' \<Rightarrow>
          if b \<ge> 0xc0 then
            let (c, z'') = cont_loop (sqlite3Utf8Trans1 ! (b - 0xc0)) z'
            in (if bad_char c then 0xFFFD else c, z'')
          else (b, z'))"

definition sqlite3Utf8Read :: "cstring \<Rightarrow> nat \<times> cstring" where
  "sqlite3Utf8Read z = READ_UTF8 z"

definition skip_utf8 :: "cstring \<Rightarrow> cstring" where
  "skip_utf8 z = (case z of [] \<Rightarrow> [] | b # z' \<Rightarrow> if b \<ge> 0xc0 then dropWhile is_cont z' else z')"

definition WRITE_UTF8 :: "nat \<Rightarrow> cstring" where
  "WRITE_UTF8 c =
     (if c < 0x80 then [c AND 0xFF]
      else if c < 0x800 then [0xC0 + (drop_bit 6 c AND 0x1F), 0x80 + (c AND 0x3F)]
      else if c < 0x10000 then
        [0xE0 + (drop_bit 12 c AND 0x0F), 0x80 + (drop_bit 6 c AND 0x3F), 0x80 + (c AND 0x3F)]
      else
        [0xF0 + (drop_bit 18 c AND 0x07), 0x80 + (drop_bit 12 c AND 0x3F),
         0x80 + (drop_bit 6 c AND 0x3F), 0x80 + (c AND 0x3F)])"

section \<open>UTF-16\<close>

text \<open>\<open>pair big hi lo\<close> lays out the two bytes of a code unit.\<close>

definition pair :: "bool \<Rightarrow> nat \<Rightarrow> nat \<Rightarrow> cstring" where
  "pair big hi lo = (if big then [hi, lo] else [lo, hi])"

definition WRITE_UTF16 :: "bool \<Rightarrow> nat \<Rightarrow> cstring" where
  "WRITE_UTF16 big c =
     (if c \<le> 0xFFFF then pair big (drop_bit 8 c AND 0xFF) (c AND 0xFF)
      else pair big ((0xD8 + (drop_bit 18 (c - 0x10000) AND 0x03)) mod 256)
             (((drop_bit 10 c AND 0x3F) + (drop_bit 10 (c - 0x10000) AND 0xC0)) mod 256)
         @ pair big ((0xDC + (drop_bit 8 c AND 0x03)) mod 256) (c AND 0xFF))"

definition unit_at :: "bool \<Rightarrow> cstring \<Rightarrow> nat" where
  "unit_at big z = (if big then push_bit 8 (char_at z 0) + char_at z 1 else char_at z 0 + push_bit 8 (char_at z 1))"

text \<open>\<open>cond\<close> is the macro's condition, evaluated behind the first code unit.\<close>

definition READ_UTF16 :: "bool \<Rightarrow> (cstring \<Rightarrow> bool) \<Rightarrow> cstring \<Rightarrow> nat \<times> cstring" where
  "READ_UTF16 big cond z =
     (let c = unit_at big z; z = drop 2 z
      in if c \<ge> 0xD800 \<and> c < 0xE000 \<and> cond z then
           let c2 = unit_at big z
           in ((c2 AND 0x03FF) + push_bit 10 (c AND 0x003F) + push_bit 10 ((c AND 0x03C0) + 0x0040), drop 2 z)
         else (c, z))"

section \<open>Translation of values\<close>

record mem =
  mem_z :: cstring
  mem_enc :: nat

abbreviation (input) "SQLITE_OK \<equiv> (0 :: nat)"
abbreviation (input) "SQLITE_NOMEM \<equiv> (7 :: nat)"

fun swap_bytes :: "cstring \<Rightarrow> cstring" where
  "swap_bytes (a # b # z) = b # a # swap_bytes z"
| "swap_bytes z = z"

lemma cont_loop_length: "length (snd (cont_loop c z)) \<le> length z"
  by (induction c z rule: cont_loop.induct) auto

lemma READ_UTF8_length: "z \<noteq> [] \<Longrightarrow> length (snd (READ_UTF8 z)) < length z"
proof (cases z)
  case (Cons b z')
  then show ?thesis
    using cont_loop_length[of "sqlite3Utf8Trans1 ! (b - 192)" z']
    by (auto simp: READ_UTF8_def less_Suc_eq_le split: prod.split)
qed simp

lemma READ_UTF8_shorter: "(c, z') = READ_UTF8 z \<Longrightarrow> z \<noteq> [] \<Longrightarrow> length z' < length z"
  using READ_UTF8_length[of z] by (cases "READ_UTF8 z") auto

function utf8_to_16 :: "bool \<Rightarrow> cstring \<Rightarrow> cstring" where
  "utf8_to_16 big zIn =
     (if zIn = [] then []
      else let (c, zIn') = READ_UTF8 zIn in WRITE_UTF16 big c @ utf8_to_16 big zIn')"
  by pat_completeness auto
termination
  by (relation "measure (\<lambda>(big, z). length z)") (auto dest: READ_UTF8_shorter)

declare utf8_to_16.simps [simp del]

lemma READ_UTF16_shorter: "(c, z') = READ_UTF16 big cond z \<Longrightarrow> z \<noteq> [] \<Longrightarrow> length z' < length z"
  by (cases z) (auto simp: READ_UTF16_def Let_def split: if_splits)

function utf16_to_8 :: "bool \<Rightarrow> cstring \<Rightarrow> cstring" where
  "utf16_to_8 big zIn =
     (if zIn = [] then []
      else let (c, zIn') = READ_UTF16 big (\<lambda>z. z \<noteq> []) zIn in WRITE_UTF8 c @ utf16_to_8 big zIn')"
  by pat_completeness auto
termination
  by (relation "measure (\<lambda>(big, z). length z)") (auto dest: READ_UTF16_shorter)

declare utf16_to_8.simps [simp del]

text \<open>\<open>writable\<close> and \<open>malloc\<close> tell whether the two allocations succeed. The result is the return
  code and the value; when the code is not zero the value is unchanged.\<close>

definition sqlite3VdbeMemTranslate ::
    "bool \<Rightarrow> (nat \<Rightarrow> bool) \<Rightarrow> mem \<Rightarrow> nat \<Rightarrow> nat \<times> mem" where
  "sqlite3VdbeMemTranslate writable malloc pMem desiredEnc =
     (if mem_enc pMem \<noteq> SQLITE_UTF8 \<and> desiredEnc \<noteq> SQLITE_UTF8 then
        if \<not> writable then (SQLITE_NOMEM, pMem)
        else (SQLITE_OK, pMem\<lparr>mem_z := swap_bytes (mem_z pMem), mem_enc := desiredEnc\<rparr>)
      else
        let n = length (mem_z pMem);
            z = (if desiredEnc = SQLITE_UTF8 then take (n - n mod 2) (mem_z pMem) else mem_z pMem);
            len = length z * 2 + (if desiredEnc = SQLITE_UTF8 then 1 else 2)
        in if \<not> malloc len then (SQLITE_NOMEM, pMem\<lparr>mem_z := z\<rparr>)
           else let out = (if mem_enc pMem = SQLITE_UTF8 then utf8_to_16 (desiredEnc \<noteq> SQLITE_UTF16LE) z
                           else utf16_to_8 (mem_enc pMem \<noteq> SQLITE_UTF16LE) z)
                in (SQLITE_OK, pMem\<lparr>mem_z := out, mem_enc := desiredEnc\<rparr>))"

definition sqlite3VdbeMemHandleBom :: "bool \<Rightarrow> mem \<Rightarrow> nat \<times> mem" where
  "sqlite3VdbeMemHandleBom writable pMem =
     (let z = mem_z pMem;
          bom = (if length z > 1 then
                   (if char_at z 0 = 0xFF \<and> char_at z 1 = 0xFE then SQLITE_UTF16LE
                    else if char_at z 0 = 0xFE \<and> char_at z 1 = 0xFF then SQLITE_UTF16BE else 0)
                 else 0)
      in if bom = 0 then (SQLITE_OK, pMem)
         else if \<not> writable then (SQLITE_NOMEM, pMem)
         else (SQLITE_OK, pMem\<lparr>mem_z := drop 2 z, mem_enc := bom\<rparr>))"

section \<open>Lengths\<close>

lemma skip_utf8_shorter: "z \<noteq> [] \<Longrightarrow> length (skip_utf8 z) < length z"
  by (cases z) (auto simp: skip_utf8_def less_Suc_eq_le length_dropWhile_le)

text \<open>\<open>limit\<close> is the number of bytes up to \<open>zTerm\<close>; \<open>None\<close> when there is no limit.\<close>

function char_len :: "cstring \<Rightarrow> nat option \<Rightarrow> nat" where
  "char_len z limit =
     (if ch z = 0 \<or> limit = Some 0 then 0
      else Suc (char_len (skip_utf8 z) (map_option (\<lambda>n. n - (length z - length (skip_utf8 z))) limit)))"
  by pat_completeness auto
termination
proof (relation "measure (\<lambda>(z, limit). length z)")
  show "((skip_utf8 z, map_option (\<lambda>n. n - (length z - length (skip_utf8 z))) limit), (z, limit))
      \<in> measure (\<lambda>(z, limit). length z)" if "\<not> (ch z = 0 \<or> limit = Some 0)" for z limit
    using that skip_utf8_shorter[of z] by (cases z) auto
qed simp

declare char_len.simps [simp del]

definition sqlite3Utf8CharLen :: "cstring \<Rightarrow> int \<Rightarrow> nat" where
  "sqlite3Utf8CharLen zIn nByte = char_len zIn (if nByte \<ge> 0 then Some (nat nByte) else None)"

fun byte_len :: "bool \<Rightarrow> cstring \<Rightarrow> nat \<Rightarrow> cstring" where
  "byte_len big z 0 = z"
| "byte_len big z (Suc n) = byte_len big (snd (READ_UTF16 big (\<lambda>_. True) z)) n"

text \<open>\<open>native_big\<close> is the byte order of the machine.\<close>

definition sqlite3Utf16ByteLen :: "bool \<Rightarrow> cstring \<Rightarrow> nat \<Rightarrow> nat" where
  "sqlite3Utf16ByteLen native_big zIn nChar = length zIn - length (byte_len native_big zIn nChar)"

section \<open>The SQL functions char and unicode\<close>

definition char_bytes :: "int \<Rightarrow> cstring" where
  "char_bytes x =
     (let x = (if x < 0 \<or> x > 0x10ffff then 0xfffd else x);
          c = nat x AND 0x1fffff
      in if c < 0x80 then [c AND 0xFF]
         else if c < 0x800 then [0xC0 + (drop_bit 6 c AND 0x1F), 0x80 + (c AND 0x3F)]
         else if c < 0x10000 then
           [0xE0 + (drop_bit 12 c AND 0x0F), 0x80 + (drop_bit 6 c AND 0x3F), 0x80 + (c AND 0x3F)]
         else
           [0xF0 + (drop_bit 18 c AND 0x07), 0x80 + (drop_bit 12 c AND 0x3F),
            0x80 + (drop_bit 6 c AND 0x3F), 0x80 + (c AND 0x3F)])"

definition charFunc :: "bool \<Rightarrow> int list \<Rightarrow> cstring option" where
  "charFunc malloc args = (if malloc then Some (concat (map char_bytes args)) else None)"

definition unicodeFunc :: "cstring option \<Rightarrow> nat option" where
  "unicodeFunc z = (case z of None \<Rightarrow> None | Some z \<Rightarrow> if ch z \<noteq> 0 then Some (fst (sqlite3Utf8Read z)) else None)"

section \<open>Bit operations as arithmetic\<close>

lemma and_masks:
  "n AND 0x03 = n mod 4" "n AND 0x07 = n mod 8" "n AND 0x0F = n mod 16" "n AND 0x1F = n mod 32"
  "n AND 0x3F = n mod 64" "n AND 0xFF = n mod 256" "n AND 0x3FF = n mod 1024"
  "n AND 0x1FFFFF = n mod 2097152" for n :: nat
  using take_bit_eq_mask[of 2 n] take_bit_eq_mask[of 3 n] take_bit_eq_mask[of 4 n] take_bit_eq_mask[of 5 n]
    take_bit_eq_mask[of 6 n] take_bit_eq_mask[of 8 n] take_bit_eq_mask[of 10 n] take_bit_eq_mask[of 21 n]
  by (simp_all add: take_bit_eq_mod mask_eq_exp_minus_1)

lemma and_high:
  fixes c :: nat
  assumes "c < 2 ^ (n + m)"
  shows "c AND push_bit n (mask m) = push_bit n (drop_bit n c)"
proof (rule bit_eqI)
  fix k
  have "take_bit (n + m) c = c" using assms by (rule take_bit_nat_eq_self)
  then have "bit c k \<Longrightarrow> k < n + m" by (metis bit_take_bit_iff)
  then show "bit (c AND push_bit n (mask m)) k = bit (push_bit n (drop_bit n c)) k"
    by (auto simp: bit_simps)
qed

lemma and_middle: "c AND push_bit n (mask m) = push_bit n (take_bit m (drop_bit n c))" for c :: nat
  by (rule bit_eqI) (auto simp: bit_simps)

lemma high_masks:
  "(0xc0 :: nat) = push_bit 6 (mask 2)" "(0xFFFFF800 :: nat) = push_bit 11 (mask 21)"
  "(0xFFFFFFFE :: nat) = push_bit 1 (mask 31)" "(0x3C0 :: nat) = push_bit 6 (mask 4)"
  unfolding push_bit_eq_mult mask_eq_exp_minus_1 by simp_all

lemma block_iff: "0 < n \<Longrightarrow> c div n * n = k * n \<longleftrightarrow> k * n \<le> c \<and> c < k * n + n" for c k n :: nat
proof -
  assume n: "0 < n"
  have "c div n = k \<longleftrightarrow> k \<le> c div n \<and> c div n < k + 1" by auto
  also have "\<dots> \<longleftrightarrow> k * n \<le> c \<and> c < k * n + n"
    using n by (simp add: less_eq_div_iff_mult_less_eq div_less_iff_less_mult add.commute)
  finally show ?thesis using n by simp
qed

lemma push_drop: "push_bit n (drop_bit n c) = c div 2 ^ n * 2 ^ n" for c :: nat
  by (simp add: push_bit_eq_mult drop_bit_eq_div)

lemma is_cont_iff: "b < 256 \<Longrightarrow> is_cont b \<longleftrightarrow> 128 \<le> b \<and> b < 192"
proof -
  assume b: "b < 256"
  have "b AND 0xc0 = b div 2 ^ 6 * 2 ^ 6"
    unfolding high_masks push_drop[symmetric] using b by (intro and_high) simp
  moreover have "b div 2 ^ 6 * 2 ^ 6 = 128 \<longleftrightarrow> 128 \<le> b \<and> b < 192"
    using block_iff[of "2 ^ 6" b 2] by simp
  ultimately show ?thesis unfolding is_cont_def by (simp only:)
qed

lemma bad_char_iff:
  "c < 2 ^ 32 \<Longrightarrow> bad_char c \<longleftrightarrow> c < 0x80 \<or> (0xD800 \<le> c \<and> c < 0xE000) \<or> c = 0xFFFE \<or> c = 0xFFFF"
proof -
  assume c: "c < 2 ^ 32"
  have "c AND 0xFFFFF800 = c div 2 ^ 11 * 2 ^ 11"
    unfolding high_masks push_drop[symmetric] using c by (intro and_high) simp
  moreover have "c AND 0xFFFFFFFE = c div 2 ^ 1 * 2 ^ 1"
    unfolding high_masks push_drop[symmetric] using c by (intro and_high) simp
  moreover have "c div 2 ^ 11 * 2 ^ 11 = 0xD800 \<longleftrightarrow> 0xD800 \<le> c \<and> c < 0xE000"
    using block_iff[of "2 ^ 11" c 27] by simp
  moreover have "c div 2 ^ 1 * 2 ^ 1 = 0xFFFE \<longleftrightarrow> c = 0xFFFE \<or> c = 0xFFFF"
    using block_iff[of "2 ^ 1" c 32767] by auto
  ultimately show ?thesis unfolding bad_char_def by (simp only:)
qed

lemma bits_as_arith: "drop_bit 6 n = n div 64" "drop_bit 8 n = n div 256" "drop_bit 10 n = n div 1024"
  "drop_bit 12 n = n div 4096" "drop_bit 18 n = n div 262144" "push_bit 6 n = n * 64"
  "push_bit 8 n = n * 256" "push_bit 10 n = n * 1024" for n :: nat
  by (simp_all add: drop_bit_eq_div push_bit_eq_mult)

lemma and_C0: "n AND 0xC0 = (n div 64 mod 4) * 64" "n AND 0x3C0 = (n div 64 mod 16) * 64" for n :: nat
  unfolding high_masks and_middle
  by (simp_all add: push_bit_eq_mult drop_bit_eq_div take_bit_eq_mod)

lemmas arith_form = and_masks bits_as_arith and_C0

section \<open>Round trip of characters\<close>

text \<open>The Unicode scalar values: the code points that are not surrogates. The reader of UTF-8 replaces two
  of them, U+FFFE and U+FFFF.\<close>

definition scalar :: "nat \<Rightarrow> bool" where
  "scalar c \<longleftrightarrow> c \<le> 0x10FFFF \<and> \<not> (0xD800 \<le> c \<and> c < 0xE000)"

definition read_back :: "nat \<Rightarrow> nat" where
  "read_back c = (if c = 0xFFFE \<or> c = 0xFFFF then 0xFFFD else c)"

definition starts_char :: "cstring \<Rightarrow> bool" where
  "starts_char z \<longleftrightarrow> (\<forall>b z'. z = b # z' \<longrightarrow> \<not> is_cont b)"

lemma cont_loop_stop: "starts_char z \<Longrightarrow> cont_loop c z = (c, z)"
  by (cases z) (auto simp: starts_char_def)

lemma Trans1_eq:
  "k < 32 \<Longrightarrow> sqlite3Utf8Trans1 ! k = k" "k < 16 \<Longrightarrow> sqlite3Utf8Trans1 ! (32 + k) = k"
  "k < 8 \<Longrightarrow> sqlite3Utf8Trans1 ! (48 + k) = k"
proof -
  have "sqlite3Utf8Trans1 = [0..<32] @ [0..<16] @ [0..<8] @ [0, 1, 2, 3, 0, 1, 0, 0]" by code_simp
  note t = this
  show "k < 32 \<Longrightarrow> sqlite3Utf8Trans1 ! k = k" "k < 16 \<Longrightarrow> sqlite3Utf8Trans1 ! (32 + k) = k"
    "k < 8 \<Longrightarrow> sqlite3Utf8Trans1 ! (48 + k) = k"
    unfolding t by (simp_all add: nth_append del: upt_rec_numeral)
qed

lemma cont_loop_byte:
  "c < 2 ^ 26 \<Longrightarrow> x < 64 \<Longrightarrow> cont_loop c ((128 + x) # z) = cont_loop (c * 64 + x) z"
  using mod_add_left_eq[of 128 64 x] by (simp add: is_cont_iff arith_form)

lemma READ_multi:
  assumes "192 \<le> b" "cont_loop (sqlite3Utf8Trans1 ! (b - 192)) z = (c, z')" "128 \<le> c" "scalar c"
  shows "READ_UTF8 (b # z) = (read_back c, z')"
proof -
  have "c < 2 ^ 32" using assms(4) by (simp add: scalar_def)
  then have "bad_char c \<longleftrightarrow> c = 0xFFFE \<or> c = 0xFFFF" using assms(3,4) by (auto simp: bad_char_iff scalar_def)
  then show ?thesis using assms by (simp add: READ_UTF8_def read_back_def)
qed

lemma READ_WRITE_UTF8:
  assumes "scalar c" "starts_char z"
  shows "READ_UTF8 (WRITE_UTF8 c @ z) = (read_back c, z)"
proof -
  have hi: "c \<le> 0x10FFFF" using assms(1) by (simp add: scalar_def)
  consider "c < 128" | "128 \<le> c" "c < 2048" | "2048 \<le> c" "c < 65536" | "65536 \<le> c" by linarith
  then show ?thesis
  proof cases
    case 1
    then show ?thesis by (simp add: WRITE_UTF8_def READ_UTF8_def arith_form read_back_def)
  next
    case 2
    have t: "sqlite3Utf8Trans1 ! (192 + c div 64 - 192) = c div 64" using 2 Trans1_eq(1)[of "c div 64"] by simp
    have w: "WRITE_UTF8 c @ z = (192 + c div 64) # (128 + c mod 64) # z"
      using 2 by (simp add: WRITE_UTF8_def arith_form)
    have "cont_loop (c div 64) ((128 + c mod 64) # z) = (c, z)"
      using 2 cont_loop_byte[of "c div 64" "c mod 64" z] cont_loop_stop[OF assms(2)] by simp
    then show ?thesis unfolding w using 2 assms(1) t by (intro READ_multi) auto
  next
    case 3
    have t: "sqlite3Utf8Trans1 ! (224 + c div 4096 - 192) = c div 4096" using 3 Trans1_eq(2)[of "c div 4096"] by simp
    have w: "WRITE_UTF8 c @ z = (224 + c div 4096) # (128 + c div 64 mod 64) # (128 + c mod 64) # z"
      using 3 by (simp add: WRITE_UTF8_def arith_form)
    have "c div 4096 * 64 + c div 64 mod 64 = c div 64"
      using div_mult_mod_eq[of "c div 64" 64] by (simp add: div_mult2_eq[symmetric])
    then have "cont_loop (c div 4096) ((128 + c div 64 mod 64) # (128 + c mod 64) # z) = (c, z)"
      using 3 cont_loop_byte[of "c div 4096" "c div 64 mod 64"] cont_loop_byte[of "c div 64" "c mod 64" z]
        cont_loop_stop[OF assms(2)] by simp
    then show ?thesis unfolding w using 3 assms(1) t by (intro READ_multi) auto
  next
    case 4
    have t: "sqlite3Utf8Trans1 ! (240 + c div 262144 - 192) = c div 262144"
      using 4 hi Trans1_eq(3)[of "c div 262144"] by simp
    have w: "WRITE_UTF8 c @ z =
        (240 + c div 262144) # (128 + c div 4096 mod 64) # (128 + c div 64 mod 64) # (128 + c mod 64) # z"
      using 4 hi by (simp add: WRITE_UTF8_def arith_form)
    have "c div 262144 * 64 + c div 4096 mod 64 = c div 4096" "c div 4096 * 64 + c div 64 mod 64 = c div 64"
      using div_mult_mod_eq[of "c div 4096" 64] div_mult_mod_eq[of "c div 64" 64]
      by (simp_all add: div_mult2_eq[symmetric])
    then have "cont_loop (c div 262144)
        ((128 + c div 4096 mod 64) # (128 + c div 64 mod 64) # (128 + c mod 64) # z) = (c, z)"
      using 4 hi cont_loop_byte[of "c div 262144" "c div 4096 mod 64"]
        cont_loop_byte[of "c div 4096" "c div 64 mod 64"] cont_loop_byte[of "c div 64" "c mod 64" z]
        cont_loop_stop[OF assms(2)] by simp
    then show ?thesis unfolding w using 4 assms(1) t by (intro READ_multi) auto
  qed
qed

lemma WRITE_UTF8_inj:
  assumes "scalar c" "scalar d" "WRITE_UTF8 c = WRITE_UTF8 d"
  shows "c = d"
proof -
  have "starts_char []" by (simp add: starts_char_def)
  then have "read_back c = read_back d"
    using READ_WRITE_UTF8[OF assms(1)] READ_WRITE_UTF8[OF assms(2)] assms(3) by (metis fst_conv)
  then have "c = d \<or> c \<in> {0xFFFD, 0xFFFE, 0xFFFF} \<and> d \<in> {0xFFFD, 0xFFFE, 0xFFFF}"
    by (auto simp: read_back_def split: if_splits)
  then show ?thesis using assms(3) by (auto simp: WRITE_UTF8_def arith_form)
qed

lemma starts_WRITE: "c \<le> 0x10FFFF \<Longrightarrow> starts_char (WRITE_UTF8 c @ z)"
proof -
  assume c: "c \<le> 0x10FFFF"
  have "c < 128 \<Longrightarrow> \<not> is_cont (c mod 256)" "c < 2048 \<Longrightarrow> \<not> is_cont (192 + c div 64 mod 32)"
    "\<not> is_cont (224 + c div 4096 mod 16)" "\<not> is_cont (240 + c div 262144 mod 8)"
    by (simp_all add: is_cont_iff)
  then show ?thesis by (auto simp: starts_char_def WRITE_UTF8_def arith_form)
qed

lemma unit_pair: "h < 256 \<Longrightarrow> l < 256 \<Longrightarrow> unit_at big (pair big h l @ z) = h * 256 + l"
  by (simp add: unit_at_def pair_def char_at_def arith_form)

lemma drop_pair: "drop 2 (pair big h l @ z) = z"
  by (simp add: pair_def)

lemma pair_simps [simp]: "length (pair big h l) = 2" "drop 2 (pair big h l) = []" "pair big h l \<noteq> []"
  by (simp_all add: pair_def)

lemma READ_WRITE_UTF16:
  assumes "scalar c" "\<And>z. z \<noteq> [] \<Longrightarrow> cond z"
  shows "READ_UTF16 big cond (WRITE_UTF16 big c @ z) = (c, z)"
proof (cases "c \<le> 0xFFFF")
  case True
  have "c = c div 256 * 256 + c mod 256" by simp
  then show ?thesis
    using True assms(1) by (auto simp: WRITE_UTF16_def READ_UTF16_def arith_form unit_pair drop_pair Let_def scalar_def)
next
  case False
  then have "65536 \<le> c" by simp
  then obtain d where d: "c = 65536 + d" by (auto simp: le_iff_add)
  define x where "x = d div 65536"
  define y where "y = d div 1024 mod 64"
  define e where "e = d mod 1024"
  have hi: "d < 1048576" using assms(1) d by (simp add: scalar_def)
  then have x: "x < 16" and y: "y < 64" and e: "e < 1024" by (simp_all add: x_def y_def e_def)
  have dx: "d div 262144 = x div 4" "d div 65536 mod 4 = x mod 4"
    by (simp_all add: x_def div_mult2_eq[symmetric])
  have cy: "c div 1024 mod 64 = y" "c div 256 mod 4 = e div 256" "c mod 256 = e mod 256"
  proof -
    have "c div 1024 = 64 + d div 1024" "c div 256 = 256 + d div 256" "c mod 256 = d mod 256"
      using div_mult_self1[of 1024 d 64] div_mult_self1[of 256 d 256] mod_mult_self1[of d 256 256]
      by (simp_all add: d add.commute)
    moreover have "e = 256 * (d div 256 mod 4) + d mod 256"
      using mod_mult2_eq[of d 256 4] by (simp add: e_def)
    then have "e div 256 = d div 256 mod 4" "e mod 256 = d mod 256" by simp_all
    moreover have "(64 + d div 1024) mod 64 = d div 1024 mod 64" "(256 + d div 256) mod 4 = d div 256 mod 4"
      using mod_mult_self1[of "d div 1024" 1 64] mod_mult_self1[of "d div 256" 64 4]
      by (simp_all add: add.commute)
    ultimately show "c div 1024 mod 64 = y" "c div 256 mod 4 = e div 256" "c mod 256 = e mod 256"
      by (simp_all add: y_def)
  qed
  have sum: "d = x * 65536 + y * 1024 + e"
  proof -
    have "d = d div 1024 * 1024 + e" unfolding e_def by simp
    moreover have "d div 1024 = x * 64 + y" unfolding x_def y_def
      using div_mult_mod_eq[of "d div 1024" 64] by (simp add: div_mult2_eq[symmetric])
    ultimately show ?thesis by simp
  qed
  define u1 where "u1 = 55296 + 64 * x + y"
  define u2 where "u2 = 56320 + e"
  have w: "WRITE_UTF16 big c = pair big (216 + x div 4) (y + (x mod 4) * 64) @ pair big (220 + e div 256) (e mod 256)"
  proof -
    have "y + x mod 4 * 64 < 256" using y by simp
    moreover have "x div 4 mod 4 = x div 4" "(216 + x div 4) mod 256 = 216 + x div 4" "e div 256 < 4"
      using x e by simp_all
    ultimately show ?thesis
      using False d dx cy x by (simp add: WRITE_UTF16_def arith_form div_mult2_eq[symmetric])
  qed
  have units: "unit_at big (pair big (216 + x div 4) (y + (x mod 4) * 64) @ r) = u1"
    "unit_at big (pair big (220 + e div 256) (e mod 256) @ r) = u2" for r
  proof -
    have "x = x div 4 * 4 + x mod 4" "e = e div 256 * 256 + e mod 256" by simp_all
    then have "x div 4 * 256 + x mod 4 * 64 = 64 * x" "e div 256 * 256 + e mod 256 = e" by linarith+
    then show "unit_at big (pair big (216 + x div 4) (y + (x mod 4) * 64) @ r) = u1"
      "unit_at big (pair big (220 + e div 256) (e mod 256) @ r) = u2"
      using x y e by (simp_all add: unit_pair u1_def u2_def)
  qed
  have ne: "cond (pair big (220 + e div 256) (e mod 256) @ z)" by (rule assms(2)) (simp add: pair_def)
  have u1: "55296 \<le> u1" "u1 < 57344" using x y by (simp_all add: u1_def)
  have u1': "u1 = y + (864 + x) * 64" and u2': "u2 = e + 55 * 1024" by (simp_all add: u1_def u2_def)
  have "u1 div 64 = x + 54 * 16" unfolding u1' using y by simp
  then have "u1 div 64 mod 16 = x" using x by (simp only: mod_mult_self1) simp
  moreover have "u2 mod 1024 = e" "u1 mod 64 = y" using y e unfolding u1' u2' mod_mult_self1 by simp_all
  ultimately have m: "u2 mod 1024 = e" "u1 mod 64 = y" "u1 div 64 mod 16 = x" by blast+
  have "READ_UTF16 big cond (WRITE_UTF16 big c @ z) =
      (u2 mod 1024 + (u1 mod 64) * 1024 + ((u1 div 64 mod 16) * 64 + 64) * 1024, z)"
    unfolding READ_UTF16_def w append_assoc units drop_pair Let_def using u1 ne
    by (simp add: units drop_pair arith_form)
  then show ?thesis unfolding m using sum d by (simp add: algebra_simps)
qed

section \<open>Whole texts\<close>

definition text_in :: "nat \<Rightarrow> nat list \<Rightarrow> cstring" where
  "text_in enc cs =
     concat (map (if enc = SQLITE_UTF8 then WRITE_UTF8 else WRITE_UTF16 (enc \<noteq> SQLITE_UTF16LE)) cs)"

lemma text_in_simps:
  "text_in (Suc 0) cs = concat (map WRITE_UTF8 cs)" "text_in 2 cs = concat (map (WRITE_UTF16 False) cs)"
  "text_in 3 cs = concat (map (WRITE_UTF16 True) cs)"
  by (simp_all add: text_in_def)

lemma starts_text: "list_all scalar cs \<Longrightarrow> starts_char (concat (map WRITE_UTF8 cs))"
  by (cases cs) (auto simp: starts_WRITE scalar_def starts_char_def[of "[]"])

lemma WRITE_nonempty [simp]: "WRITE_UTF8 c \<noteq> []" "WRITE_UTF16 big c \<noteq> []"
  by (auto simp: WRITE_UTF8_def WRITE_UTF16_def)

lemma utf8_to_16_text:
  "list_all scalar cs \<Longrightarrow>
   utf8_to_16 big (concat (map WRITE_UTF8 cs)) = concat (map (WRITE_UTF16 big) (map read_back cs))"
proof (induction cs)
  case Nil
  then show ?case by (simp add: utf8_to_16.simps)
next
  case (Cons c cs)
  then show ?case
    using READ_WRITE_UTF8[of c "concat (map WRITE_UTF8 cs)"] starts_text[of cs]
    by (subst utf8_to_16.simps) simp
qed

lemma utf16_to_8_text:
  "list_all scalar cs \<Longrightarrow>
   utf16_to_8 big (concat (map (WRITE_UTF16 big) cs)) = concat (map WRITE_UTF8 cs)"
proof (induction cs)
  case Nil
  then show ?case by (simp add: utf16_to_8.simps)
next
  case (Cons c cs)
  then show ?case
    using READ_WRITE_UTF16[of c "\<lambda>z. z \<noteq> []" big "concat (map (WRITE_UTF16 big) cs)"]
    by (subst utf16_to_8.simps) simp
qed

lemma swap_append: "even (length a) \<Longrightarrow> swap_bytes (a @ b) = swap_bytes a @ swap_bytes b"
  by (induction a rule: swap_bytes.induct) auto

lemma swap_pair: "swap_bytes (pair big h l) = pair (\<not> big) h l"
  by (simp add: pair_def)

lemma swap_WRITE: "swap_bytes (WRITE_UTF16 big c) = WRITE_UTF16 (\<not> big) c" "even (length (WRITE_UTF16 big c))"
  by (simp_all add: WRITE_UTF16_def swap_append swap_pair)

lemma swap_text: "swap_bytes (concat (map (WRITE_UTF16 big) cs)) = concat (map (WRITE_UTF16 (\<not> big)) cs)"
  by (induction cs) (simp_all add: swap_append swap_WRITE)

lemma even_text16: "even (length (concat (map (WRITE_UTF16 big) cs)))"
  by (induction cs) (simp_all add: swap_WRITE(2))

lemma Translate_text:
  assumes "list_all scalar cs" "enc \<in> {1, 2, 3}" "enc' \<in> {1, 2, 3}" "enc \<noteq> enc'"
  shows "sqlite3VdbeMemTranslate True (\<lambda>_. True) \<lparr>mem_z = text_in enc cs, mem_enc = enc\<rparr> enc' =
    (SQLITE_OK, \<lparr>mem_z = text_in enc' (if enc = 1 then map read_back cs else cs), mem_enc = enc'\<rparr>)"
proof -
  have e: "n - n mod 2 = n" if "even n" for n :: nat using that by simp
  consider "enc = 1" "enc' = 2" | "enc = 1" "enc' = 3" | "enc = 2" "enc' = 1" | "enc = 3" "enc' = 1"
    | "enc = 2" "enc' = 3" | "enc = 3" "enc' = 2" using assms by auto
  then show ?thesis
    by cases (simp_all add: sqlite3VdbeMemTranslate_def text_in_simps utf8_to_16_text utf16_to_8_text assms(1)
        swap_text even_text16 Let_def del: length_concat)
qed

section \<open>Arbitrary bytes fit the buffer\<close>

definition byte_list :: "cstring \<Rightarrow> bool" where "byte_list z \<longleftrightarrow> (\<forall>b \<in> set z. b < 256)"

lemma cont_loop_suffix: "\<exists>k. snd (cont_loop c z) = drop k z"
proof (induction c z rule: cont_loop.induct)
  case (2 c b z)
  show ?case
  proof (cases "is_cont b")
    case True
    then obtain k where "snd (cont_loop ((push_bit 6 c + (b AND 63)) mod 2 ^ 32) z) = drop k z" using 2 by blast
    then show ?thesis using True by (intro exI[of _ "Suc k"]) simp
  next
    case False
    then show ?thesis by (intro exI[of _ 0]) simp
  qed
qed simp

lemma Trans1_less: "k < 64 \<Longrightarrow> sqlite3Utf8Trans1 ! k < 128"
proof -
  assume k: "k < 64"
  have "list_all (\<lambda>x. x < 128) sqlite3Utf8Trans1" "length sqlite3Utf8Trans1 = 64" by code_simp+
  then show ?thesis using k by (simp add: list_all_length)
qed

lemma READ_UTF8_fits:
  assumes "byte_list z" "z \<noteq> []" "READ_UTF8 z = (c, z')"
  shows "length (WRITE_UTF16 big c) + 2 * length z' \<le> 2 * length z" "byte_list z'"
proof -
  obtain b r where z: "z = b # r" using assms(2) by (cases z) auto
  let ?l = "cont_loop (sqlite3Utf8Trans1 ! (b - 192)) r"
  have b: "b < 256" using assms(1) by (simp add: z byte_list_def)
  have z': "z' = (if b \<ge> 192 then snd ?l else r)"
    using assms(3) by (auto simp: z READ_UTF8_def split: prod.splits if_splits)
  obtain k where k: "snd ?l = drop k r" using cont_loop_suffix by blast
  show "byte_list z'" using assms(1) unfolding z' k z by (auto simp: byte_list_def dest: in_set_dropD)
  have w: "length (WRITE_UTF16 big c) = (if c \<le> 65535 then 2 else 4)" by (simp add: WRITE_UTF16_def)
  show "length (WRITE_UTF16 big c) + 2 * length z' \<le> 2 * length z"
  proof (cases "length z' < length r")
    case True
    then show ?thesis using w by (simp add: z)
  next
    case False
    then have "length z' = length r"
      using z' cont_loop_length[of "sqlite3Utf8Trans1 ! (b - 192)" r] by (auto split: if_splits)
    have "c \<le> 65535"
    proof (cases "b \<ge> 192")
      case hi: True
      have "?l = (sqlite3Utf8Trans1 ! (b - 192), r)"
      proof (cases r)
        case (Cons x xs)
        show ?thesis
        proof (cases "is_cont x")
          case True
          then have "length (snd ?l) \<le> length xs" using cont_loop_length[of _ xs] by (simp add: Cons)
          then show ?thesis using False z' hi Cons by simp
        qed (simp add: Cons)
      qed simp
      moreover have "bad_char (sqlite3Utf8Trans1 ! (b - 192))"
        using Trans1_less[of "b - 192"] b by (simp add: bad_char_def)
      ultimately show ?thesis using assms(3) hi by (auto simp: z READ_UTF8_def)
    next
      case False
      then show ?thesis using assms(3) by (simp add: z READ_UTF8_def)
    qed
    then show ?thesis using w \<open>length z' = length r\<close> by (simp add: z)
  qed
qed

lemma utf8_to_16_fits: "byte_list z \<Longrightarrow> length (utf8_to_16 big z) \<le> 2 * length z"
proof (induction big z rule: utf8_to_16.induct)
  case (1 big z)
  show ?case
  proof (cases "z = []")
    case False
    obtain c z' where r: "READ_UTF8 z = (c, z')" by (cases "READ_UTF8 z") auto
    have "length (utf8_to_16 big z') \<le> 2 * length z'"
      using 1(1)[OF False, of "(c, z')" c z'] r READ_UTF8_fits(2)[OF 1(2) False r] by simp
    then show ?thesis using False r READ_UTF8_fits(1)[OF 1(2) False r, of big]
      by (subst utf8_to_16.simps) simp
  qed (simp add: utf8_to_16.simps)
qed

lemma length_WRITE_UTF8: "length (WRITE_UTF8 c) = (if c < 128 then 1 else if c < 2048 then 2 else if c < 65536 then 3 else 4)"
  by (simp add: WRITE_UTF8_def)

lemma utf16_to_8_fits: "byte_list z \<Longrightarrow> even (length z) \<Longrightarrow> length (utf16_to_8 big z) \<le> 2 * length z"
proof (induction big z rule: utf16_to_8.induct)
  case (1 big z)
  show ?case
  proof (cases "z = []")
    case False
    obtain a b r where z: "z = a # b # r"
      using False 1(3) by (cases z; cases "tl z") auto
    have ab: "a < 256" "b < 256" and r: "byte_list r" "even (length r)" using 1(2,3) by (auto simp: z byte_list_def)
    have u: "unit_at big z < 65536" using ab by (simp add: unit_at_def z char_at_def arith_form)
    obtain c z' where rd: "READ_UTF16 big (\<lambda>z. z \<noteq> []) z = (c, z')"
      by (cases "READ_UTF16 big (\<lambda>z. z \<noteq> []) z") auto
    have cases: "(c = unit_at big z \<and> z' = r) \<or> (r \<noteq> [] \<and> z' = drop 2 r)"
      using rd by (auto simp: READ_UTF16_def Let_def z split: if_splits)
    then have z': "byte_list z'" "even (length z')" using r by (auto simp: byte_list_def dest: in_set_dropD)
    have "length (WRITE_UTF8 c) + 2 * length z' \<le> 2 * length z"
      using cases u r by (auto simp: length_WRITE_UTF8 z elim!: evenE)
    moreover have "length (utf16_to_8 big z') \<le> 2 * length z'"
      using 1(1)[OF False, of "(c, z')" c z'] rd z' by simp
    ultimately show ?thesis using False rd by (subst utf16_to_8.simps) simp
  qed (simp add: utf16_to_8.simps)
qed

section \<open>Lengths and the SQL functions\<close>

lemma dropWhile_starts: "starts_char z \<Longrightarrow> dropWhile is_cont z = z"
  by (cases z) (auto simp: starts_char_def)

lemma skip_WRITE: "c \<le> 0x10FFFF \<Longrightarrow> starts_char z \<Longrightarrow> skip_utf8 (WRITE_UTF8 c @ z) = z"
proof -
  assume c: "c \<le> 0x10FFFF" and z: "starts_char z"
  have "is_cont (128 + x mod 64)" for x by (simp add: is_cont_iff)
  then show ?thesis
    using c z by (auto simp: skip_utf8_def WRITE_UTF8_def arith_form dropWhile_starts)
qed

lemma ch_WRITE: "c \<noteq> 0 \<Longrightarrow> ch (WRITE_UTF8 c @ z) \<noteq> 0"
  by (auto simp: WRITE_UTF8_def arith_form)

lemma char_len_text:
  "list_all scalar cs \<Longrightarrow> 0 \<notin> set cs \<Longrightarrow> char_len (concat (map WRITE_UTF8 cs)) None = length cs"
proof (induction cs)
  case Nil
  then show ?case by (simp add: char_len.simps)
next
  case (Cons c cs)
  have c: "c \<le> 0x10FFFF" using Cons.prems by (simp add: scalar_def)
  have "skip_utf8 (WRITE_UTF8 c @ concat (map WRITE_UTF8 cs)) = concat (map WRITE_UTF8 cs)"
    using skip_WRITE[OF c] starts_text Cons.prems by simp
  then show ?case
    using Cons ch_WRITE[of c "concat (map WRITE_UTF8 cs)"] by (subst char_len.simps) simp
qed

lemma byte_len_text:
  "list_all scalar cs \<Longrightarrow> n \<le> length cs \<Longrightarrow>
   byte_len big (concat (map (WRITE_UTF16 big) cs)) n = concat (map (WRITE_UTF16 big) (drop n cs))"
proof (induction n arbitrary: cs)
  case (Suc n)
  then obtain c cs' where cs: "cs = c # cs'" by (cases cs) auto
  then show ?case using Suc READ_WRITE_UTF16[of c "\<lambda>_. True" big] by simp
qed simp

lemma ByteLen_text:
  assumes "list_all scalar cs" "n \<le> length cs"
  shows "sqlite3Utf16ByteLen big (concat (map (WRITE_UTF16 big) cs)) n
    = length (concat (map (WRITE_UTF16 big) (take n cs)))"
proof -
  have "concat (map (WRITE_UTF16 big) cs) =
      concat (map (WRITE_UTF16 big) (take n cs)) @ concat (map (WRITE_UTF16 big) (drop n cs))"
    by (metis append_take_drop_id concat_append map_append)
  then show ?thesis unfolding sqlite3Utf16ByteLen_def byte_len_text[OF assms] by (metis add_diff_cancel_right' length_append)
qed

definition sql_char :: "int \<Rightarrow> nat" where
  "sql_char x = (if 0 \<le> x \<and> x \<le> 0x10ffff then nat x else 0xfffd)"

lemma char_bytes_eq: "char_bytes x = WRITE_UTF8 (sql_char x)"
proof -
  have "nat x AND 0x1fffff = nat x" if "0 \<le> x" "x \<le> 0x10ffff"
    using that and_masks(8)[of "nat x"] by (simp add: nat_less_iff)
  moreover have "(0xfffd :: nat) AND 0x1fffff = 0xfffd" using and_masks(8)[of "0xfffd"] by simp
  ultimately show ?thesis by (auto simp: char_bytes_def WRITE_UTF8_def sql_char_def Let_def)
qed

section \<open>Properties\<close>

text \<open>C23. Translation is exact: a value that holds a text of Unicode scalar values in any of the three
  encodings is translated to the same text in another, except that from UTF-8 the noncharacters U+FFFE and
  U+FFFF become U+FFFD. The lengths agree: counting characters in UTF-8 gives the number of code points of
  a text without U+0000, and the byte length of the first \<open>n\<close> UTF-16 characters is that of their
  encodings, surrogate pairs included.\<close>

theorem translation_keeps_text:
  assumes "list_all scalar cs" and "{enc, enc'} \<subseteq> {1, 2, 3}" and "enc \<noteq> enc'" and "n \<le> length cs"
  shows "sqlite3VdbeMemTranslate True (\<lambda>_. True) \<lparr>mem_z = text_in enc cs, mem_enc = enc\<rparr> enc' =
      (SQLITE_OK, \<lparr>mem_z = text_in enc' (if enc = 1 then map read_back cs else cs), mem_enc = enc'\<rparr>)
    \<and> (0 \<notin> set cs \<longrightarrow> sqlite3Utf8CharLen (text_in 1 cs) (-1) = length cs)
    \<and> sqlite3Utf16ByteLen False (text_in 2 cs) n = length (text_in 2 (take n cs))
    \<and> sqlite3Utf16ByteLen True (text_in 3 cs) n = length (text_in 3 (take n cs))"
  using Translate_text[OF assms(1) _ _ assms(3)] assms(2) char_len_text[OF assms(1)]
    ByteLen_text[OF assms(1,4)]
  by (auto simp: sqlite3Utf8CharLen_def text_in_simps)

theorem translation_keeps_text_witness:
  "sqlite3VdbeMemTranslate True (\<lambda>_. True)
     \<lparr>mem_z = [65, 0xC3, 0xA9, 0xF0, 0x9F, 0x8E, 0xB5], mem_enc = 1\<rparr> 2
   = (SQLITE_OK, \<lparr>mem_z = [65, 0, 0xE9, 0, 0x3C, 0xD8, 0xB5, 0xDF], mem_enc = 2\<rparr>)"
proof -
  have "text_in 1 [65, 0xE9, 0x1F3B5] = [65, 0xC3, 0xA9, 0xF0, 0x9F, 0x8E, 0xB5]"
    "text_in 2 [65, 0xE9, 0x1F3B5] = [65, 0, 0xE9, 0, 0x3C, 0xD8, 0xB5, 0xDF]"
    by (simp_all add: text_in_def WRITE_UTF8_def WRITE_UTF16_def pair_def arith_form)
  then show ?thesis
    using translation_keeps_text[of "[65, 0xE9, 0x1F3B5]" 1 2 0] by (simp add: scalar_def read_back_def)
qed

text \<open>C24. The translation never writes behind its buffer: for arbitrary bytes, well formed or not, the
  translated text and its terminator fit the length that was computed before the allocation.\<close>

theorem translation_fits_buffer:
  assumes "byte_list (mem_z m)" and "mem_enc m = 1 \<or> enc' = 1" and "mem_enc m \<noteq> enc'"
    and "sqlite3VdbeMemTranslate writable malloc m enc' = (SQLITE_OK, m')"
  shows "\<exists>len. malloc len \<and> length (mem_z m') + (if enc' = 1 then 1 else 2) \<le> len"
proof -
  let ?n = "length (mem_z m)"
  let ?z = "take (?n - ?n mod 2) (mem_z m)"
  have "length ?z = ?n - ?n mod 2" by simp
  then have even: "even (length ?z)" using dvd_minus_mod[of 2 ?n] by simp
  have bytes: "byte_list ?z" using assms(1) by (auto simp: byte_list_def dest: in_set_takeD)
  show ?thesis
  proof (cases "enc' = 1")
    case True
    then show ?thesis
      using assms utf16_to_8_fits[OF bytes even]
      by (intro exI[of _ "length ?z * 2 + 1"])
        (auto simp: sqlite3VdbeMemTranslate_def Let_def mult.commute simp del: length_take split: if_splits)
  next
    case False
    then show ?thesis
      using assms utf8_to_16_fits[OF assms(1)]
      by (intro exI[of _ "?n * 2 + 2"])
        (auto simp: sqlite3VdbeMemTranslate_def Let_def mult.commute split: if_splits)
  qed
qed

theorem translation_fits_buffer_witness:
  "\<exists>len. len \<le> 6 \<and> length (utf8_to_16 False [0xC3, 0x28]) + 2 \<le> len"
proof -
  let ?m = "\<lparr>mem_z = [0xC3, 0x28], mem_enc = 1\<rparr>"
  let ?out = "\<lparr>mem_z = utf8_to_16 False [0xC3, 0x28], mem_enc = 2\<rparr>"
  have run: "sqlite3VdbeMemTranslate True (\<lambda>len. len \<le> 6) ?m 2 = (SQLITE_OK, ?out)"
    by (simp add: sqlite3VdbeMemTranslate_def Let_def)
  have "byte_list (mem_z ?m)" by (simp add: byte_list_def)
  then show ?thesis using translation_fits_buffer[of ?m 2 True "\<lambda>len. len \<le> 6" ?out] run by simp
qed

text \<open>The SQL functions \<open>char\<close> and \<open>unicode\<close>: \<open>char\<close> writes the UTF-8 text of its arguments,
  arguments outside of Unicode as the replacement character, and \<open>unicode\<close> of it is the first
  code point, U+FFFE and U+FFFF apart.\<close>

theorem unicode_of_char:
  assumes "scalar (sql_char x)" and "sql_char x \<noteq> 0" and "list_all (\<lambda>y. sql_char y \<le> 0x10FFFF) ys"
  shows "\<exists>z. charFunc True (x # ys) = Some z \<and> unicodeFunc (Some z) = Some (read_back (sql_char x))
    \<and> z = concat (map (\<lambda>y. WRITE_UTF8 (sql_char y)) (x # ys))"
proof -
  let ?r = "concat (map (\<lambda>y. WRITE_UTF8 (sql_char y)) ys)"
  have "starts_char ?r"
    using assms(3) by (cases ys) (auto simp: starts_WRITE starts_char_def[of "[]"])
  moreover have "concat (map char_bytes ys) = ?r"
    by (rule arg_cong[of _ _ concat]) (simp add: char_bytes_eq)
  ultimately show ?thesis
    using READ_WRITE_UTF8[OF assms(1)] ch_WRITE[OF assms(2)]
    by (simp add: charFunc_def unicodeFunc_def sqlite3Utf8Read_def char_bytes_eq)
qed

theorem unicode_of_char_witness: "\<exists>z. charFunc True [233, -1] = Some z \<and> unicodeFunc (Some z) = Some 233"
  using unicode_of_char[of 233 "[-1]"] by (simp add: sql_char_def scalar_def read_back_def)

end
