(* ===== verification/Sqlite_Like.thy ===== *)
theory Sqlite_Like
  imports Sqlite_Utf
begin

text \<open>
  The LIKE and GLOB operators of SQLite (\<open>patternCompare\<close>, \<open>sqlite3_strlike\<close>,
  \<open>sqlite3_strglob\<close> and \<open>likeFunc\<close> of \<open>src/func.c\<close>) on UTF-8 text, and a declarative
  meaning of patterns over lists of code points: a pattern is parsed once into tokens, and a token
  list matches or does not match a list of code points. The matcher of the source works on bytes,
  searches for the character behind a wildcard with \<open>strcspn\<close>, and stops early with a third
  result when no later start can match.
\<close>

section \<open>The matcher\<close>

record compareInfo =
  matchAll :: nat
  matchOne :: nat
  matchSet :: nat
  noCase :: bool

definition globInfo :: compareInfo where
  "globInfo = \<lparr>matchAll = 42, matchOne = 63, matchSet = 91, noCase = False\<rparr>"

definition likeInfoNorm :: compareInfo where
  "likeInfoNorm = \<lparr>matchAll = 37, matchOne = 95, matchSet = 0, noCase = True\<rparr>"

definition likeInfoAlt :: compareInfo where
  "likeInfoAlt = \<lparr>matchAll = 37, matchOne = 95, matchSet = 0, noCase = False\<rparr>"

datatype match_result = SQLITE_MATCH | SQLITE_NOMATCH | SQLITE_NOWILDCARDMATCH

lemma Utf8Read_nil [simp]: "sqlite3Utf8Read [] = (0, [])"
  by (simp add: sqlite3Utf8Read_def READ_UTF8_def)

lemma Utf8Read_len:
  "(c, z') = sqlite3Utf8Read z \<Longrightarrow> length z' \<le> length z \<and> (c \<noteq> 0 \<longrightarrow> length z' < length z)"
proof (cases "z = []")
  case False
  then show "(c, z') = sqlite3Utf8Read z \<Longrightarrow> ?thesis"
    using READ_UTF8_shorter[of c z' z] by (auto simp: sqlite3Utf8Read_def)
qed simp

lemmas Utf8Read_shorter = Utf8Read_len[THEN conjunct2, rule_format]
lemmas Utf8Read_le = Utf8Read_len[THEN conjunct1]

text \<open>Behind a wildcard: skip further wildcards, taking a character of the string for each
  \<open>matchOne\<close>. \<open>None\<close> when the string ends; otherwise the character behind, the pattern from
  it on, the pattern behind it, and the string.\<close>

function star_skip :: "compareInfo \<Rightarrow> cstring \<Rightarrow> cstring \<Rightarrow> (nat \<times> cstring \<times> cstring \<times> cstring) option" where
  "star_skip info zPattern zString =
     (let (c, p) = sqlite3Utf8Read zPattern
      in if c \<noteq> 0 \<and> c = matchAll info then star_skip info p zString
         else if c \<noteq> 0 \<and> c = matchOne info then
           (let (c2, s) = sqlite3Utf8Read zString
            in if c2 = 0 then None else star_skip info p s)
         else Some (c, zPattern, p, zString))"
  by pat_completeness auto
termination
  by (relation "measure (\<lambda>(info, p, s). length p)") (auto dest: Utf8Read_shorter)

declare star_skip.simps [simp del]

text \<open>The members of a set behind its first character \<open>c2\<close>. \<open>None\<close> when there is no closing
  bracket; otherwise whether \<open>c\<close> was seen and the pattern behind the bracket.\<close>

function class_loop :: "nat \<Rightarrow> nat \<Rightarrow> nat \<Rightarrow> bool \<Rightarrow> cstring \<Rightarrow> (bool \<times> cstring) option" where
  "class_loop c c2 prior_c seen zPattern =
     (if c2 = 0 then None
      else if c2 = 93 then Some (seen, zPattern)
      else if c2 = 45 \<and> ch zPattern \<noteq> 93 \<and> ch zPattern \<noteq> 0 \<and> prior_c > 0 then
        (let (c2, p) = sqlite3Utf8Read zPattern;
             (c3, p') = sqlite3Utf8Read p
         in class_loop c c3 0 (seen \<or> (prior_c \<le> c \<and> c \<le> c2)) p')
      else
        (let (c3, p') = sqlite3Utf8Read zPattern
         in class_loop c c3 c2 (seen \<or> c = c2) p'))"
  by pat_completeness auto
termination
  by (relation "measure (\<lambda>(c, c2, prior, seen, p). if c2 = 0 then 0 else Suc (length p))")
    (auto dest: Utf8Read_shorter Utf8Read_le intro: less_le_trans)

declare class_loop.simps [simp del]

definition set_scan :: "nat \<Rightarrow> cstring \<Rightarrow> (bool \<times> cstring) option" where
  "set_scan c zPattern =
     (let (c2, p) = sqlite3Utf8Read zPattern;
          invert = (c2 = 94);
          (c2, p) = (if invert then sqlite3Utf8Read p else (c2, p));
          seen = (c2 = 93 \<and> c = 93);
          (c2, p) = (if c2 = 93 then sqlite3Utf8Read p else (c2, p))
      in map_option (\<lambda>(seen, p). (seen \<noteq> invert, p)) (class_loop c c2 0 seen p))"

definition stop_bytes :: "compareInfo \<Rightarrow> nat \<Rightarrow> nat list" where
  "stop_bytes info c = (if noCase info then [sqlite3Toupper c, sqlite3Tolower c] else [c])"

lemma star_skip_shorter:
  "star_skip info p s = Some (c, p', p'', s') \<Longrightarrow>
   length p' \<le> length p \<and> length p'' \<le> length p' \<and> (c \<noteq> 0 \<longrightarrow> length p'' < length p') \<and> length s' \<le> length s"
proof (induction info p s arbitrary: c p' p'' s' rule: star_skip.induct)
  case (1 info p s)
  obtain d q where r: "sqlite3Utf8Read p = (d, q)" by (cases "sqlite3Utf8Read p") auto
  obtain d2 s2 where r2: "sqlite3Utf8Read s = (d2, s2)" by (cases "sqlite3Utf8Read s") auto
  note le = Utf8Read_le[OF r[symmetric]] Utf8Read_le[OF r2[symmetric]] Utf8Read_shorter[OF r[symmetric]]
  show ?case
    using 1(3) 1(1)[OF r[symmetric] refl, of c p' p'' s'] 1(2)[OF r[symmetric] refl _ _ r2[symmetric] refl, of c p' p'' s'] le
    by (subst (asm) star_skip.simps) (auto simp: r r2 split: if_splits)
qed

lemma class_loop_shorter: "class_loop c c2 prior seen p = Some (b, p') \<Longrightarrow> length p' \<le> length p"
proof (induction c c2 prior seen p rule: class_loop.induct)
  case (1 c c2 prior seen p)
  obtain d q where r: "sqlite3Utf8Read p = (d, q)" by (cases "sqlite3Utf8Read p") auto
  obtain d' q' where r': "sqlite3Utf8Read q = (d', q')" by (cases "sqlite3Utf8Read q") auto
  note le = Utf8Read_le[OF r[symmetric]] Utf8Read_le[OF r'[symmetric]]
  show ?case
    using 1(3) 1(1)[OF _ _ _ r[symmetric] refl r'[symmetric] refl] 1(2)[OF _ _ _ r[symmetric] refl] le
    by (subst (asm) class_loop.simps) (auto simp: r r' split: if_splits)
qed

lemma set_scan_shorter: "set_scan c p = Some (b, p') \<Longrightarrow> length p' \<le> length p"
proof -
  obtain d q where r: "sqlite3Utf8Read p = (d, q)" by (cases "sqlite3Utf8Read p") auto
  obtain d' q' where r': "sqlite3Utf8Read q = (d', q')" by (cases "sqlite3Utf8Read q") auto
  obtain d2 q2 where r2: "sqlite3Utf8Read q' = (d2, q2)" by (cases "sqlite3Utf8Read q'") auto
  note le = Utf8Read_le[OF r[symmetric]] Utf8Read_le[OF r'[symmetric]] Utf8Read_le[OF r2[symmetric]]
  assume "set_scan c p = Some (b, p')"
  then show ?thesis
    using le by (auto simp: set_scan_def r r' r2 Let_def split: if_splits dest!: class_loop_shorter)
qed

definition escape_read :: "bool \<Rightarrow> nat \<Rightarrow> cstring \<Rightarrow> nat \<times> cstring" where
  "escape_read escaped c p = (if escaped then sqlite3Utf8Read p else (c, p))"

lemma escape_read_len: "(c', p') = escape_read escaped c p \<Longrightarrow> length p' \<le> length p"
  by (auto simp: escape_read_def dest: Utf8Read_le split: if_splits)

lemma tl_dropWhile_less: "0 < ch (dropWhile P z) \<Longrightarrow> length (dropWhile P z) - Suc 0 < length z"
  using length_dropWhile_le[of P z] by (cases "dropWhile P z") auto

lemma skip_less: "0 < ch z \<Longrightarrow> length (skip_utf8 z) < length z"
  using skip_utf8_shorter[of z] by (cases z) auto

text \<open>
  \<open>patternCompare\<close> with its two inner searches: \<open>find_char\<close> looks for the character \<open>c\<close> behind a
  wildcard, by \<open>strcspn\<close> for a single byte, and \<open>find_set\<close> tries a set behind a wildcard at
  every position.
\<close>

function (sequential) patternCompare :: "compareInfo \<Rightarrow> nat \<Rightarrow> cstring \<Rightarrow> cstring \<Rightarrow> match_result"
  and find_char :: "compareInfo \<Rightarrow> nat \<Rightarrow> nat \<Rightarrow> cstring \<Rightarrow> cstring \<Rightarrow> match_result"
  and find_set :: "compareInfo \<Rightarrow> nat \<Rightarrow> cstring \<Rightarrow> cstring \<Rightarrow> match_result" where
  "patternCompare info matchOther zPattern zString =
     (let (c, p) = sqlite3Utf8Read zPattern
      in if c = 0 then (if ch zString = 0 then SQLITE_MATCH else SQLITE_NOMATCH)
         else if c = matchAll info then
           (case star_skip info p zString of
              None \<Rightarrow> SQLITE_NOWILDCARDMATCH
            | Some (c, p0, p1, s) \<Rightarrow>
                if c = 0 then SQLITE_MATCH
                else if c = matchOther then
                  if matchSet info = 0 then
                    (let (c, p2) = sqlite3Utf8Read p1
                     in if c = 0 then SQLITE_NOWILDCARDMATCH else find_char info matchOther c p2 s)
                  else find_set info matchOther p0 s
                else find_char info matchOther c p1 s)
         else if c = matchOther \<and> matchSet info \<noteq> 0 then
           (let (c, s) = sqlite3Utf8Read zString
            in if c = 0 then SQLITE_NOMATCH
               else (case set_scan c p of
                       None \<Rightarrow> SQLITE_NOMATCH
                     | Some (ok, p') \<Rightarrow> if ok then patternCompare info matchOther p' s else SQLITE_NOMATCH))
         else
           (let escaped = (c = matchOther);
                (c, p) = escape_read escaped c p;
                (c2, s) = sqlite3Utf8Read zString
            in if escaped \<and> c = 0 then SQLITE_NOMATCH
               else if c = c2 then patternCompare info matchOther p s
               else if noCase info \<and> sqlite3Tolower c = sqlite3Tolower c2 \<and> c < 0x80 \<and> c2 < 0x80 then
                 patternCompare info matchOther p s
               else if c = matchOne info \<and> \<not> escaped \<and> c2 \<noteq> 0 then patternCompare info matchOther p s
               else SQLITE_NOMATCH))"
| "find_char info matchOther c zPattern zString =
     (if c \<le> 0x80 then
        (let s = dropWhile (\<lambda>b. b \<notin> set (stop_bytes info c)) zString
         in if ch s = 0 then SQLITE_NOWILDCARDMATCH
            else (let bMatch = patternCompare info matchOther zPattern (tl s)
                  in if bMatch \<noteq> SQLITE_NOMATCH then bMatch else find_char info matchOther c zPattern (tl s)))
      else
        (let (c2, s) = sqlite3Utf8Read zString
         in if c2 = 0 then SQLITE_NOWILDCARDMATCH
            else if c2 \<noteq> c then find_char info matchOther c zPattern s
            else (let bMatch = patternCompare info matchOther zPattern s
                  in if bMatch \<noteq> SQLITE_NOMATCH then bMatch else find_char info matchOther c zPattern s)))"
| "find_set info matchOther zPattern zString =
     (if ch zString = 0 then SQLITE_NOWILDCARDMATCH
      else (let bMatch = patternCompare info matchOther zPattern zString
            in if bMatch \<noteq> SQLITE_NOMATCH then bMatch
               else find_set info matchOther zPattern (skip_utf8 zString)))"
  by pat_completeness auto
termination
  by (relation "inv_image (less_than <*lex*> less_than <*lex*> less_than) (\<lambda>x. case x of
      Inl (info, m, p, s) \<Rightarrow> (length p, length s, 0)
    | Inr (Inl (info, m, c, p, s)) \<Rightarrow> (length p, length s, 1)
    | Inr (Inr (info, m, p, s)) \<Rightarrow> (length p, length s, 1 :: nat))")
    (auto dest!: Utf8Read_len star_skip_shorter set_scan_shorter escape_read_len intro: skip_less tl_dropWhile_less)

declare patternCompare.simps [simp del] find_char.simps [simp del] find_set.simps [simp del]

definition sqlite3_strglob :: "cstring \<Rightarrow> cstring \<Rightarrow> match_result" where
  "sqlite3_strglob zGlobPattern zString = patternCompare globInfo 91 zGlobPattern zString"

definition sqlite3_strlike :: "cstring \<Rightarrow> cstring \<Rightarrow> nat \<Rightarrow> match_result" where
  "sqlite3_strlike zPattern zStr esc = patternCompare likeInfoNorm esc zPattern zStr"

datatype like_result = Like_null | Like_value bool | Like_error string

text \<open>The arguments are whether the pattern or the string is a blob, which never matches in the build of
  the application (\<open>SQLITE_LIKE_DOESNT_MATCH_BLOBS\<close>), the text of the pattern, of the string and, when
  there is a third argument, of the escape character; \<open>None\<close> is the text of NULL. \<open>limit\<close> is the
  configured longest pattern.\<close>

definition likeFunc ::
    "compareInfo \<Rightarrow> nat \<Rightarrow> bool \<Rightarrow> cstring option \<Rightarrow> cstring option \<Rightarrow> cstring option option \<Rightarrow> like_result" where
  "likeFunc pInfo limit isBlob zB zA zEsc =
     (let nPat = (case zB of None \<Rightarrow> 0 | Some z \<Rightarrow> length z)
      in if isBlob then Like_value False
         else if nPat > limit then Like_error ''LIKE or GLOB pattern too complex''
         else
           (let answer = (\<lambda>escape. case (zA, zB) of
                  (Some a, Some b) \<Rightarrow> Like_value (patternCompare pInfo escape b a = SQLITE_MATCH)
                | _ \<Rightarrow> Like_null)
            in case zEsc of
                 None \<Rightarrow> answer (matchSet pInfo)
               | Some None \<Rightarrow> Like_null
               | Some (Some e) \<Rightarrow>
                   if sqlite3Utf8CharLen e (-1) \<noteq> 1
                   then Like_error ''ESCAPE expression must be a single character''
                   else answer (fst (sqlite3Utf8Read e))))"

section \<open>What a pattern means\<close>

function code_points :: "cstring \<Rightarrow> nat list" where
  "code_points z =
     (if ch z = 0 then [] else let (c, z') = sqlite3Utf8Read z in c # code_points z')"
  by pat_completeness auto
termination
proof (relation "measure length")
  fix z :: cstring and r c z'
  assume "ch z \<noteq> 0" "r = sqlite3Utf8Read z" "(c, z') = r"
  then show "(z', z) \<in> measure length"
    using READ_UTF8_shorter[of c z' z] by (cases "z = []") (auto simp: sqlite3Utf8Read_def)
qed simp

declare code_points.simps [simp del]

datatype token = Any | One | Char nat | Set bool "(nat \<times> nat) list" | Bad

text \<open>The members of a set up to the closing bracket, as ranges of code points.\<close>

fun parse_items :: "nat \<Rightarrow> nat list \<Rightarrow> ((nat \<times> nat) list \<times> nat list) option" where
  "parse_items prior [] = None"
| "parse_items prior (x # r) =
     (if x = 93 then Some ([], r)
      else if x = 45 \<and> prior > 0 \<and> r \<noteq> [] \<and> hd r \<noteq> 93 then
        map_option (apfst (Cons (prior, hd r))) (parse_items 0 (tl r))
      else map_option (apfst (Cons (x, x))) (parse_items x r))"

definition parse_set :: "nat list \<Rightarrow> (bool \<times> (nat \<times> nat) list \<times> nat list) option" where
  "parse_set cs =
     (let neg = (cs \<noteq> [] \<and> hd cs = 94);
          cs = (if neg then tl cs else cs)
      in if cs \<noteq> [] \<and> hd cs = 93
         then map_option (\<lambda>(is, r). (neg, (93, 93) # is, r)) (parse_items 0 (tl cs))
         else map_option (\<lambda>(is, r). (neg, is, r)) (parse_items 0 cs))"

lemma parse_items_length: "parse_items prior cs = Some (is, r) \<Longrightarrow> length r < length cs"
proof (induction prior cs arbitrary: "is" r rule: parse_items.induct)
  case (2 prior x cs)
  then show ?case by (cases cs) (fastforce split: if_splits)+
qed simp

lemma parse_set_length: "parse_set cs = Some (neg, is, r) \<Longrightarrow> length r < length cs"
  by (cases cs; cases "tl cs") (auto simp: parse_set_def Let_def split: if_splits dest!: parse_items_length)

function parse_pattern :: "compareInfo \<Rightarrow> nat \<Rightarrow> nat list \<Rightarrow> token list" where
  "parse_pattern info other [] = []"
| "parse_pattern info other (c # p) =
     (if c = matchAll info then Any # parse_pattern info other p
      else if c = other then
        if matchSet info = 0 then
          (case p of [] \<Rightarrow> [Bad] | d # p' \<Rightarrow> Char d # parse_pattern info other p')
        else
          (case parse_set p of
             None \<Rightarrow> [Bad]
           | Some (neg, is, p') \<Rightarrow> Set neg is # parse_pattern info other p')
      else if c = matchOne info then One # parse_pattern info other p
      else Char c # parse_pattern info other p)"
  by pat_completeness auto
termination by (relation "measure (\<lambda>(info, other, p). length p)") (auto dest!: parse_set_length)

definition same_char :: "compareInfo \<Rightarrow> nat \<Rightarrow> nat \<Rightarrow> bool" where
  "same_char info c c2 \<longleftrightarrow> c = c2 \<or> (noCase info \<and> c < 128 \<and> c2 < 128 \<and> lower_spec c = lower_spec c2)"

definition in_items :: "nat \<Rightarrow> (nat \<times> nat) list \<Rightarrow> bool" where
  "in_items c is \<longleftrightarrow> (\<exists>(lo, hi) \<in> set is. lo \<le> c \<and> c \<le> hi)"

primrec matches :: "compareInfo \<Rightarrow> token list \<Rightarrow> nat list \<Rightarrow> bool" where
  "matches info [] s = (s = [])"
| "matches info (t # ts) s =
     (case t of
        Any \<Rightarrow> (\<exists>k \<in> {0..length s}. matches info ts (drop k s))
      | One \<Rightarrow> s \<noteq> [] \<and> matches info ts (tl s)
      | Char c \<Rightarrow> s \<noteq> [] \<and> same_char info c (hd s) \<and> matches info ts (tl s)
      | Set neg is \<Rightarrow> s \<noteq> [] \<and> in_items (hd s) is \<noteq> neg \<and> matches info ts (tl s)
      | Bad \<Rightarrow> False)"

section \<open>Reading text as code points\<close>

lemma cont_loop_rest: "snd (cont_loop c z) = dropWhile is_cont z"
  by (induction c z rule: cont_loop.induct) auto

lemma skip_is_read: "z \<noteq> [] \<Longrightarrow> skip_utf8 z = snd (sqlite3Utf8Read z)"
proof (cases z)
  case (Cons a r)
  then show ?thesis
    using cont_loop_rest[of "sqlite3Utf8Trans1 ! (a - 192)" r]
    by (cases "cont_loop (sqlite3Utf8Trans1 ! (a - 192)) r")
      (simp add: skip_utf8_def sqlite3Utf8Read_def READ_UTF8_def)
qed simp

lemma cont_loop_bound: "c < 2 ^ 32 \<Longrightarrow> fst (cont_loop c z) < 2 ^ 32"
  by (induction c z rule: cont_loop.induct) auto

lemma Utf8Read_byte:
  "b < 192 \<Longrightarrow> sqlite3Utf8Read (b # z) = (b, z)"
  by (simp add: sqlite3Utf8Read_def READ_UTF8_def)

lemma Utf8Read_multi:
  assumes "192 \<le> b" "sqlite3Utf8Read (b # z) = (c, z')"
  shows "128 \<le> c" "z' = dropWhile is_cont z"
proof -
  let ?l = "cont_loop (sqlite3Utf8Trans1 ! (b - 192)) z"
  have c: "c = (if bad_char (fst ?l) then 0xFFFD else fst ?l)" "z' = snd ?l"
    using assms by (auto simp: sqlite3Utf8Read_def READ_UTF8_def split: prod.splits)
  show "z' = dropWhile is_cont z" using c(2) by (simp add: cont_loop_rest)
  show "128 \<le> c" using c(1) by (auto simp: bad_char_def)
qed

lemma code_points_nil [simp]: "code_points [] = []"
  by (simp add: code_points.simps)

lemma code_points_read:
  assumes "c_string z" "z \<noteq> []" "sqlite3Utf8Read z = (c, z')"
  shows "code_points z = c # code_points z'" "c \<noteq> 0" "c_string z'"
proof -
  obtain b r where z: "z = b # r" using assms(2) by (cases z) auto
  then have b: "0 < b" "c_string r" using assms(1) by auto
  show "code_points z = c # code_points z'" using assms(3) b by (subst code_points.simps) (simp add: z)
  have "c \<noteq> 0 \<and> c_string z'"
  proof (cases "b < 192")
    case True
    then show ?thesis using assms(3) b by (simp add: z Utf8Read_byte)
  next
    case False
    then have "128 \<le> c" "z' = dropWhile is_cont r"
      using Utf8Read_multi[of b r c z'] assms(3) z by auto
    then show ?thesis using b(2) by (auto simp: c_string_def dest: set_dropWhileD)
  qed
  then show "c \<noteq> 0" "c_string z'" by blast+
qed

lemma code_points_cases:
  assumes "c_string z"
  obtains "z = []" "sqlite3Utf8Read z = (0, [])" "code_points z = []"
  | c z' where "z \<noteq> []" "sqlite3Utf8Read z = (c, z')" "code_points z = c # code_points z'" "c \<noteq> 0"
      "c_string z'" "length z' < length z"
proof (cases "z = []")
  case True
  then show ?thesis using that(1) by simp
next
  case False
  obtain c z' where r: "sqlite3Utf8Read z = (c, z')" by (cases "sqlite3Utf8Read z") auto
  note cp = code_points_read[OF assms False r]
  show ?thesis using that(2)[OF False r cp] Utf8Read_shorter[OF r[symmetric] cp(2)] by blast
qed

lemma ch_zero: "c_string z \<Longrightarrow> ch z = 0 \<longleftrightarrow> code_points z = []"
proof (cases z)
  case (Cons b r)
  assume z: "c_string z"
  obtain c z' where "sqlite3Utf8Read z = (c, z')" by (cases "sqlite3Utf8Read z") auto
  then have "code_points z = c # code_points z'" using code_points_read(1)[OF z] Cons by simp
  moreover have "ch z \<noteq> 0" using z Cons by simp
  ultimately show ?thesis by simp
qed simp

lemma ch_ascii: "c_string z \<Longrightarrow> 0 < a \<Longrightarrow> a < 128 \<Longrightarrow> ch z = a \<longleftrightarrow> code_points z \<noteq> [] \<and> hd (code_points z) = a"
proof (cases z)
  case (Cons b r)
  assume z: "c_string z" and a: "0 < a" "a < 128"
  obtain c z' where r: "sqlite3Utf8Read z = (c, z')" by (cases "sqlite3Utf8Read z") auto
  have cp: "code_points z = c # code_points z'" using code_points_read(1)[OF z _ r] Cons by simp
  show ?thesis
  proof (cases "b < 192")
    case True
    then show ?thesis using r cp Cons by (simp add: Utf8Read_byte)
  next
    case False
    then have "128 \<le> c" using Utf8Read_multi(1)[of b _ c z'] r Cons by simp
    then show ?thesis using cp Cons False a by simp
  qed
qed simp

section \<open>Wildcards\<close>

text \<open>What the tables of the operators and the escape character have to satisfy.\<close>

definition good_info :: "compareInfo \<Rightarrow> nat \<Rightarrow> bool" where
  "good_info info other \<longleftrightarrow>
     0 < matchAll info \<and> 0 < matchOne info \<and> matchAll info \<noteq> matchOne info
     \<and> other \<noteq> matchAll info \<and> other \<noteq> matchOne info \<and> (matchSet info \<noteq> 0 \<longrightarrow> other \<noteq> 0)"

definition says :: "match_result \<Rightarrow> compareInfo \<Rightarrow> token list \<Rightarrow> nat list \<Rightarrow> bool" where
  "says r info T ds =
     (case r of
        SQLITE_MATCH \<Rightarrow> matches info T ds
      | SQLITE_NOMATCH \<Rightarrow> \<not> matches info T ds
      | SQLITE_NOWILDCARDMATCH \<Rightarrow> \<forall>n. \<not> matches info T (drop n ds))"

definition finds :: "match_result \<Rightarrow> compareInfo \<Rightarrow> token list \<Rightarrow> nat list \<Rightarrow> bool" where
  "finds r info T ds =
     (case r of
        SQLITE_MATCH \<Rightarrow> \<exists>n. n \<le> length ds \<and> matches info T (drop n ds)
      | SQLITE_NOMATCH \<Rightarrow> False
      | SQLITE_NOWILDCARDMATCH \<Rightarrow> \<forall>n. \<not> matches info T (drop n ds))"

lemma any_simp: "matches info (Any # T) X \<longleftrightarrow> (\<exists>j. j \<le> length X \<and> matches info T (drop j X))"
  by (auto simp: Bex_def)

lemma any_any: "matches info (Any # Any # T) X \<longleftrightarrow> matches info (Any # T) X"
proof
  assume "matches info (Any # Any # T) X"
  then obtain j i where "j \<le> length X" "i \<le> length (drop j X)" "matches info T (drop i (drop j X))"
    unfolding any_simp by blast
  then have "i + j \<le> length X \<and> matches info T (drop (i + j) X)" by auto
  then show "matches info (Any # T) X" unfolding any_simp by blast
next
  assume "matches info (Any # T) X"
  then show "matches info (Any # Any # T) X"
    unfolding any_simp[of info "Any # T"] by (intro exI[of _ 0]) simp
qed

lemma any_one: "matches info (Any # One # T) X \<longleftrightarrow> X \<noteq> [] \<and> matches info (Any # T) (tl X)"
proof
  assume "matches info (Any # One # T) X"
  then obtain j where j: "j \<le> length X" "drop j X \<noteq> []" "matches info T (tl (drop j X))"
    unfolding any_simp by auto
  then have "j \<le> length (tl X)" "tl (drop j X) = drop j (tl X)" by (auto simp: tl_drop)
  then show "X \<noteq> [] \<and> matches info (Any # T) (tl X)" using j unfolding any_simp by auto
next
  assume "X \<noteq> [] \<and> matches info (Any # T) (tl X)"
  then obtain j where j: "X \<noteq> []" "j \<le> length (tl X)" "matches info T (drop j (tl X))"
    unfolding any_simp by auto
  then have "j \<le> length X" "drop j X \<noteq> []" "tl (drop j X) = drop j (tl X)"
    by (cases X; auto simp: tl_drop)+
  then show "matches info (Any # One # T) X" using j unfolding any_simp by auto
qed

definition skip_post ::
    "compareInfo \<Rightarrow> nat \<Rightarrow> cstring \<Rightarrow> cstring \<Rightarrow> (nat \<times> cstring \<times> cstring \<times> cstring) option \<Rightarrow> bool" where
  "skip_post info other p s r =
     (let A = Any # parse_pattern info other (code_points p); ds = code_points s
      in case r of
           None \<Rightarrow> \<forall>X. matches info A X \<longrightarrow> length ds < length X
         | Some (c, p0, p1, s') \<Rightarrow>
             c_string p0 \<and> c_string s' \<and> sqlite3Utf8Read p0 = (c, p1)
             \<and> (c \<noteq> 0 \<longrightarrow> c \<noteq> matchAll info \<and> c \<noteq> matchOne info)
             \<and> set (code_points p0) \<subseteq> set (code_points p)
             \<and> (\<exists>k \<le> length ds. code_points s' = drop k ds
                  \<and> (\<forall>X. matches info A X \<longleftrightarrow> (\<exists>j. k \<le> j \<and> j \<le> length X
                        \<and> matches info (parse_pattern info other (code_points p0)) (drop j X)))))"

lemma skip_post_stop:
  assumes "c_string p" "c_string s" "sqlite3Utf8Read p = (c, q)"
    "c \<noteq> 0 \<Longrightarrow> c \<noteq> matchAll info \<and> c \<noteq> matchOne info"
  shows "skip_post info other p s (Some (c, p, q, s))"
  unfolding skip_post_def Let_def option.case prod.case any_simp
  using assms by (intro conjI) (simp_all, rule exI[of _ 0], simp)

lemma skip_post_any:
  assumes "skip_post info other q s r" "code_points p = matchAll info # code_points q"
  shows "skip_post info other p s r"
  using assms unfolding skip_post_def Let_def
  by (auto simp: any_any simp del: matches.simps split: option.splits)

lemma skip_post_one:
  assumes "skip_post info other q s2 r" "code_points p = matchOne info # code_points q"
    "code_points s = d # code_points s2" "good_info info other"
  shows "skip_post info other p s r"
proof -
  let ?A = "Any # parse_pattern info other (code_points q)"
  have A: "Any # parse_pattern info other (code_points p) = Any # One # parse_pattern info other (code_points q)"
    using assms(2,4) by (auto simp: good_info_def)
  show ?thesis
  proof (cases r)
    case None
    then have "matches info ?A X \<Longrightarrow> length (code_points s2) < length X" for X
      using assms(1) unfolding skip_post_def Let_def by auto
    then show ?thesis unfolding skip_post_def Let_def A any_one None assms(3) by fastforce
  next
    case (Some t)
    obtain c p0 p1 s' where t: "t = (c, p0, p1, s')" by (rule prod_cases4)
    from assms(1) obtain k where post: "c_string p0" "c_string s'" "sqlite3Utf8Read p0 = (c, p1)"
      "c \<noteq> 0 \<longrightarrow> c \<noteq> matchAll info \<and> c \<noteq> matchOne info" "set (code_points p0) \<subseteq> set (code_points q)"
      and k: "k \<le> length (code_points s2)" "code_points s' = drop k (code_points s2)"
      and eq: "\<And>X. matches info ?A X \<longleftrightarrow> (\<exists>j. k \<le> j \<and> j \<le> length X
          \<and> matches info (parse_pattern info other (code_points p0)) (drop j X))"
      unfolding skip_post_def Let_def Some t option.case prod.case by blast
    have "matches info (Any # One # parse_pattern info other (code_points q)) X
      \<longleftrightarrow> (\<exists>j. Suc k \<le> j \<and> j \<le> length X
          \<and> matches info (parse_pattern info other (code_points p0)) (drop j X))" for X
    proof
      assume "matches info (Any # One # parse_pattern info other (code_points q)) X"
      then obtain j where "X \<noteq> []" "k \<le> j" "j \<le> length (tl X)"
        "matches info (parse_pattern info other (code_points p0)) (drop j (tl X))"
        unfolding any_one eq by blast
      then show "\<exists>j. Suc k \<le> j \<and> j \<le> length X
          \<and> matches info (parse_pattern info other (code_points p0)) (drop j X)"
        by (cases X) (auto intro!: exI[of _ "Suc j"])
    next
      assume "\<exists>j. Suc k \<le> j \<and> j \<le> length X
          \<and> matches info (parse_pattern info other (code_points p0)) (drop j X)"
      then obtain j where j: "Suc k \<le> Suc j" "Suc j \<le> length X"
        "matches info (parse_pattern info other (code_points p0)) (drop (Suc j) X)"
        by (metis Suc_le_D)
      then show "matches info (Any # One # parse_pattern info other (code_points q)) X"
        unfolding any_one eq by (cases X) (auto intro!: exI[of _ j])
    qed
    then show ?thesis
      unfolding skip_post_def Let_def A Some t option.case prod.case assms(3)
      using post k assms(2) by (auto intro!: exI[of _ "Suc k"] simp del: matches.simps)
  qed
qed

lemma star_skip_meaning:
  "good_info info other \<Longrightarrow> c_string p \<Longrightarrow> c_string s \<Longrightarrow> skip_post info other p s (star_skip info p s)"
proof (induction "length p" arbitrary: p s rule: less_induct)
  case less
  note good = less.prems(1)
  from less.prems(2) show ?case
  proof (cases rule: code_points_cases)
    case 1
    then show ?thesis
      using skip_post_stop[OF less.prems(2,3) 1(2)] by (subst star_skip.simps) simp
  next
    case (2 c q)
    from less.prems(3) have s: "c_string s" .
    consider "c = matchAll info" | "c = matchOne info" "c \<noteq> matchAll info" | "c \<noteq> matchAll info" "c \<noteq> matchOne info"
      by blast
    then show ?thesis
    proof cases
      case all: 1
      have "skip_post info other q s (star_skip info q s)" using less.hyps[OF 2(6) good 2(5) s] .
      then have "skip_post info other p s (star_skip info q s)" by (rule skip_post_any) (use 2 all in simp)
      then show ?thesis using 2 all by (subst star_skip.simps) simp
    next
      case one: 2
      from s show ?thesis
      proof (cases rule: code_points_cases)
        case nil: 1
        have "skip_post info other p s None"
          using 2 one good nil unfolding skip_post_def Let_def
          by (auto simp: any_one good_info_def simp del: matches.simps)
        then show ?thesis using 2 one nil by (subst star_skip.simps) simp
      next
        case cons: (2 d s2)
        have "skip_post info other q s2 (star_skip info q s2)" using less.hyps[OF 2(6) good 2(5) cons(5)] .
        then have "skip_post info other p s (star_skip info q s2)"
          by (rule skip_post_one) (use 2 one cons good in simp_all)
        then show ?thesis using 2 one cons by (subst star_skip.simps) simp
      qed
    next
      case 3
      then show ?thesis
        using skip_post_stop[OF less.prems(2,3) 2(2)] 2 by (subst star_skip.simps) simp
    qed
  qed
qed

section \<open>Sets\<close>

definition read_list :: "nat \<Rightarrow> cstring \<Rightarrow> nat list" where
  "read_list c z = (if c = 0 then [] else c # code_points z)"

lemma read_list_read:
  "c_string z \<Longrightarrow> sqlite3Utf8Read z = (c, z') \<Longrightarrow> read_list c z' = code_points z \<and> c_string z'"
  by (erule code_points_cases) (auto simp: read_list_def)

definition loop_post ::
    "nat \<Rightarrow> bool \<Rightarrow> ((nat \<times> nat) list \<times> nat list) option \<Rightarrow> (bool \<times> cstring) option \<Rightarrow> bool" where
  "loop_post c seen parsed r =
     (case r of
        None \<Rightarrow> parsed = None
      | Some (b, p') \<Rightarrow> c_string p' \<and> (\<exists>is. parsed = Some (is, code_points p') \<and> b = (seen \<or> in_items c is)))"

lemma in_items_simps [simp]: "in_items c [] = False" "in_items c ((lo, hi) # is) = ((lo \<le> c \<and> c \<le> hi) \<or> in_items c is)"
  by (auto simp: in_items_def)

lemma loop_post_cons:
  "loop_post c (seen \<or> (lo \<le> c \<and> c \<le> hi)) parsed r \<Longrightarrow>
   loop_post c seen (map_option (apfst (Cons (lo, hi))) parsed) r"
  by (auto simp: loop_post_def split: option.splits)

lemma class_loop_meaning:
  "c_string p \<Longrightarrow> loop_post c seen (parse_items prior (read_list c2 p)) (class_loop c c2 prior seen p)"
proof (induction c c2 prior seen p rule: class_loop.induct)
  case (1 c c2 prior seen p)
  obtain d q where r: "sqlite3Utf8Read p = (d, q)" by (cases "sqlite3Utf8Read p") auto
  obtain d' q' where r': "sqlite3Utf8Read q = (d', q')" by (cases "sqlite3Utf8Read q") auto
  note q = read_list_read[OF 1(3) r]
  note q' = read_list_read[OF q[THEN conjunct2] r']
  consider "c2 = 0" | "c2 \<noteq> 0" "c2 = 93" | "c2 \<noteq> 0" "c2 \<noteq> 93" "c2 = 45 \<and> ch p \<noteq> 93 \<and> ch p \<noteq> 0 \<and> prior > 0"
    | "c2 \<noteq> 0" "c2 \<noteq> 93" "\<not> (c2 = 45 \<and> ch p \<noteq> 93 \<and> ch p \<noteq> 0 \<and> prior > 0)" by blast
  then show ?case
  proof cases
    case 1
    then show ?thesis by (subst class_loop.simps) (simp add: loop_post_def read_list_def)
  next
    case 2
    then show ?thesis using 1(3) by (subst class_loop.simps) (simp add: loop_post_def read_list_def)
  next
    case 3
    have cp: "code_points p = d # code_points q" "code_points p \<noteq> []" "hd (code_points p) \<noteq> 93"
      using 3 ch_zero[OF 1(3)] ch_ascii[OF 1(3), of 93] q by (auto simp: read_list_def split: if_splits)
    have "loop_post c (seen \<or> (prior \<le> c \<and> c \<le> d)) (parse_items 0 (code_points q))
        (class_loop c d' 0 (seen \<or> (prior \<le> c \<and> c \<le> d)) q')"
      using 1(1)[OF 3(1,2,3) r[symmetric] refl r'[symmetric] refl] q' by simp
    then have "loop_post c seen (map_option (apfst (Cons (prior, d))) (parse_items 0 (code_points q)))
        (class_loop c d' 0 (seen \<or> (prior \<le> c \<and> c \<le> d)) q')" by (rule loop_post_cons)
    then show ?thesis using 3 cp r r' by (subst class_loop.simps) (simp add: read_list_def)
  next
    case 4
    have cond: "(c2 = 45 \<and> prior > 0 \<and> code_points p \<noteq> [] \<and> hd (code_points p) \<noteq> 93) = False"
      using 4(3) ch_zero[OF 1(3)] ch_ascii[OF 1(3), of 93] by auto
    have "loop_post c (seen \<or> (c2 \<le> c \<and> c \<le> c2)) (parse_items c2 (code_points p))
        (class_loop c d c2 (seen \<or> c = c2) q)"
      using 1(2)[OF 4 r[symmetric] refl] q by (simp add: order_eq_iff conj_commute)
    then have "loop_post c seen (map_option (apfst (Cons (c2, c2))) (parse_items c2 (code_points p)))
        (class_loop c d c2 (seen \<or> c = c2) q)" by (rule loop_post_cons)
    moreover have "class_loop c c2 prior seen p = class_loop c d c2 (seen \<or> c = c2) q"
      unfolding class_loop.simps[of c c2 prior seen p] if_not_P[OF 4(3)] using 4(1,2) r by simp
    moreover have "parse_items prior (read_list c2 p) = map_option (apfst (Cons (c2, c2))) (parse_items c2 (code_points p))"
      unfolding read_list_def if_not_P[OF 4(1)] parse_items.simps(2) cond if_False if_not_P[OF 4(2)] ..
    ultimately show ?thesis by (simp only:)
  qed
qed

lemma set_scan_meaning:
  assumes "c_string p"
  shows "case set_scan c p of
      None \<Rightarrow> parse_set (code_points p) = None
    | Some (ok, p') \<Rightarrow> c_string p' \<and> (\<exists>neg is. parse_set (code_points p) = Some (neg, is, code_points p')
        \<and> ok = (in_items c is \<noteq> neg))"
proof -
  obtain d q where r: "sqlite3Utf8Read p = (d, q)" by (cases "sqlite3Utf8Read p") auto
  note q = read_list_read[OF assms r]
  define inv where "inv = (d = 94)"
  obtain e u where e: "(if inv then sqlite3Utf8Read q else (d, q)) = (e, u)" by fastforce
  have u: "c_string u" "read_list e u = (if inv then tl (code_points p) else code_points p)"
  proof -
    have q1: "code_points p = read_list d q" using q by simp
    show "c_string u" "read_list e u = (if inv then tl (code_points p) else code_points p)"
      using e q read_list_read[of q e u] unfolding q1 by (auto simp: inv_def read_list_def split: if_splits)
  qed
  have neg: "inv = (code_points p \<noteq> [] \<and> hd (code_points p) = 94)"
    unfolding q[THEN conjunct1, symmetric] by (simp add: inv_def read_list_def)
  obtain f w where f: "(if e = 93 then sqlite3Utf8Read u else (e, u)) = (f, w)" by fastforce
  have w: "c_string w" "read_list f w = (if e = 93 then code_points u else read_list e u)"
    using f u read_list_read[of u] by (auto split: if_splits)
  have scan: "set_scan c p = map_option (\<lambda>(seen, p). (seen \<noteq> inv, p)) (class_loop c f 0 (e = 93 \<and> c = 93) w)"
    using e f unfolding set_scan_def r inv_def by (simp add: Let_def split: prod.splits)
  note post = class_loop_meaning[OF w(1), of c "e = 93 \<and> c = 93" 0 f]
  show ?thesis
  proof (cases "e = 93")
    case True
    then have "read_list e u \<noteq> [] \<and> hd (read_list e u) = 93 \<and> tl (read_list e u) = code_points u"
      by (simp add: read_list_def)
    then have "parse_set (code_points p) = map_option (\<lambda>(is, r). (inv, (93, 93) # is, r)) (parse_items 0 (code_points u))"
      using u(2) neg by (auto simp: parse_set_def Let_def split: if_splits)
    then show ?thesis
      using post True w(2) unfolding scan loop_post_def by (auto split: option.splits)
  next
    case False
    then have "\<not> (read_list e u \<noteq> [] \<and> hd (read_list e u) = 93)" by (simp add: read_list_def)
    then have "parse_set (code_points p) = map_option (\<lambda>(is, r). (inv, is, r)) (parse_items 0 (read_list e u))"
      using u(2) neg by (auto simp: parse_set_def Let_def split: if_splits)
    then show ?thesis
      using post False w(2) unfolding scan loop_post_def by (auto split: option.splits)
  qed
qed

section \<open>The search behind a wildcard\<close>

lemma dropWhile_dropWhile:
  "(\<And>x. x \<in> set xs \<Longrightarrow> P x \<Longrightarrow> Q x) \<Longrightarrow> dropWhile Q (dropWhile P xs) = dropWhile Q xs"
  by (induction xs) auto

lemma find_ascii:
  assumes "\<And>b. b \<in> S \<Longrightarrow> 0 < b \<and> b < 128"
  shows "c_string s \<Longrightarrow>
    (let s' = dropWhile (\<lambda>b. b \<notin> S) s
     in c_string s' \<and> (\<exists>pre. code_points s = pre @ code_points s' \<and> set pre \<inter> S = {})
        \<and> (s' \<noteq> [] \<longrightarrow> hd s' \<in> S \<and> c_string (tl s') \<and> code_points s' = hd s' # code_points (tl s')))"
proof (induction "length s" arbitrary: s rule: less_induct)
  case less
  show ?case
  proof (cases s)
    case Nil
    then show ?thesis by simp
  next
    case (Cons b r)
    obtain c z' where rd: "sqlite3Utf8Read s = (c, z')" by (cases "sqlite3Utf8Read s") auto
    have cp: "code_points s = c # code_points z'" "c_string z'"
      using code_points_read[OF less.prems _ rd] Cons by auto
    show ?thesis
    proof (cases "b \<in> S")
      case True
      then have "c = b" "z' = r" using rd Utf8Read_byte[of b r] assms[OF True] by (auto simp: Cons)
      then show ?thesis using cp True less.prems by (auto simp: Cons Let_def intro: exI[of _ "[]"])
    next
      case False
      have "c \<notin> S \<and> dropWhile (\<lambda>b. b \<notin> S) s = dropWhile (\<lambda>b. b \<notin> S) z' \<and> length z' < length s"
      proof (cases "b < 192")
        case True
        then show ?thesis using rd False by (auto simp: Cons Utf8Read_byte)
      next
        case hi: False
        then have m: "128 \<le> c" "z' = dropWhile is_cont r" using Utf8Read_multi[of b r c z'] rd Cons by auto
        have "x \<notin> S" if "x \<in> set r" "is_cont x" for x
        proof -
          have "x < 256" using that(1) less.prems by (auto simp: Cons c_string_def)
          then have "128 \<le> x" using that(2) by (simp add: is_cont_iff)
          then show ?thesis using assms[of x] by auto
        qed
        then have "dropWhile (\<lambda>b. b \<notin> S) z' = dropWhile (\<lambda>b. b \<notin> S) r"
          unfolding m(2) by (rule dropWhile_dropWhile)
        moreover have "c \<notin> S" using assms[of c] m(1) by auto
        ultimately show ?thesis using False m(2) length_dropWhile_le[of is_cont r] by (simp add: Cons)
      qed
      then have c: "c \<notin> S" "dropWhile (\<lambda>b. b \<notin> S) s = dropWhile (\<lambda>b. b \<notin> S) z'" "length z' < length s" by auto
      show ?thesis
        using less.hyps[OF c(3) cp(2)] c(1) unfolding Let_def c(2) cp(1)
        by (auto intro: exI[of _ "c # _"])
    qed
  qed
qed

lemma stop_set:
  assumes "0 < c" "c < 128"
  shows "b \<in> set (stop_bytes info c) \<longleftrightarrow> same_char info c b" "b \<in> set (stop_bytes info c) \<Longrightarrow> 0 < b \<and> b < 128"
proof -
  have "sqlite3Toupper c = (if 97 \<le> c \<and> c \<le> 122 then c - 32 else c)" "sqlite3Tolower c = lower_spec c"
    using assms Toupper_eq[of c] Tolower_eq[of c] by auto
  then have s: "set (stop_bytes info c) =
      (if noCase info then {if 97 \<le> c \<and> c \<le> 122 then c - 32 else c, lower_spec c} else {c})"
    by (simp add: stop_bytes_def)
  show "b \<in> set (stop_bytes info c) \<longleftrightarrow> same_char info c b"
    unfolding s same_char_def using assms by (auto simp: lower_spec_def split: if_splits)
  show "b \<in> set (stop_bytes info c) \<Longrightarrow> 0 < b \<and> b < 128"
    unfolding s using assms by (auto simp: lower_spec_def split: if_splits)
qed

lemma char_at_index:
  assumes "matches info (Char c # T) (drop n Y)"
  shows "n < length Y" "same_char info c (Y ! n)" "matches info T (drop (Suc n) Y)"
  using assms by (auto simp: hd_drop_conv_nth drop_Suc tl_drop)

lemma finds_step:
  assumes pre: "\<And>x. x \<in> set pre \<Longrightarrow> \<not> same_char info c x" and h: "same_char info c h"
    and inner: "says b info T ds" and later: "finds r info (Char c # T) ds"
  shows "finds (if b \<noteq> SQLITE_NOMATCH then b else r) info (Char c # T) (pre @ h # ds)"
proof -
  have at: "n \<ge> length pre \<and> n < length pre + Suc (length ds) \<and> matches info T (drop (n - length pre) ds)"
    if "matches info (Char c # T) (drop n (pre @ h # ds))" for n
  proof -
    note m = char_at_index[OF that]
    have "length pre \<le> n"
    proof (rule ccontr)
      assume "\<not> length pre \<le> n"
      then have "(pre @ h # ds) ! n \<in> set pre" by (simp add: nth_append)
      then show False using m(2) pre by blast
    qed
    then show ?thesis using m(1,3) by (auto simp: Suc_diff_le)
  qed
  have here: "matches info (Char c # T) (drop (length pre) (pre @ h # ds)) = matches info T ds"
    using h by simp
  show ?thesis
  proof (cases b)
    case SQLITE_MATCH
    then have "matches info T ds" using inner by (simp add: says_def)
    then show ?thesis using SQLITE_MATCH here by (auto simp: finds_def simp del: matches.simps intro!: exI[of _ "length pre"])
  next
    case SQLITE_NOWILDCARDMATCH
    then have "\<not> matches info T (drop n ds)" for n using inner by (simp add: says_def)
    then show ?thesis using SQLITE_NOWILDCARDMATCH at by (auto simp: finds_def simp del: matches.simps)
  next
    case SQLITE_NOMATCH
    then have nm: "\<not> matches info T ds" using inner by (simp add: says_def)
    show ?thesis
    proof (cases r)
      case m: SQLITE_MATCH
      then obtain n where n: "n \<le> length ds" "matches info (Char c # T) (drop n ds)" using later by (auto simp: finds_def)
      have "drop (length pre + Suc n) (pre @ h # ds) = drop n ds" by simp
      then show ?thesis using SQLITE_NOMATCH m n
        by (auto simp: finds_def simp del: matches.simps intro!: exI[of _ "length pre + Suc n"])
    next
      case w: SQLITE_NOWILDCARDMATCH
      have "\<not> matches info (Char c # T) (drop n (pre @ h # ds))" for n
      proof
        assume m: "matches info (Char c # T) (drop n (pre @ h # ds))"
        note a = at[OF m]
        show False
        proof (cases "n = length pre")
          case True
          then show False using a nm by simp
        next
          case False
          then have "drop n (pre @ h # ds) = drop (n - length pre - 1) ds" using a by (simp add: drop_Cons')
          then show False using m w later by (auto simp: finds_def simp del: matches.simps)
        qed
      qed
      then show ?thesis using SQLITE_NOMATCH w by (simp add: finds_def)
    next
      case SQLITE_NOMATCH
      then show ?thesis using later by (simp add: finds_def)
    qed
  qed
qed

lemma finds_none:
  assumes "\<And>x. x \<in> set ds \<Longrightarrow> \<not> same_char info c x"
  shows "finds SQLITE_NOWILDCARDMATCH info (Char c # T) ds"
  using assms char_at_index(1,2)[of info c T _ ds] by (auto simp: finds_def simp del: matches.simps)

lemma find_char_meaning:
  assumes "0 < c" "c \<noteq> 128"
    and inner: "\<And>s. c_string s \<Longrightarrow> says (patternCompare info other p s) info T (code_points s)"
  shows "c_string s \<Longrightarrow> finds (find_char info other c p s) info (Char c # T) (code_points s)"
proof (induction "length s" arbitrary: s rule: less_induct)
  case less
  show ?case
  proof (cases "c < 128")
    case True
    let ?s = "dropWhile (\<lambda>b. b \<notin> set (stop_bytes info c)) s"
    note stop = stop_set[OF assms(1) True]
    have bytes: "\<And>b. b \<in> set (stop_bytes info c) \<Longrightarrow> 0 < b \<and> b < 128" by (rule stop(2))
    obtain pre where
      f: "c_string ?s" "code_points s = pre @ code_points ?s" "set pre \<inter> set (stop_bytes info c) = {}"
        "?s \<noteq> [] \<Longrightarrow> hd ?s \<in> set (stop_bytes info c) \<and> c_string (tl ?s) \<and> code_points ?s = hd ?s # code_points (tl ?s)"
      using find_ascii[OF bytes less.prems] unfolding Let_def by blast
    have pre: "\<not> same_char info c x" if "x \<in> set pre" for x using f(3) stop(1)[of x info] that by auto
    show ?thesis
    proof (cases "?s = []")
      case e: True
      then have "finds SQLITE_NOWILDCARDMATCH info (Char c # T) (code_points s)"
        using pre unfolding f(2) e by (intro finds_none) simp
      then show ?thesis using True
        by (subst find_char.simps) (simp add: Let_def e del: dropWhile_eq_Nil_conv)
    next
      case ne: False
      note g = f(4)[OF ne]
      have ch: "ch ?s \<noteq> 0" using ne f(1) by (cases ?s) auto
      have less': "length (tl ?s) < length s" using ne length_dropWhile_le[of _ s] by (metis Nitpick.size_list_simp(2) Suc_le_lessD length_tl)
      have "find_char info other c p s = (if patternCompare info other p (tl ?s) \<noteq> SQLITE_NOMATCH
          then patternCompare info other p (tl ?s) else find_char info other c p (tl ?s))"
        using True ch by (subst find_char.simps) (simp add: Let_def)
      moreover have "finds \<dots> info (Char c # T) (pre @ hd ?s # code_points (tl ?s))"
        using g stop(1) by (intro finds_step pre inner less.hyps[OF less']) auto
      ultimately show ?thesis using f(2) g by simp
    qed
  next
    case False
    then have big: "\<not> c \<le> 128" using assms(2) by simp
    from less.prems show ?thesis
    proof (cases rule: code_points_cases)
      case 1
      then show ?thesis using big finds_none[of "[]" info c T] by (subst find_char.simps) simp
    next
      case (2 d s')
      have IH: "finds (find_char info other c p s') info (Char c # T) (code_points s')" using less.hyps[OF 2(6,5)] .
      show ?thesis
      proof (cases "d = c")
        case True
        have "finds (if patternCompare info other p s' \<noteq> SQLITE_NOMATCH then patternCompare info other p s'
            else find_char info other c p s') info (Char c # T) ([] @ d # code_points s')"
          using True 2(5) by (intro finds_step inner IH) (auto simp: same_char_def)
        then show ?thesis using big 2 True by (subst find_char.simps) (simp add: Let_def)
      next
        case ne: False
        have "\<not> same_char info c d" using ne big by (auto simp: same_char_def)
        then have "finds r info (Char c # T) (d # ds)" if "finds r info (Char c # T) ds" for r ds
          using that
          by (cases r) (auto simp: finds_def drop_Cons' simp del: matches.simps split: if_splits
              dest: char_at_index(2)[of info c T 0 "d # ds", simplified] intro: exI[of _ "Suc _"])
        then show ?thesis using IH big 2 ne by (subst find_char.simps) simp
      qed
    qed
  qed
qed

section \<open>The matcher follows the meaning\<close>

lemma find_set_meaning:
  assumes inner: "\<And>s. c_string s \<Longrightarrow> says (patternCompare info other p s) info T (code_points s)"
    and nonempty: "\<not> matches info T []"
  shows "c_string s \<Longrightarrow> finds (find_set info other p s) info T (code_points s)"
proof (induction "length s" arbitrary: s rule: less_induct)
  case less
  from less.prems show ?case
  proof (cases rule: code_points_cases)
    case 1
    then show ?thesis using nonempty by (subst find_set.simps) (simp add: finds_def)
  next
    case (2 c s')
    have ch: "ch s \<noteq> 0" using ch_zero[OF less.prems] 2 by simp
    have skip: "skip_utf8 s = s'" using skip_is_read[OF 2(1)] 2(2) by simp
    have IH: "finds (find_set info other p s') info T (code_points s')" using less.hyps[OF 2(6,5)] .
    have b: "says (patternCompare info other p s) info T (c # code_points s')" using inner[OF less.prems] 2 by simp
    have "finds (if patternCompare info other p s \<noteq> SQLITE_NOMATCH then patternCompare info other p s
        else find_set info other p s') info T (c # code_points s')"
    proof (cases "patternCompare info other p s")
      case SQLITE_MATCH
      then show ?thesis using b by (auto simp: says_def finds_def intro: exI[of _ 0])
    next
      case SQLITE_NOWILDCARDMATCH
      then show ?thesis using b by (auto simp: says_def finds_def)
    next
      case SQLITE_NOMATCH
      then have nm: "\<not> matches info T (c # code_points s')" using b by (simp add: says_def)
      show ?thesis
      proof (cases "find_set info other p s'")
        case m: SQLITE_MATCH
        then obtain n where "n \<le> length (code_points s')" "matches info T (drop n (code_points s'))"
          using IH by (auto simp: finds_def)
        then show ?thesis using SQLITE_NOMATCH m by (auto simp: finds_def intro: exI[of _ "Suc n"])
      next
        case w: SQLITE_NOWILDCARDMATCH
        then have "\<not> matches info T (drop n (c # code_points s'))" for n
          using IH nm by (cases n) (auto simp: finds_def)
        then show ?thesis using SQLITE_NOMATCH w by (simp add: finds_def)
      next
        case SQLITE_NOMATCH
        then show ?thesis using IH by (simp add: finds_def)
      qed
    qed
    then show ?thesis using 2 ch skip by (subst find_set.simps) (auto simp: Let_def split: if_splits)
  qed
qed

lemma says_star:
  assumes skip: "k \<le> length ds" "\<And>X. matches info A X \<longleftrightarrow> (\<exists>j. k \<le> j \<and> j \<le> length X \<and> matches info R (drop j X))"
    and found: "finds r info R (drop k ds)"
  shows "says r info A ds"
proof (cases r)
  case SQLITE_MATCH
  then obtain n where "n \<le> length (drop k ds)" "matches info R (drop n (drop k ds))"
    using found by (auto simp: finds_def)
  then have "k \<le> n + k \<and> n + k \<le> length ds \<and> matches info R (drop (n + k) ds)" using skip(1) by auto
  then have "matches info A ds" unfolding skip(2) by blast
  then show ?thesis using SQLITE_MATCH by (simp add: says_def)
next
  case SQLITE_NOWILDCARDMATCH
  have "\<not> matches info A (drop n ds)" for n
  proof
    assume "matches info A (drop n ds)"
    then obtain j where "k \<le> j" "matches info R (drop j (drop n ds))" unfolding skip(2) by blast
    then have "matches info R (drop (j + n - k) (drop k ds))" by (simp add: add.commute)
    then show False using SQLITE_NOWILDCARDMATCH found by (auto simp: finds_def)
  qed
  then show ?thesis using SQLITE_NOWILDCARDMATCH by (simp add: says_def)
next
  case SQLITE_NOMATCH
  then show ?thesis using found by (simp add: finds_def)
qed

lemma says_step:
  assumes "says r info T ds" "\<And>X. matches info (t # T) (d # X) = matches info T X" "t \<noteq> Any"
  shows "says r info (t # T) (d # ds)"
proof (cases r)
  case SQLITE_NOWILDCARDMATCH
  then have all: "\<not> matches info T (drop n ds)" for n using assms(1) by (simp add: says_def)
  have "\<not> matches info (t # T) (drop n (d # ds))" for n
  proof (cases n)
    case 0
    then show ?thesis using all[of 0] assms(2) by simp
  next
    case (Suc m)
    show ?thesis
    proof (cases "drop m ds")
      case Nil
      then show ?thesis using Suc assms(3) by (cases t) simp_all
    next
      case (Cons x xs)
      then have "xs = drop (Suc m) ds" by (metis drop_Suc list.sel(3) tl_drop)
      then have "\<not> matches info T xs" using all by simp
      moreover have "matches info (t # T) (x # xs) \<Longrightarrow> matches info T xs"
        using assms(3) by (cases t) auto
      ultimately show ?thesis using Suc Cons by auto
    qed
  qed
  then show ?thesis using SQLITE_NOWILDCARDMATCH by (simp add: says_def)
qed (use assms in \<open>auto simp: says_def\<close>)

lemma says_nothing: "(\<And>X. \<not> matches info T X) \<Longrightarrow> r \<noteq> SQLITE_MATCH \<Longrightarrow> says r info T ds"
  by (cases r) (auto simp: says_def)

lemma parse_items_subset: "parse_items prior cs = Some (is, r) \<Longrightarrow> set r \<subseteq> set cs"
proof (induction prior cs arbitrary: "is" r rule: parse_items.induct)
  case (2 prior x cs)
  then show ?case by (cases cs) (fastforce split: if_splits)+
qed simp

lemma parse_set_subset: "parse_set cs = Some (neg, is, r) \<Longrightarrow> set r \<subseteq> set cs"
  by (auto simp: parse_set_def Let_def simp del: parse_items.simps split: if_splits
      dest!: parse_items_subset subsetD dest: list.set_sel(2)[rotated])

lemma says_Bad: "r \<noteq> SQLITE_MATCH \<Longrightarrow> says r info (Bad # T) ds"
  by (cases r) (auto simp: says_def)

lemma same_char_code:
  "c \<noteq> 0 \<Longrightarrow> same_char info c c2 \<longleftrightarrow>
    c = c2 \<or> (noCase info \<and> sqlite3Tolower c = sqlite3Tolower c2 \<and> c < 0x80 \<and> c2 < 0x80)"
  by (auto simp: same_char_def Tolower_eq)

lemma patternCompare_meaning:
  assumes good: "good_info info other"
  shows "c_string p \<Longrightarrow> c_string s \<Longrightarrow> 128 \<notin> set (code_points p) \<Longrightarrow>
    says (patternCompare info other p s) info (parse_pattern info other (code_points p)) (code_points s)"
proof (induction "length p" arbitrary: p s rule: less_induct)
  case less
  note ps = less.prems
  let ?P = "parse_pattern info other"
  have IH: "says (patternCompare info other p' s) info (?P (code_points p')) (code_points s)"
    if "length p' < length p" "c_string p'" "c_string s" "set (code_points p') \<subseteq> set (code_points p)" for p' s
    using less.hyps[OF that(1-3)] that(4) ps(3) by blast
  from ps(1) show ?case
  proof (cases rule: code_points_cases)
    case 1
    then show ?thesis using ch_zero[OF ps(2)] by (subst patternCompare.simps) (auto simp: says_def)
  next
    case (2 c q)
    have c128: "c \<noteq> 128" using 2(3) ps(3) by simp
    have qsub: "set (code_points q) \<subseteq> set (code_points p)" using 2(3) by auto
    consider "c = matchAll info" | "c = other" "matchSet info \<noteq> 0" | "c = other" "matchSet info = 0"
      | "c \<noteq> other" "c \<noteq> matchAll info" by blast
    then show ?thesis
    proof cases
      case all: 1
      have tokens: "?P (code_points p) = Any # ?P (code_points q)" using 2(3) all by simp
      note post = star_skip_meaning[OF good 2(5) ps(2)]
      show ?thesis
      proof (cases "star_skip info q s")
        case None
        have "\<not> matches info (Any # ?P (code_points q)) (drop n (code_points s))" for n
          using post unfolding None skip_post_def Let_def option.case by (metis length_drop diff_le_self not_less)
        then have "says SQLITE_NOWILDCARDMATCH info (Any # ?P (code_points q)) (code_points s)"
          unfolding says_def match_result.case by blast
        then show ?thesis using 2 all None unfolding tokens by (subst patternCompare.simps) simp
      next
        case (Some t)
        obtain e p0 p1 s' where t: "t = (e, p0, p1, s')" by (rule prod_cases4)
        from post obtain k where sk: "c_string p0" "c_string s'" "sqlite3Utf8Read p0 = (e, p1)"
            "e \<noteq> 0 \<longrightarrow> e \<noteq> matchAll info \<and> e \<noteq> matchOne info" "set (code_points p0) \<subseteq> set (code_points q)"
            "k \<le> length (code_points s)" "code_points s' = drop k (code_points s)"
            "\<And>X. matches info (Any # ?P (code_points q)) X \<longleftrightarrow>
              (\<exists>j. k \<le> j \<and> j \<le> length X \<and> matches info (?P (code_points p0)) (drop j X))"
          unfolding Some t skip_post_def Let_def option.case prod.case by blast
        have shorter: "length p0 < length p" "length p1 < length p"
          using star_skip_shorter[of info q s e p0 p1 s'] Some t 2(6) by auto
        have says: "says r info (?P (code_points p)) (code_points s)"
          if "finds r info (?P (code_points p0)) (code_points s')" for r
          unfolding tokens using that sk(6,7,8) by (intro says_star) auto
        have p1: "read_list e p1 = code_points p0" "c_string p1" using read_list_read[OF sk(1,3)] by auto
        have p1sub: "set (code_points p1) \<subseteq> set (code_points p)"
        proof (cases "e = 0")
          case True
          then have "p1 = []" using sk(3,1) by (auto elim: code_points_cases)
          then show ?thesis by simp
        next
          case False
          then have "code_points p0 = e # code_points p1" using p1(1) by (simp add: read_list_def)
          then show ?thesis using sk(5) qsub by auto
        qed
        have e128: "e \<noteq> 128"
        proof
          assume "e = 128"
          then have "code_points p0 = 128 # code_points p1" using p1(1) by (simp add: read_list_def)
          then have "128 \<in> set (code_points p0)" by simp
          then show False using sk(5) qsub ps(3) by blast
        qed
        consider "e = 0" | "e \<noteq> 0" "e = other" "matchSet info = 0" | "e \<noteq> 0" "e = other" "matchSet info \<noteq> 0"
          | "e \<noteq> 0" "e \<noteq> other" by blast
        then show ?thesis
        proof cases
          case zero: 1
          then have "code_points p0 = []" using p1(1) by (simp add: read_list_def)
          then have "finds SQLITE_MATCH info (?P (code_points p0)) (code_points s')"
            by (auto simp: finds_def intro: exI[of _ "length (code_points s')"])
          then show ?thesis using says 2 all Some t zero by (subst patternCompare.simps) simp
        next
          case esc: 2
          obtain f p2 where f: "sqlite3Utf8Read p1 = (f, p2)" by (cases "sqlite3Utf8Read p1") auto
          have p2: "read_list f p2 = code_points p1" "c_string p2" using read_list_read[OF p1(2) f] by auto
          have P0: "?P (code_points p0) = (case code_points p1 of [] \<Rightarrow> [Bad] | d # r \<Rightarrow> Char d # ?P r)"
            using p1(1)[symmetric] esc sk(4) by (simp add: read_list_def)
          show ?thesis
          proof (cases "f = 0")
            case True
            then have "finds SQLITE_NOWILDCARDMATCH info (?P (code_points p0)) (code_points s')"
              using P0 p2(1)[symmetric] by (simp add: read_list_def finds_def)
            then show ?thesis using says 2 all Some t esc f True by (subst patternCompare.simps) simp
          next
            case False
            have cp1: "code_points p1 = f # code_points p2" using p2(1) False by (simp add: read_list_def)
            have "f \<noteq> 128" using cp1 p1sub ps(3) by auto
            have "length p2 < length p" using Utf8Read_le[OF f[symmetric]] shorter by simp
            then have "finds (find_char info other f p2 s') info (Char f # ?P (code_points p2)) (code_points s')"
              using False \<open>f \<noteq> 128\<close> p2(2) sk(2) cp1 p1sub by (intro find_char_meaning IH) auto
            then show ?thesis using says 2 all Some t esc f False P0 cp1 by (subst patternCompare.simps) simp
          qed
        next
          case set: 3
          have cp0: "code_points p0 = other # code_points p1" using p1(1) set by (simp add: read_list_def)
          have "\<not> matches info (?P (code_points p0)) []"
            using set cp0 good by (auto simp: good_info_def split: option.splits)
          then have "finds (find_set info other p0 s') info (?P (code_points p0)) (code_points s')"
            using shorter sk(1,2,5) qsub by (intro find_set_meaning IH) auto
          then show ?thesis using says 2 all Some t set by (subst patternCompare.simps) simp
        next
          case plain: 4
          have cp0: "code_points p0 = e # code_points p1" using p1(1) plain by (simp add: read_list_def)
          have P0: "?P (code_points p0) = Char e # ?P (code_points p1)" using cp0 plain sk(4) by simp
          have "finds (find_char info other e p1 s') info (Char e # ?P (code_points p1)) (code_points s')"
            using plain e128 p1(2) sk(2) shorter p1sub by (intro find_char_meaning IH) auto
          then show ?thesis using says 2 all Some t plain P0 by (subst patternCompare.simps) simp
        qed
      qed
    next
      case set: 2
      have c: "c \<noteq> matchAll info" using good set by (auto simp: good_info_def)
      have tokens: "?P (code_points p) = (case parse_set (code_points q) of None \<Rightarrow> [Bad]
          | Some (neg, is, p') \<Rightarrow> Set neg is # ?P p')" using 2(3) set c by simp
      from ps(2) show ?thesis
      proof (cases rule: code_points_cases)
        case nil: 1
        have "\<not> matches info (?P (code_points p)) []" unfolding tokens by (simp split: option.splits)
        then show ?thesis using 2 set c nil by (subst patternCompare.simps) (simp add: says_def)
      next
        case cons: (2 d s')
        note scan = set_scan_meaning[OF 2(5), of d]
        show ?thesis
        proof (cases "set_scan d q")
          case None
          then have "?P (code_points p) = [Bad]" using scan unfolding tokens by simp
          then show ?thesis using 2 set c cons None by (subst patternCompare.simps) (simp add: says_Bad)
        next
          case (Some t)
          obtain ok p' where t: "t = (ok, p')" by (rule prod.exhaust)
          from scan obtain neg "is" where p': "c_string p'" "parse_set (code_points q) = Some (neg, is, code_points p')"
            "ok = (in_items d is \<noteq> neg)" unfolding Some t option.case prod.case by blast
          have T: "?P (code_points p) = Set neg is # ?P (code_points p')" unfolding tokens p'(2) by simp
          have "length p' < length p" using set_scan_shorter[of d q ok p'] Some t 2(6) by simp
          then have inner: "says (patternCompare info other p' s') info (?P (code_points p')) (code_points s')"
            using p'(1) cons(5) parse_set_subset[OF p'(2)] qsub by (intro IH) auto
          show ?thesis
          proof (cases ok)
            case True
            have "says (patternCompare info other p' s') info (?P (code_points p)) (code_points s)"
              unfolding T cons(3) using inner by (rule says_step) (use True p'(3) in auto)
            then show ?thesis using 2 set c cons Some t True by (subst patternCompare.simps) simp
          next
            case False
            then show ?thesis using 2 set c cons Some t T p'(3) by (subst patternCompare.simps) (simp add: says_def)
          qed
        qed
      qed
    next
      case esc: 3
      have c: "c \<noteq> matchAll info" using good esc by (auto simp: good_info_def)
      obtain f q2 where f: "sqlite3Utf8Read q = (f, q2)" by (cases "sqlite3Utf8Read q") auto
      have q2: "read_list f q2 = code_points q" "c_string q2" using read_list_read[OF 2(5) f] by auto
      have tokens: "?P (code_points p) = (case code_points q of [] \<Rightarrow> [Bad] | d # r \<Rightarrow> Char d # ?P r)"
        using 2(3) esc c by simp
      show ?thesis
      proof (cases "f = 0")
        case True
        then have "?P (code_points p) = [Bad]" using tokens q2(1)[symmetric] by (simp add: read_list_def)
        then show ?thesis using 2 esc c f True by (subst patternCompare.simps) (simp add: escape_read_def says_Bad split: prod.split)
      next
        case False
        have cq: "code_points q = f # code_points q2" using q2(1) False by (simp add: read_list_def)
        then have T: "?P (code_points p) = Char f # ?P (code_points q2)" using tokens by simp
        have inner: "says (patternCompare info other q2 s') info (?P (code_points q2)) (code_points s')" if "c_string s'" for s'
          using Utf8Read_le[OF f[symmetric]] 2(6) q2(2) that cq qsub by (intro IH) auto
        from ps(2) show ?thesis
        proof (cases rule: code_points_cases)
          case nil: 1
          have "\<not> same_char info f 0" using False lower_spec_zero[of f] by (auto simp: same_char_def lower_spec_def)
          then show ?thesis using 2 esc c f False nil T same_char_code[OF False, of info 0]
            by (subst patternCompare.simps) (auto simp: escape_read_def says_def)
        next
          case cons: (2 d s')
          have run: "patternCompare info other p s =
              (if same_char info f d then patternCompare info other q2 s' else SQLITE_NOMATCH)"
            unfolding same_char_code[OF False] using 2 esc c f False cons
            by (subst patternCompare.simps) (auto simp: escape_read_def)
          show ?thesis
          proof (cases "same_char info f d")
            case True
            have "says (patternCompare info other q2 s') info (?P (code_points p)) (code_points s)"
              unfolding T cons(3) using inner[OF cons(5)] by (rule says_step) (use True in auto)
            then show ?thesis using run True by simp
          next
            case diff: False
            then show ?thesis unfolding run T cons(3) by (simp add: says_def)
          qed
        qed
      qed
    next
      case plain: 4
      have inner: "says (patternCompare info other q s') info (?P (code_points q)) (code_points s')" if "c_string s'" for s'
        using 2(5,6) that qsub by (intro IH) auto
      define t where "t = (if c = matchOne info then One else Char c)"
      have T: "?P (code_points p) = t # ?P (code_points q)" using 2(3) plain by (simp add: t_def)
      from ps(2) show ?thesis
      proof (cases rule: code_points_cases)
        case nil: 1
        have "\<not> same_char info c 0" using 2(4) lower_spec_zero[of c] by (auto simp: same_char_def lower_spec_def)
        then show ?thesis using 2 plain nil T same_char_code[OF 2(4), of info 0]
          by (subst patternCompare.simps) (auto simp: escape_read_def says_def t_def)
      next
        case cons: (2 d s')
        have run: "patternCompare info other p s =
            (if same_char info c d \<or> c = matchOne info then patternCompare info other q s' else SQLITE_NOMATCH)"
          unfolding same_char_code[OF 2(4)] using 2 plain cons
          by (subst patternCompare.simps) (simp add: escape_read_def)
        show ?thesis
        proof (cases "same_char info c d \<or> c = matchOne info")
          case True
          have "says (patternCompare info other q s') info (?P (code_points p)) (code_points s)"
            unfolding T cons(3) using inner[OF cons(5)] by (rule says_step) (use True in \<open>auto simp: t_def\<close>)
          then show ?thesis using run True by simp
        next
          case False
          then show ?thesis unfolding run T cons(3) by (auto simp: says_def t_def)
        qed
      qed
    qed
  qed
qed

section \<open>Properties\<close>

text \<open>Why patterns with the code point 128 are excluded: the condition \<open>c<=0x80\<close> makes
  the matcher search for U+0080 as a byte, and the second byte of U+00C0 is found.\<close>

lemma glob_confuses_u0080:
  "sqlite3_strglob [42, 0xC2, 0x80] [0xC3, 0x80] = SQLITE_MATCH
   \<and> \<not> matches globInfo (parse_pattern globInfo 91 (code_points [42, 0xC2, 0x80])) (code_points [0xC3, 0x80])"
proof
  have rd: "sqlite3Utf8Read [42, 0xC2, 0x80] = (42, [0xC2, 0x80])" "sqlite3Utf8Read [0xC2, 0x80] = (128, [])"
    "sqlite3Utf8Read [0xC3, 0x80] = (192, [])"
    by (simp_all add: sqlite3Utf8Read_def READ_UTF8_def is_cont_iff arith_form bad_char_iff sqlite3Utf8Trans1_def)
  show "sqlite3_strglob [42, 0xC2, 0x80] [0xC3, 0x80] = SQLITE_MATCH"
    by (simp add: sqlite3_strglob_def patternCompare.simps find_char.simps star_skip.simps rd globInfo_def stop_bytes_def)
  have "code_points [42, 0xC2, 0x80] = [42, 128]" "code_points [0xC3, 0x80] = [192]"
    by (simp_all add: code_points.simps rd)
  then show "\<not> matches globInfo (parse_pattern globInfo 91 (code_points [42, 0xC2, 0x80])) (code_points [0xC3, 0x80])"
    by (simp add: globInfo_def same_char_def drop_Cons')
qed

lemma matchSet_norm: "matchSet likeInfoNorm = 0"
  by (simp add: likeInfoNorm_def)

text \<open>C25. LIKE and GLOB mean what patterns say: on UTF-8 text, for a pattern without the code point
  128, \<open>sqlite3_strlike\<close> with a usable escape character and \<open>sqlite3_strglob\<close> report a match exactly
  when the tokens of the pattern match the code points of the string, although the matcher searches
  bytes and gives up early behind a wildcard; the SQL operator answers so too, or with an error
  when the pattern is longer than the limit. For a pattern with the code point 128 it is wrong: a
  star and U+0080 match the text U+00C0, whose second byte is 128.\<close>

theorem like_and_glob_correct:
  assumes "c_string p" and "c_string s" and "128 \<notin> set (code_points p)" and "esc \<notin> {37, 95}"
  shows "(sqlite3_strlike p s esc = SQLITE_MATCH
      \<longleftrightarrow> matches likeInfoNorm (parse_pattern likeInfoNorm esc (code_points p)) (code_points s))
    \<and> likeFunc likeInfoNorm limit False (Some p) (Some s) None =
        (if length p > limit then Like_error ''LIKE or GLOB pattern too complex''
         else Like_value (matches likeInfoNorm (parse_pattern likeInfoNorm 0 (code_points p)) (code_points s)))
    \<and> (sqlite3_strglob [42, 0xC2, 0x80] [0xC3, 0x80] = SQLITE_MATCH
      \<and> \<not> matches globInfo (parse_pattern globInfo 91 (code_points [42, 0xC2, 0x80])) (code_points [0xC3, 0x80]))
    \<and> (sqlite3_strglob p s = SQLITE_MATCH
      \<longleftrightarrow> matches globInfo (parse_pattern globInfo 91 (code_points p)) (code_points s))"
proof -
  have good: "good_info likeInfoNorm esc" "good_info globInfo 91" "good_info likeInfoNorm 0"
    using assms(4) by (auto simp: good_info_def likeInfoNorm_def globInfo_def)
  have drop0: "matches i T (code_points s)" if "matches i T (drop 0 (code_points s))" for i T using that by simp
  have iff: "r = SQLITE_MATCH \<longleftrightarrow> matches i T (code_points s)" if "says r i T (code_points s)" for r i T
  proof (cases r)
    case SQLITE_NOWILDCARDMATCH
    then have "\<not> matches i T (drop n (code_points s))" for n using that by (simp add: says_def)
    from this[of 0] show ?thesis using SQLITE_NOWILDCARDMATCH by simp
  qed (use that in \<open>auto simp: says_def\<close>)
  show ?thesis
    using patternCompare_meaning[OF good(1) assms(1-3), THEN iff] patternCompare_meaning[OF good(2) assms(1-3), THEN iff]
      patternCompare_meaning[OF good(3) assms(1-3), THEN iff]
      glob_confuses_u0080
    by (simp add: sqlite3_strlike_def sqlite3_strglob_def likeFunc_def matchSet_norm)
qed

theorem like_and_glob_correct_witness:
  "sqlite3_strlike [37, 65, 95] [120, 97, 0xC3, 0xA9] 0 = SQLITE_MATCH"
proof -
  have cp: "code_points [37, 65, 95] = [37, 65, 95]"
    "code_points [120, 97, 0xC3, 0xA9] = [120, 97, 0xE9]"
    by (simp_all add: code_points.simps sqlite3Utf8Read_def READ_UTF8_def is_cont_iff arith_form
        bad_char_iff sqlite3Utf8Trans1_def)
  have "matches likeInfoNorm (parse_pattern likeInfoNorm 0 [37, 65, 95]) [120, 97, 0xE9]"
    by (auto simp: likeInfoNorm_def same_char_def lower_spec_def intro!: bexI[of _ 1])
  then show ?thesis
    using like_and_glob_correct[of "[37, 65, 95]" "[120, 97, 0xC3, 0xA9]" 0] by (simp add: cp)
qed

end
