(* ===== verification/Sqlite_Func.thy ===== *)
theory Sqlite_Func
  imports Sqlite_Utf
begin

text \<open>
  Text functions of SQL (\<open>src/func.c\<close>): \<open>instr\<close>, \<open>substr\<close>, \<open>quote\<close>, \<open>replace\<close> and the three
  trims, on UTF-8 text and on blobs.

  The text of a value and its integer (\<open>sqlite3_value_text\<close> and \<open>sqlite3_value_int\<close>, which
  convert numbers) are parameters, \<open>None\<close> being no text. Floating point values are of the
  parameter type \<open>'f\<close>.
\<close>

datatype 'f sql_value =
  SQLITE_NULL | SQLITE_INTEGER int | SQLITE_FLOAT 'f | SQLITE_TEXT cstring | SQLITE_BLOB cstring

section \<open>instr\<close>

function instr_loop :: "bool \<Rightarrow> cstring \<Rightarrow> cstring \<Rightarrow> nat \<Rightarrow> nat" where
  "instr_loop isText zNeedle zHaystack N =
     (if zHaystack \<noteq> [] \<and> length zNeedle \<le> length zHaystack
         \<and> (ch zHaystack \<noteq> ch zNeedle \<or> take (length zNeedle) zHaystack \<noteq> zNeedle)
      then instr_loop isText zNeedle
             (if isText then dropWhile is_cont (tl zHaystack) else tl zHaystack) (N + 1)
      else if length zNeedle > length zHaystack then 0 else N)"
  by pat_completeness auto
termination
  by (relation "measure (\<lambda>(t, n, h, N). length h)")
    (auto intro!: le_less_trans[OF length_dropWhile_le])

declare instr_loop.simps [simp del]

definition instr_bytes :: "bool \<Rightarrow> cstring \<Rightarrow> cstring \<Rightarrow> nat" where
  "instr_bytes isText zNeedle zHaystack = (if zNeedle = [] then 1 else instr_loop isText zNeedle zHaystack 1)"

definition value_bytes :: "('f sql_value \<Rightarrow> cstring option) \<Rightarrow> 'f sql_value \<Rightarrow> nat" where
  "value_bytes value_text v =
     (case v of SQLITE_BLOB z \<Rightarrow> length z
      | _ \<Rightarrow> (case value_text v of None \<Rightarrow> 0 | Some z \<Rightarrow> length z))"

definition instrFunc :: "('f sql_value \<Rightarrow> cstring option) \<Rightarrow> 'f sql_value \<Rightarrow> 'f sql_value \<Rightarrow> nat option" where
  "instrFunc value_text haystack needle =
     (if haystack = SQLITE_NULL \<or> needle = SQLITE_NULL then None
      else if value_bytes value_text needle = 0 then Some 1
      else case (haystack, needle) of
          (SQLITE_BLOB zHaystack, SQLITE_BLOB zNeedle) \<Rightarrow> Some (instr_bytes False zNeedle zHaystack)
        | _ \<Rightarrow> (case (value_text haystack, value_text needle) of
              (_, None) \<Rightarrow> None
            | (None, Some zNeedle) \<Rightarrow> if value_bytes value_text haystack \<noteq> 0 then None else Some 0
            | (Some zHaystack, Some zNeedle) \<Rightarrow> Some (instr_bytes True zNeedle zHaystack)))"

section \<open>substr\<close>

text \<open>The first position and the number of characters; \<open>len\<close> is needed for a negative \<open>p1\<close> only.\<close>

definition substr_range :: "int \<Rightarrow> int \<Rightarrow> int \<Rightarrow> int \<times> int" where
  "substr_range len p1 p2 =
     (let negP2 = (p2 < 0);
          p2 = (if negP2 then - p2 else p2);
          (p1, p2) =
            (if p1 < 0 then
               (let p1 = p1 + len
                in if p1 < 0 then (0, if p2 + p1 < 0 then 0 else p2 + p1) else (p1, p2))
             else if p1 > 0 then (p1 - 1, p2)
             else if p2 > 0 then (p1, p2 - 1)
             else (p1, p2))
      in if negP2 then
           (let p1 = p1 - p2 in if p1 < 0 then (0, p2 + p1) else (p1, p2))
         else (p1, p2))"

function skip_chars :: "cstring \<Rightarrow> int \<Rightarrow> cstring" where
  "skip_chars z p = (if ch z \<noteq> 0 \<and> p \<noteq> 0 then skip_chars (skip_utf8 z) (p - 1) else z)"
  by pat_completeness auto
termination
proof (relation "measure (\<lambda>(z, p). length z)")
  fix z :: cstring and p :: int
  assume "ch z \<noteq> 0 \<and> p \<noteq> 0"
  then show "((skip_utf8 z, p - 1), z, p) \<in> measure (\<lambda>(z, p). length z)"
    using skip_utf8_shorter[of z] by (cases z) auto
qed simp

declare skip_chars.simps [simp del]

definition substr_text :: "cstring \<Rightarrow> int \<Rightarrow> int \<Rightarrow> cstring" where
  "substr_text z p1 p2 =
     (let len = (if p1 < 0 then int (char_len z None) else 0);
          (p1, p2) = substr_range len p1 p2;
          z = skip_chars z p1;
          z2 = skip_chars z p2
      in take (length z - length z2) z)"

definition substr_blob :: "cstring \<Rightarrow> int \<Rightarrow> int \<Rightarrow> cstring" where
  "substr_blob z p1 p2 =
     (let len = int (length z);
          (p1, p2) = substr_range len p1 p2;
          p2 = (if p1 + p2 > len then (if len - p1 < 0 then 0 else len - p1) else p2)
      in take (nat p2) (drop (nat p1) z))"

text \<open>\<open>limit\<close> is the longest string, the length when there is no third argument. The blob of no bytes
  has no address, which the code takes for a missing one.\<close>

definition substrFunc ::
    "('f sql_value \<Rightarrow> cstring option) \<Rightarrow> ('f sql_value \<Rightarrow> int) \<Rightarrow> int
       \<Rightarrow> 'f sql_value \<Rightarrow> 'f sql_value \<Rightarrow> 'f sql_value option \<Rightarrow> 'f sql_value" where
  "substrFunc value_text value_int limit x y w =
     (if y = SQLITE_NULL \<or> w = Some SQLITE_NULL then SQLITE_NULL
      else
        let p1 = value_int y;
            p2 = (case w of Some v \<Rightarrow> value_int v | None \<Rightarrow> limit)
        in case x of
             SQLITE_BLOB z \<Rightarrow> if z = [] then SQLITE_NULL else SQLITE_BLOB (substr_blob z p1 p2)
           | _ \<Rightarrow> (case value_text x of
                 None \<Rightarrow> SQLITE_NULL
               | Some z \<Rightarrow> SQLITE_TEXT (substr_text z p1 p2)))"

section \<open>quote\<close>

text \<open>\<open>float_text\<close> is the text of a floating point number. A text ends at its first zero byte. \<open>Inl\<close>: the
  error that \<open>contextMalloc\<close> has set; a function that returns without a result has the result null.\<close>

fun quote_text :: "cstring \<Rightarrow> cstring" where
  "quote_text [] = []"
| "quote_text (c # z) = (if c = 39 then 39 # 39 # quote_text z else c # quote_text z)"

definition quoteFunc ::
    "('f sql_value \<Rightarrow> cstring option) \<Rightarrow> nat \<Rightarrow> (nat \<Rightarrow> bool) \<Rightarrow> ('f \<Rightarrow> cstring) \<Rightarrow> 'f sql_value
       \<Rightarrow> context_error + 'f sql_value" where
  "quoteFunc value_text limit malloc float_text v =
     (case v of
        SQLITE_FLOAT r \<Rightarrow> Inr (SQLITE_TEXT (float_text r))
      | SQLITE_INTEGER i \<Rightarrow> Inr v
      | SQLITE_BLOB z \<Rightarrow>
          (case contextMalloc limit malloc (2 * length z + 4) of
             Some e \<Rightarrow> Inl e
           | None \<Rightarrow> Inr (SQLITE_TEXT (88 # 39 # hex_digits z @ [39])))
      | SQLITE_TEXT _ \<Rightarrow>
          (case value_text v of
             None \<Rightarrow> Inr SQLITE_NULL
           | Some zArg \<Rightarrow>
               let z = takeWhile (\<lambda>c. c \<noteq> 0) zArg;
                   n = length (filter (\<lambda>c. c = 39) z)
               in (case contextMalloc limit malloc (length z + n + 3) of
                     Some e \<Rightarrow> Inl e
                   | None \<Rightarrow> Inr (SQLITE_TEXT (39 # quote_text z @ [39]))))
      | SQLITE_NULL \<Rightarrow> Inr (SQLITE_TEXT [78, 85, 76, 76]))"

section \<open>replace\<close>

text \<open>\<open>Overrun\<close> stands for a write behind the output buffer, whose size \<open>cap\<close> is carried along.\<close>

datatype replace_result = Replaced cstring | Null_argument | Toobig | Nomem | Overrun

function replace_loop ::
    "cstring \<Rightarrow> cstring \<Rightarrow> nat \<Rightarrow> nat \<Rightarrow> (nat \<Rightarrow> bool) \<Rightarrow> cstring \<Rightarrow> cstring \<Rightarrow> nat \<Rightarrow> nat \<Rightarrow> nat \<Rightarrow> replace_result" where
  "replace_loop zPattern zRep nStr limit realloc s out nOut cntExpand cap =
     (if s \<noteq> [] \<and> zPattern \<noteq> [] \<and> length zPattern \<le> length s then
        if ch s \<noteq> ch zPattern \<or> take (length zPattern) s \<noteq> zPattern then
          if length out + 1 > cap then Overrun
          else replace_loop zPattern zRep nStr limit realloc (tl s) (out @ [hd s]) nOut cntExpand cap
        else if length zRep > length zPattern then
          let nOut = nOut + (length zRep - length zPattern)
          in if nOut - 1 > limit then Toobig
             else
               let cntExpand = cntExpand + 1;
                   grow = (cntExpand AND (cntExpand - 1) = 0);
                   cap' = (if grow then nOut + (nOut - nStr - 1) else cap)
               in if grow \<and> \<not> realloc cap' then Nomem
                  else if length out + length zRep > cap' then Overrun
                  else replace_loop zPattern zRep nStr limit realloc (drop (length zPattern) s)
                         (out @ zRep) nOut cntExpand cap'
        else if length out + length zRep > cap then Overrun
        else replace_loop zPattern zRep nStr limit realloc (drop (length zPattern) s)
               (out @ zRep) nOut cntExpand cap
      else if length out + length s + 1 > cap then Overrun
      else Replaced (out @ s))"
  by pat_completeness auto
termination
  by (relation "measure (\<lambda>(p, r, n, l, re, s, out, no, c, cap). length s)") auto

declare replace_loop.simps [simp del]

definition replaceFunc ::
    "('f sql_value \<Rightarrow> cstring option) \<Rightarrow> (nat \<Rightarrow> bool) \<Rightarrow> (nat \<Rightarrow> bool) \<Rightarrow> nat
       \<Rightarrow> 'f sql_value \<Rightarrow> 'f sql_value \<Rightarrow> 'f sql_value \<Rightarrow> 'f sql_value + replace_result" where
  "replaceFunc value_text malloc realloc limit a b c =
     (case value_text a of
        None \<Rightarrow> Inr Null_argument
      | Some zStr \<Rightarrow> (case value_text b of
          None \<Rightarrow> Inr Null_argument
        | Some zPattern \<Rightarrow>
            if ch zPattern = 0 then Inl a
            else (case value_text c of
                None \<Rightarrow> Inr Null_argument
              | Some zRep \<Rightarrow>
                  let nOut = length zStr + 1
                  in (case contextMalloc limit malloc nOut of
                        Some Error_toobig \<Rightarrow> Inr Toobig
                      | Some Error_nomem \<Rightarrow> Inr Nomem
                      | None \<Rightarrow>
                          Inr (replace_loop zPattern zRep (length zStr) limit realloc zStr [] nOut 0 nOut)))))"

section \<open>trim\<close>

text \<open>The characters of the set. The length of each is stored in a byte, so that a lead byte with more
  than 254 continuation bytes is cut.\<close>

function char_chunks :: "cstring \<Rightarrow> cstring list" where
  "char_chunks z =
     (if ch z = 0 then []
      else take ((length z - length (skip_utf8 z)) mod 256) z # char_chunks (skip_utf8 z))"
  by pat_completeness auto
termination
proof (relation "measure length")
  fix z :: cstring
  assume "ch z \<noteq> 0"
  then show "(skip_utf8 z, z) \<in> measure length"
    using skip_utf8_shorter[of z] by (cases z) auto
qed simp

declare char_chunks.simps [simp del]

text \<open>\<open>None\<close>: the loop found a character of length zero, removes nothing and goes on for ever.\<close>

function trim_left :: "cstring list \<Rightarrow> cstring \<Rightarrow> cstring option" where
  "trim_left azChar zIn =
     (if zIn = [] then Some zIn
      else case find (\<lambda>c. length c \<le> length zIn \<and> take (length c) zIn = c) azChar of
             None \<Rightarrow> Some zIn
           | Some c \<Rightarrow> if c = [] then None else trim_left azChar (drop (length c) zIn))"
  by pat_completeness auto
termination by (relation "measure (\<lambda>(cs, z). length z)") auto

function trim_right :: "cstring list \<Rightarrow> cstring \<Rightarrow> cstring option" where
  "trim_right azChar zIn =
     (if zIn = [] then Some zIn
      else case find (\<lambda>c. length c \<le> length zIn \<and> drop (length zIn - length c) zIn = c) azChar of
             None \<Rightarrow> Some zIn
           | Some c \<Rightarrow> if c = [] then None else trim_right azChar (take (length zIn - length c) zIn))"
  by pat_completeness auto
termination by (relation "measure (\<lambda>(cs, z). length z)") auto

declare trim_left.simps [simp del] trim_right.simps [simp del]

datatype trim_result = Trim_null | Trim_error context_error | Trim_forever | Trimmed cstring

definition trim_with :: "nat \<Rightarrow> cstring list \<Rightarrow> cstring \<Rightarrow> trim_result" where
  "trim_with flags azChar zIn =
     (case (if flags AND 1 \<noteq> 0 then trim_left azChar zIn else Some zIn) of
        None \<Rightarrow> Trim_forever
      | Some z \<Rightarrow> (case (if flags AND 2 \<noteq> 0 then trim_right azChar z else Some z) of
          None \<Rightarrow> Trim_forever
        | Some z \<Rightarrow> Trimmed z))"

text \<open>\<open>flags\<close> is 1 for the left, 2 for the right and 3 for both sides. The address and the length byte
  of a character take nine bytes.\<close>

definition trimFunc ::
    "('f sql_value \<Rightarrow> cstring option) \<Rightarrow> nat \<Rightarrow> (nat \<Rightarrow> bool) \<Rightarrow> nat \<Rightarrow> 'f sql_value \<Rightarrow> 'f sql_value option
       \<Rightarrow> trim_result" where
  "trimFunc value_text limit malloc flags x charset =
     (if x = SQLITE_NULL then Trim_null
      else case value_text x of
        None \<Rightarrow> Trim_null
      | Some zIn \<Rightarrow>
          (case charset of
             None \<Rightarrow> trim_with flags [[32]] zIn
           | Some v \<Rightarrow> (case value_text v of
               None \<Rightarrow> Trim_null
             | Some zCharSet \<Rightarrow>
                 let azChar = char_chunks zCharSet
                 in if azChar = [] then Trimmed zIn
                    else (case contextMalloc limit malloc (length azChar * 9) of
                            Some e \<Rightarrow> Trim_error e
                          | None \<Rightarrow> trim_with flags azChar zIn))))"

section \<open>UTF-8 is a prefix code\<close>

abbreviation utf8 :: "nat list \<Rightarrow> cstring" where "utf8 cs \<equiv> concat (map WRITE_UTF8 cs)"

lemma lead_byte_length:
  "c \<le> 0x10FFFF \<Longrightarrow> length (WRITE_UTF8 c) =
    (if hd (WRITE_UTF8 c) < 192 then 1 else if hd (WRITE_UTF8 c) < 224 then 2
     else if hd (WRITE_UTF8 c) < 240 then 3 else 4)"
proof -
  assume c: "c \<le> 0x10FFFF"
  have "c < 128 \<Longrightarrow> c mod 256 < 192" "192 + x mod 32 < 224" "224 + x mod 16 < 240" for x :: nat
    using mod_less_divisor[of 32 x] mod_less_divisor[of 16 x] by auto
  then show ?thesis by (auto simp: WRITE_UTF8_def arith_form)
qed

lemma WRITE_prefix:
  assumes "scalar c" "scalar d" "WRITE_UTF8 c @ x = WRITE_UTF8 d @ y"
  shows "c = d \<and> x = y"
proof -
  have le: "c \<le> 0x10FFFF" "d \<le> 0x10FFFF" using assms(1,2) by (auto simp: scalar_def)
  have "hd (WRITE_UTF8 c) = hd (WRITE_UTF8 d)" using assms(3) by (metis WRITE_nonempty(1) hd_append2)
  then have "length (WRITE_UTF8 c) = length (WRITE_UTF8 d)" using lead_byte_length le by simp
  then have eq: "WRITE_UTF8 c = WRITE_UTF8 d" "x = y" using assms(3) by auto
  have "c = d" by (rule WRITE_UTF8_inj[OF assms(1,2) eq(1)])
  then show ?thesis using eq by simp
qed

lemma utf8_prefix:
  "list_all scalar ns \<Longrightarrow> list_all scalar hs \<Longrightarrow> (\<exists>r. utf8 hs = utf8 ns @ r) \<longleftrightarrow> (\<exists>t. hs = ns @ t)"
proof (induction ns arbitrary: hs)
  case (Cons n ns)
  show ?case
  proof (cases hs)
    case Nil
    then show ?thesis by simp
  next
    case (Cons h hs')
    have "(\<exists>r. utf8 hs = utf8 (n # ns) @ r) \<longleftrightarrow> h = n \<and> (\<exists>r. utf8 hs' = utf8 ns @ r)"
    proof
      assume "\<exists>r. utf8 hs = utf8 (n # ns) @ r"
      then obtain r where "WRITE_UTF8 h @ utf8 hs' = WRITE_UTF8 n @ (utf8 ns @ r)" by (auto simp: Cons)
      then show "h = n \<and> (\<exists>r. utf8 hs' = utf8 ns @ r)"
        using WRITE_prefix[of h n] Cons.prems by (auto simp: Cons)
    qed (auto simp: Cons)
    then show ?thesis using Cons.IH[of hs'] Cons.prems by (auto simp: Cons)
  qed
qed simp

lemma take_iff_prefix: "take (length n) h = n \<longleftrightarrow> (\<exists>t. h = n @ t)"
  by (metis append_eq_conv_conj append_take_drop_id)

lemma take_prefix_le: "take (length n) h = n \<Longrightarrow> length n \<le> length h"
  by (metis length_take min.cobounded1)

lemma tl_WRITE: "c \<le> 0x10FFFF \<Longrightarrow> starts_char z \<Longrightarrow> dropWhile is_cont (tl (WRITE_UTF8 c @ z)) = z"
proof -
  assume "c \<le> 0x10FFFF" and z: "starts_char z"
  have "is_cont (128 + x mod 64)" for x by (simp add: is_cont_iff)
  then show ?thesis using z by (auto simp: WRITE_UTF8_def arith_form dropWhile_starts)
qed

section \<open>Searching\<close>

primrec find_at :: "'a list \<Rightarrow> 'a list \<Rightarrow> nat option" where
  "find_at n [] = (if n = [] then Some 0 else None)"
| "find_at n (h # hs) =
     (if take (length n) (h # hs) = n then Some 0 else map_option Suc (find_at n hs))"

lemma find_at_Some: "find_at n h = Some k \<Longrightarrow> take (length n) (drop k h) = n \<and> (\<forall>j < k. take (length n) (drop j h) \<noteq> n)"
proof (induction h arbitrary: k)
  case (Cons x h)
  show ?case
  proof (cases "take (length n) (x # h) = n")
    case False
    then obtain m where m: "find_at n h = Some m" "k = Suc m" using Cons.prems by auto
    have "take (length n) (drop j (x # h)) \<noteq> n" if "j < k" for j
      using Cons.IH[OF m(1)] m(2) that False by (cases j) auto
    then show ?thesis using Cons.IH[OF m(1)] m(2) by auto
  qed (use Cons.prems in auto)
qed (auto split: if_splits)

lemma find_at_None: "find_at n h = None \<Longrightarrow> take (length n) (drop j h) \<noteq> n"
proof (induction h arbitrary: j)
  case (Cons x h)
  then show ?case by (cases j) (auto split: if_splits)
qed (auto split: if_splits)

lemma find_at_fits: "find_at n h = Some k \<Longrightarrow> k + length n \<le> length h"
proof (induction h arbitrary: k)
  case (Cons x h)
  then show ?case by (auto split: if_splits dest: take_prefix_le)
qed (auto split: if_splits)

definition instr_result :: "nat \<Rightarrow> nat option \<Rightarrow> nat" where
  "instr_result N r = (case r of None \<Rightarrow> 0 | Some k \<Rightarrow> N + k)"

lemma ch_take: "n \<noteq> [] \<Longrightarrow> take (length n) h = n \<Longrightarrow> ch h = ch n"
  by (cases n; cases h) auto

lemma instr_loop_step:
  assumes "n \<noteq> []" "h \<noteq> []"
  shows "instr_loop isText n h N =
    (if take (length n) h = n then N
     else if length n \<le> length h
     then instr_loop isText n (if isText then dropWhile is_cont (tl h) else tl h) (N + 1) else 0)"
proof (cases "take (length n) h = n")
  case True
  then show ?thesis
    using ch_take[OF assms(1) True] take_prefix_le[OF True] by (subst instr_loop.simps) simp
next
  case False
  then show ?thesis using assms by (subst instr_loop.simps) simp
qed

lemma instr_loop_bytes: "n \<noteq> [] \<Longrightarrow> instr_loop False n h N = instr_result N (find_at n h)"
proof (induction h arbitrary: N)
  case Nil
  then show ?case by (subst instr_loop.simps) (simp add: instr_result_def)
next
  case (Cons x h)
  have "find_at n h = None" if "\<not> length n \<le> length (x # h)"
    using that find_at_fits[of n h] by (cases "find_at n h") auto
  then show ?case
    using Cons unfolding instr_loop_step[OF Cons.prems list.distinct(2)]
    by (auto simp: instr_result_def split: option.splits)
qed

lemma utf8_drop_le: "length (utf8 (drop k hs)) \<le> length (utf8 hs)"
  by (metis append_take_drop_id concat_append le_add2 length_append map_append)

lemma find_at_text_fits: "find_at ns hs = Some k \<Longrightarrow> length (utf8 ns) \<le> length (utf8 hs)"
proof -
  assume "find_at ns hs = Some k"
  then have "take (length ns) (drop k hs) = ns" using find_at_Some by blast
  then obtain t where "drop k hs = ns @ t" unfolding take_iff_prefix by blast
  then have "length (utf8 ns) \<le> length (utf8 (drop k hs))" by simp
  then show ?thesis using utf8_drop_le[of k hs] by linarith
qed

lemma instr_loop_text:
  "ns \<noteq> [] \<Longrightarrow> list_all scalar ns \<Longrightarrow> list_all scalar hs \<Longrightarrow>
   instr_loop True (utf8 ns) (utf8 hs) N = instr_result N (find_at ns hs)"
proof (induction hs arbitrary: N)
  case Nil
  then have "utf8 ns \<noteq> []" by (cases ns) auto
  then show ?case using Nil by (subst instr_loop.simps) (auto simp: instr_result_def)
next
  case (Cons h hs)
  have ne: "utf8 ns \<noteq> []" "utf8 (h # hs) \<noteq> []" using Cons.prems by (cases ns; simp)+
  have match: "take (length (utf8 ns)) (utf8 (h # hs)) = utf8 ns \<longleftrightarrow> take (length ns) (h # hs) = ns"
    unfolding take_iff_prefix using utf8_prefix[OF Cons.prems(2,3)] .
  have next_char: "dropWhile is_cont (tl (utf8 (h # hs))) = utf8 hs"
  proof -
    have "list_all scalar hs" "scalar h" using Cons.prems by auto
    moreover have "h \<le> 0x10FFFF" using \<open>scalar h\<close> by (simp add: scalar_def)
    ultimately show ?thesis using tl_WRITE[of h "utf8 hs"] starts_text[of hs] by simp
  qed
  have IH: "instr_loop True (utf8 ns) (utf8 hs) (N + 1) = instr_result (N + 1) (find_at ns hs)"
    using Cons by simp
  have long: "find_at ns (h # hs) = None" if "\<not> length (utf8 ns) \<le> length (utf8 (h # hs))"
    using that find_at_text_fits[of ns "h # hs"] by (cases "find_at ns (h # hs)") auto
  show ?case
    unfolding instr_loop_step[OF ne] match next_char if_True IH
    using long by (auto simp: instr_result_def simp del: concat.simps list.map split: option.splits if_splits)
qed

section \<open>Ranges of characters\<close>

text \<open>The first position of \<open>substr(x, p1, p2)\<close> and the first behind it, counted from one.\<close>

definition window :: "int \<Rightarrow> int \<Rightarrow> int \<Rightarrow> int \<times> int" where
  "window n p1 p2 =
     (let start = (if p1 > 0 then p1 else if p1 < 0 then n + p1 + 1 else 0)
      in if p2 \<ge> 0 then (start, start + p2) else (start + p2, start))"

definition in_window :: "int \<Rightarrow> int \<Rightarrow> int \<Rightarrow> nat set" where
  "in_window n p1 p2 = {i. fst (window n p1 p2) \<le> int i + 1 \<and> int i + 1 < snd (window n p1 p2)}"

lemma substr_range_window:
  assumes "substr_range n p1 p2 = (a, l)"
  shows "0 \<le> a" "0 \<le> l" "int i < n \<Longrightarrow> i \<in> in_window n p1 p2 \<longleftrightarrow> nat a \<le> i \<and> i < nat a + nat l"
  using assms by (auto simp: substr_range_def in_window_def window_def Let_def split: if_splits)

lemma substr_range_len: "0 \<le> p1 \<Longrightarrow> substr_range n p1 p2 = substr_range 0 p1 p2"
  by (simp add: substr_range_def)

lemma nths_cong: "(\<And>i. i < length xs \<Longrightarrow> i \<in> I \<longleftrightarrow> i \<in> J) \<Longrightarrow> nths xs I = nths xs J"
proof -
  assume eq: "\<And>i. i < length xs \<Longrightarrow> i \<in> I \<longleftrightarrow> i \<in> J"
  have "filter (\<lambda>p. snd p \<in> I) (zip xs [0..<length xs]) = filter (\<lambda>p. snd p \<in> J) (zip xs [0..<length xs])"
    by (rule filter_cong) (auto simp: eq dest: set_zip_rightD)
  then show ?thesis by (simp add: nths_def)
qed

lemma nths_interval: "nths xs {i. a \<le> i \<and> i < a + l} = take l (drop a xs)"
proof -
  have "{i. a \<le> i \<and> i < a + l} = (+) a ` {..<l}"
  proof
    show "{i. a \<le> i \<and> i < a + l} \<subseteq> (+) a ` {..<l}"
    proof
      fix i
      assume "i \<in> {i. a \<le> i \<and> i < a + l}"
      then have "i = a + (i - a)" "i - a < l" by auto
      then show "i \<in> (+) a ` {..<l}" by blast
    qed
  qed auto
  then show ?thesis using nths_drop[of a xs "{..<l}"] by simp
qed

lemma window_take_drop:
  assumes "substr_range (int (length xs)) p1 p2 = (a, l)"
  shows "nths xs (in_window (int (length xs)) p1 p2) = take (nat l) (drop (nat a) xs)"
proof -
  have "nths xs (in_window (int (length xs)) p1 p2) = nths xs {i. nat a \<le> i \<and> i < nat a + nat l}"
    by (rule nths_cong) (use substr_range_window(3)[OF assms] in simp)
  then show ?thesis by (simp add: nths_interval)
qed

lemma substr_blob_window: "substr_blob z p1 p2 = nths z (in_window (int (length z)) p1 p2)"
proof -
  obtain a l where r: "substr_range (int (length z)) p1 p2 = (a, l)" by (rule prod.exhaust)
  note w = substr_range_window(1,2)[OF r]
  have "take (nat (int (length z) - a)) (drop (nat a) z) = take (nat l) (drop (nat a) z)" if "int (length z) < a + l"
    using that w by simp
  moreover have "drop (nat a) z = []" if "int (length z) - a < 0" using that w by simp
  ultimately show ?thesis
    unfolding window_take_drop[OF r] using w by (auto simp: substr_blob_def r Let_def)
qed

lemma skip_chars_text:
  "list_all scalar cs \<Longrightarrow> 0 \<notin> set cs \<Longrightarrow> 0 \<le> k \<Longrightarrow> skip_chars (utf8 cs) k = utf8 (drop (nat k) cs)"
proof (induction cs arbitrary: k)
  case Nil
  then show ?case by (subst skip_chars.simps) simp
next
  case (Cons c cs)
  show ?case
  proof (cases "k = 0")
    case True
    then show ?thesis by (subst skip_chars.simps) simp
  next
    case False
    have c: "list_all scalar cs" "scalar c" "c \<noteq> 0" using Cons.prems by auto
    then have "skip_utf8 (WRITE_UTF8 c @ utf8 cs) = utf8 cs"
      using skip_WRITE[of c "utf8 cs"] starts_text[of cs] by (auto simp: scalar_def)
    moreover have "skip_chars (utf8 cs) (k - 1) = utf8 (drop (nat (k - 1)) cs)"
      using Cons.prems False by (intro Cons.IH) auto
    moreover have "nat k = Suc (nat (k - 1))" using Cons.prems False by simp
    ultimately show ?thesis using ch_WRITE[OF c(3)] False by (subst skip_chars.simps) simp
  qed
qed

lemma utf8_take: "take (length (utf8 cs) - length (utf8 (drop k cs))) (utf8 cs) = utf8 (take k cs)"
proof -
  have "utf8 cs = utf8 (take k cs) @ utf8 (drop k cs)"
    by (metis append_take_drop_id concat_append map_append)
  then show ?thesis by (metis add_diff_cancel_right' append_eq_conv_conj length_append)
qed

lemma substr_text_window:
  assumes "list_all scalar cs" "0 \<notin> set cs"
  shows "substr_text (utf8 cs) p1 p2 = utf8 (nths cs (in_window (int (length cs)) p1 p2))"
proof -
  obtain a l where r: "substr_range (int (length cs)) p1 p2 = (a, l)" by (rule prod.exhaust)
  note w = substr_range_window(1,2)[OF r]
  have r': "substr_range (if p1 < 0 then int (char_len (utf8 cs) None) else 0) p1 p2 = (a, l)"
    using r char_len_text[OF assms] substr_range_len[of p1 "int (length cs)" p2] by auto
  have d: "list_all scalar (drop (nat a) cs)" "0 \<notin> set (drop (nat a) cs)"
    using assms by (auto simp: list_all_iff dest: in_set_dropD)
  show ?thesis
    unfolding window_take_drop[OF r] substr_text_def r' Let_def prod.case
      skip_chars_text[OF assms w(1)] skip_chars_text[OF d w(2)] utf8_take ..
qed

section \<open>Quoting\<close>

lemma quote_text_doubles: "quote_text z = double_quotes 39 z"
  by (induction z) (auto simp: double_quotes_def)

lemma length_quote_text: "length (quote_text z) = length z + length (filter (\<lambda>c. c = 39) z)"
  by (induction z) auto

lemma length_hex_digits: "length (hex_digits z) = 2 * length z"
  by (induction z) auto

section \<open>Replacing\<close>

fun replace_all :: "'a list \<Rightarrow> 'a list \<Rightarrow> 'a list \<Rightarrow> 'a list" where
  "replace_all pat rep [] = []"
| "replace_all pat rep (x # s) =
     (if pat \<noteq> [] \<and> take (length pat) (x # s) = pat
      then rep @ replace_all pat rep (drop (length pat - 1) s)
      else x # replace_all pat rep s)"

lemma replace_all_short: "length s < length pat \<Longrightarrow> replace_all pat rep s = s"
proof (induction s)
  case (Cons x s)
  then have "take (length pat) (x # s) \<noteq> pat" using take_prefix_le[of pat "x # s"] by auto
  then show ?case using Cons by auto
qed simp

lemma double_power_test: "q AND (q - 1) = 0 \<Longrightarrow> (2 * q) AND (2 * q - 1) = 0" for q :: nat
proof (cases q)
  case (Suc m)
  assume q: "q AND (q - 1) = 0"
  have "(2 * q) AND (2 * q - 1) = 2 * (q AND (q - 1))"
    using and_nat_rec[of "2 * q" "2 * q - 1"] Suc by simp
  then show ?thesis using q by simp
qed simp

text \<open>The buffer is grown at the substitutions \<open>q = 1, 2, 4, \<dots>\<close> and then is large enough for all of
  them up to twice \<open>q\<close>.\<close>

definition enough_space :: "nat \<Rightarrow> nat \<Rightarrow> nat \<Rightarrow> nat \<Rightarrow> bool" where
  "enough_space nStr delta cnt cap \<longleftrightarrow>
     (if cnt = 0 then cap = nStr + 1
      else \<exists>q. q AND (q - 1) = 0 \<and> 0 < q \<and> q \<le> cnt \<and> cnt < 2 * q \<and> cap = nStr + 1 + 2 * q * delta)"

lemma enough_space_ge: "enough_space nStr delta cnt cap \<Longrightarrow> nStr + 1 + cnt * delta \<le> cap"
proof (cases "cnt = 0")
  case False
  assume "enough_space nStr delta cnt cap"
  then obtain q where "cnt < 2 * q" "cap = nStr + 1 + 2 * q * delta"
    using False by (auto simp: enough_space_def)
  moreover from this have "cnt * delta \<le> 2 * q * delta" by (intro mult_right_mono) auto
  ultimately show ?thesis by simp
qed (simp add: enough_space_def)

lemma enough_space_step:
  assumes "enough_space nStr delta cnt cap"
  shows "enough_space nStr delta (cnt + 1)
    (if (cnt + 1) AND cnt = 0 then nStr + 1 + (cnt + 1) * delta + (cnt + 1) * delta else cap)"
proof (cases "(cnt + 1) AND cnt = 0")
  case True
  then show ?thesis by (auto simp: enough_space_def intro!: exI[of _ "Suc cnt"])
next
  case False
  moreover have "(0 + 1) AND (0 :: nat) = 0" by simp
  ultimately have "cnt \<noteq> 0" by metis
  then obtain q where q: "q AND (q - 1) = 0" "0 < q" "q \<le> cnt" "cnt < 2 * q" "cap = nStr + 1 + 2 * q * delta"
    using assms by (auto simp: enough_space_def)
  have "cnt + 1 \<noteq> 2 * q"
  proof
    assume "cnt + 1 = 2 * q"
    then have "(cnt + 1) AND cnt = (2 * q) AND (2 * q - 1)" by (metis add_diff_cancel_right')
    then show False using False double_power_test[OF q(1)] by simp
  qed
  then show ?thesis using False q by (auto simp: enough_space_def)
qed

definition replace_ideal :: "nat \<Rightarrow> cstring \<Rightarrow> replace_result" where
  "replace_ideal limit r = (if length r > limit then Toobig else Replaced r)"

lemma length_replace_grow:
  "length pat \<le> length rep \<Longrightarrow> length s \<le> length (replace_all pat rep s)"
proof (induction pat rep s rule: replace_all.induct)
  case (2 pat rep x s)
  show ?case
  proof (cases "pat \<noteq> [] \<and> take (length pat) (x # s) = pat")
    case True
    then have "length (drop (length pat - 1) s) \<le> length (replace_all pat rep (drop (length pat - 1) s))"
      using 2 by simp
    then show ?thesis using True 2(3) by (cases pat) auto
  next
    case False
    then show ?thesis using 2 by auto
  qed
qed simp

lemma length_replace_shrink:
  "length rep \<le> length pat \<Longrightarrow> length (replace_all pat rep s) \<le> length s"
proof (induction pat rep s rule: replace_all.induct)
  case (2 pat rep x s)
  show ?case
  proof (cases "pat \<noteq> [] \<and> take (length pat) (x # s) = pat")
    case True
    then have "length (replace_all pat rep (drop (length pat - 1) s)) \<le> length (drop (length pat - 1) s)"
      using 2 by simp
    moreover have "length pat \<le> Suc (length s)" using True take_prefix_le[of pat "x # s"] by simp
    ultimately show ?thesis using True 2(3) by (cases pat) auto
  next
    case False
    then show ?thesis using 2 by auto
  qed
qed simp

lemma replace_loop_step:
  assumes "pat \<noteq> []" "length pat \<le> length (x # s)"
  shows "replace_loop pat rep nStr limit realloc (x # s) out nOut cnt cap =
    (if take (length pat) (x # s) \<noteq> pat then
       if length out + 1 > cap then Overrun
       else replace_loop pat rep nStr limit realloc s (out @ [x]) nOut cnt cap
     else if length rep > length pat then
       let nOut = nOut + (length rep - length pat)
       in if nOut - 1 > limit then Toobig
          else
            let cnt = cnt + 1;
                grow = (cnt AND (cnt - 1) = 0);
                cap' = (if grow then nOut + (nOut - nStr - 1) else cap)
            in if grow \<and> \<not> realloc cap' then Nomem
               else if length out + length rep > cap' then Overrun
               else replace_loop pat rep nStr limit realloc (drop (length pat - 1) s)
                      (out @ rep) nOut cnt cap'
     else if length out + length rep > cap then Overrun
     else replace_loop pat rep nStr limit realloc (drop (length pat - 1) s) (out @ rep) nOut cnt cap)"
proof -
  have go: "x # s \<noteq> [] \<and> pat \<noteq> [] \<and> length pat \<le> length (x # s)" using assms by simp
  have match: "(ch (x # s) \<noteq> ch pat \<or> take (length pat) (x # s) \<noteq> pat) = (take (length pat) (x # s) \<noteq> pat)"
    using ch_take[OF assms(1), of "x # s"] by blast
  have drop: "drop (length pat) (x # s) = drop (length pat - 1) s" using assms by (cases pat) simp_all
  show ?thesis
    unfolding replace_loop.simps[of pat rep nStr limit realloc "x # s" out nOut cnt cap] match drop list.sel
    by (simp only: go if_True simp_thms)
qed

lemma replace_loop_end:
  "length s < length pat \<or> s = [] \<Longrightarrow>
   replace_loop pat rep nStr limit realloc s out nOut cnt cap =
     (if length out + length s + 1 > cap then Overrun else Replaced (out @ s))"
  by (subst replace_loop.simps) auto

lemma replace_loop_hit:
  fixes nStr cnt cap :: nat
  assumes "pat \<noteq> []" "take (length pat) (x # s) = pat" "length rep = length pat + d" "0 < d"
  defines "cap' \<equiv> (if Suc cnt AND cnt = 0 then nStr + 1 + (cnt + 1) * d + (cnt + 1) * d else cap)"
  shows "replace_loop pat rep nStr limit realloc (x # s) out (nStr + 1 + cnt * d) cnt cap =
    (if nStr + (cnt + 1) * d > limit then Toobig
     else if Suc cnt AND cnt = 0 \<and> \<not> realloc cap' then Nomem
     else if length out + length rep > cap' then Overrun
     else replace_loop pat rep nStr limit realloc (drop (length pat - 1) s) (out @ rep)
            (nStr + 1 + (cnt + 1) * d) (cnt + 1) cap')"
proof -
  have a: "length rep > length pat" "length rep - length pat = d" "(cnt + 1) - 1 = cnt" "cnt + 1 = Suc cnt"
    "nStr + 1 + cnt * d + d = nStr + 1 + Suc cnt * d" "nStr + 1 + Suc cnt * d - 1 = nStr + Suc cnt * d"
    "nStr + 1 + Suc cnt * d - nStr - 1 = Suc cnt * d"
    using assms by auto
  show ?thesis
    unfolding replace_loop_step[OF assms(1) take_prefix_le[OF assms(2)]] assms(2) cap'_def
    by (simp only: a Let_def simp_thms if_False if_True diff_Suc_1)
qed

lemma if_else_cases: "r = (if g \<and> \<not> P n then a else q) \<Longrightarrow> q = v \<or> q = a \<and> (\<exists>n. \<not> P n) \<Longrightarrow> r = v \<or> r = a \<and> (\<exists>n. \<not> P n)"
  by (cases "g \<and> \<not> P n") auto

lemma replace_loop_grow:
  assumes "pat \<noteq> []" "length rep = length pat + d" "0 < d"
  shows "length out + length s = nStr + cnt * d \<Longrightarrow> enough_space nStr d cnt cap \<Longrightarrow>
    length out + length s \<le> limit \<Longrightarrow>
    let r = replace_loop pat rep nStr limit realloc s out (nStr + 1 + cnt * d) cnt cap
    in r = replace_ideal limit (out @ replace_all pat rep s) \<or> r = Nomem \<and> (\<exists>n. \<not> realloc n)"
proof (induction "length s" arbitrary: s out cnt cap rule: less_induct)
  case less
  have cap: "nStr + 1 + cnt * d \<le> cap" using enough_space_ge[OF less.prems(2)] .
  show ?case
  proof (cases "length s < length pat \<or> s = []")
    case True
    then have "replace_all pat rep s = s" using replace_all_short[of s pat rep] by auto
    then show ?thesis
      using less.prems cap by (simp add: replace_loop_end[OF True] replace_ideal_def Let_def)
  next
    case False
    then obtain x s' where s: "s = x # s'" by (cases s) auto
    have long: "length pat \<le> length (x # s')" using False s by simp
    show ?thesis
    proof (cases "take (length pat) (x # s') = pat")
      case no: False
      have "length out + 1 \<le> cap" using cap less.prems(1) by (simp add: s)
      then have step: "replace_loop pat rep nStr limit realloc s out (nStr + 1 + cnt * d) cnt cap =
          replace_loop pat rep nStr limit realloc s' (out @ [x]) (nStr + 1 + cnt * d) cnt cap"
        using no unfolding s replace_loop_step[OF assms(1) long] by simp
      have "replace_all pat rep s = x # replace_all pat rep s'" using no by (simp add: s)
      then show ?thesis using less.hyps[of s' "out @ [x]" cnt cap] less.prems unfolding step by (simp add: s)
    next
      case True
      let ?s = "drop (length pat - 1) s'"
      let ?cap = "if Suc cnt AND cnt = 0 then nStr + 1 + (cnt + 1) * d + (cnt + 1) * d else cap"
      note step = replace_loop_hit[OF assms(1) True assms(2,3), of nStr limit realloc out cnt cap]
      have sp: "enough_space nStr d (cnt + 1) ?cap" using enough_space_step[OF less.prems(2)] by simp
      have len: "length (out @ rep) + length ?s = nStr + (cnt + 1) * d"
        using less.prems(1) long assms by (cases pat) (auto simp: s)
      have ge: "length ?s \<le> length (replace_all pat rep ?s)"
        using length_replace_grow[of pat rep ?s] assms(2) by simp
      have all: "replace_all pat rep s = rep @ replace_all pat rep ?s" using True assms(1) by (simp add: s)
      show ?thesis
      proof (cases "nStr + (cnt + 1) * d > limit")
        case big: True
        then have "length (out @ replace_all pat rep s) > limit" using len ge by (simp add: all)
        then show ?thesis unfolding s step using big by (simp add: s replace_ideal_def Let_def)
      next
        case small: False
        have "length out + length rep \<le> nStr + 1 + (cnt + 1) * d" using len by simp
        then have fits: "\<not> ?cap < length out + length rep" using enough_space_ge[OF sp] by linarith
        have IH: "let r = replace_loop pat rep nStr limit realloc ?s (out @ rep) (nStr + 1 + (cnt + 1) * d) (cnt + 1) ?cap
          in r = replace_ideal limit ((out @ rep) @ replace_all pat rep ?s) \<or> r = Nomem \<and> (\<exists>n. \<not> realloc n)"
          by (rule less.hyps[OF _ len sp]) (use len small long s in auto)
        have "replace_loop pat rep nStr limit realloc s out (nStr + 1 + cnt * d) cnt cap =
          (if Suc cnt AND cnt = 0 \<and> \<not> realloc ?cap then Nomem
           else replace_loop pat rep nStr limit realloc ?s (out @ rep) (nStr + 1 + (cnt + 1) * d) (cnt + 1) ?cap)"
          unfolding s step if_not_P[OF small] if_not_P[OF fits] ..
        from if_else_cases[OF this IH[unfolded Let_def]] show ?thesis
          unfolding all append_assoc Let_def .
      qed
    qed
  qed
qed

lemma replace_loop_shrink:
  assumes "pat \<noteq> []" "length rep \<le> length pat"
  shows "length out + length s + 1 \<le> cap \<Longrightarrow>
    replace_loop pat rep nStr limit realloc s out nOut cnt cap = Replaced (out @ replace_all pat rep s)"
proof (induction "length s" arbitrary: s out rule: less_induct)
  case less
  show ?case
  proof (cases "length s < length pat \<or> s = []")
    case True
    then have "replace_all pat rep s = s" using replace_all_short[of s pat rep] by auto
    then show ?thesis using less.prems by (simp add: replace_loop_end[OF True])
  next
    case False
    then obtain x s' where s: "s = x # s'" by (cases s) auto
    have long: "length pat \<le> length (x # s')" using False s by simp
    let ?s = "drop (length pat - 1) s'"
    have IH1: "replace_loop pat rep nStr limit realloc s' (out @ [x]) nOut cnt cap
        = Replaced ((out @ [x]) @ replace_all pat rep s')"
      by (rule less.hyps) (use less.prems s in auto)
    have "length (out @ rep) + length ?s + 1 \<le> cap"
      using less.prems long assms by (cases pat) (auto simp: s)
    then have IH2: "replace_loop pat rep nStr limit realloc ?s (out @ rep) nOut cnt cap
        = Replaced ((out @ rep) @ replace_all pat rep ?s)"
      by (intro less.hyps) (use s in auto)
    have "length out + 1 \<le> cap" "length out + length rep \<le> cap"
      using less.prems long assms(2) by (auto simp: s)
    then show ?thesis
      unfolding s replace_loop_step[OF assms(1) long] IH1 IH2 using assms by auto
  qed
qed

section \<open>Trimming\<close>

lemma WRITE_shape:
  assumes "c \<le> 0x10FFFF"
  obtains l t where "WRITE_UTF8 c = l # t" "\<not> is_cont l" "\<forall>b \<in> set t. is_cont b" "length t < 4"
proof (cases "WRITE_UTF8 c")
  case (Cons l t)
  have "is_cont (128 + x mod 64)" for x by (simp add: is_cont_iff)
  then have "\<forall>b \<in> set (tl (WRITE_UTF8 c)). is_cont b" "length (WRITE_UTF8 c) \<le> 4"
    using assms by (auto simp: WRITE_UTF8_def arith_form)
  moreover have "\<not> is_cont l" using starts_WRITE[OF assms, of "[]"] Cons by (simp add: starts_char_def)
  ultimately show ?thesis using that Cons by simp
qed simp

lemma split_unique:
  "\<forall>b \<in> set a. P b \<Longrightarrow> \<not> P l \<Longrightarrow> \<forall>b \<in> set a'. P b \<Longrightarrow> \<not> P m \<Longrightarrow> a @ l # x = a' @ m # y \<Longrightarrow>
   a = a' \<and> l = m \<and> x = y"
proof (induction a arbitrary: a')
  case Nil
  then show ?case by (cases a') auto
next
  case (Cons b a)
  then show ?case by (cases a') auto
qed

lemma WRITE_suffix:
  assumes "scalar c" "scalar d" "x @ WRITE_UTF8 c = y @ WRITE_UTF8 d"
  shows "c = d \<and> x = y"
proof -
  have le: "c \<le> 0x10FFFF" "d \<le> 0x10FFFF" using assms(1,2) by (auto simp: scalar_def)
  obtain l t where c: "WRITE_UTF8 c = l # t" "\<not> is_cont l" "\<forall>b \<in> set t. is_cont b" by (rule WRITE_shape[OF le(1)])
  obtain m s where d: "WRITE_UTF8 d = m # s" "\<not> is_cont m" "\<forall>b \<in> set s. is_cont b" by (rule WRITE_shape[OF le(2)])
  have "rev t @ l # rev x = rev s @ m # rev y" using arg_cong[OF assms(3), of rev] c(1) d(1) by simp
  then have "rev t = rev s \<and> l = m \<and> rev x = rev y" using c(2,3) d(2,3) by (intro split_unique[of _ is_cont]) auto
  then have "WRITE_UTF8 c @ [] = WRITE_UTF8 d @ []" "x = y" using c(1) d(1) by simp_all
  then show ?thesis using WRITE_prefix[OF assms(1,2)] by blast
qed

lemma char_chunks_text:
  "list_all scalar cs \<Longrightarrow> 0 \<notin> set cs \<Longrightarrow> char_chunks (utf8 cs) = map WRITE_UTF8 cs"
proof (induction cs)
  case Nil
  then show ?case by (subst char_chunks.simps) simp
next
  case (Cons c cs)
  have c: "c \<le> 0x10FFFF" "c \<noteq> 0" using Cons.prems by (auto simp: scalar_def)
  then have skip: "skip_utf8 (WRITE_UTF8 c @ utf8 cs) = utf8 cs"
    using skip_WRITE[of c "utf8 cs"] starts_text[of cs] Cons.prems by simp
  have "length (WRITE_UTF8 c) \<le> 4" using WRITE_shape[OF c(1)] by (metis Suc_leI length_Cons)
  then have "char_chunks (WRITE_UTF8 c @ utf8 cs) = WRITE_UTF8 c # char_chunks (utf8 cs)"
    using ch_WRITE[OF c(2), of "utf8 cs"] by (subst char_chunks.simps) (simp add: skip)
  then show ?case using Cons by simp
qed

lemma find_encoded:
  "(\<And>k. k \<in> set ks \<Longrightarrow> P (WRITE_UTF8 k) \<longleftrightarrow> k = c) \<Longrightarrow>
   find P (map WRITE_UTF8 ks) = (if c \<in> set ks then Some (WRITE_UTF8 c) else None)"
  by (induction ks) auto

lemma trim_left_text:
  "list_all scalar ks \<Longrightarrow> list_all scalar cs \<Longrightarrow>
   trim_left (map WRITE_UTF8 ks) (utf8 cs) = Some (utf8 (dropWhile (\<lambda>c. c \<in> set ks) cs))"
proof (induction cs)
  case Nil
  then show ?case by (subst trim_left.simps) simp
next
  case (Cons c cs)
  let ?z = "WRITE_UTF8 c @ utf8 cs"
  have eq: "(length (WRITE_UTF8 k) \<le> length ?z \<and> take (length (WRITE_UTF8 k)) ?z = WRITE_UTF8 k) \<longleftrightarrow> k = c"
    if "k \<in> set ks" for k
  proof -
    have "scalar k" "scalar c" using that Cons.prems by (auto simp: list_all_iff)
    then show ?thesis using WRITE_prefix[of c k "utf8 cs"] unfolding take_iff_prefix by auto
  qed
  note find = find_encoded[of ks "\<lambda>e. length e \<le> length ?z \<and> take (length e) ?z = e" c, OF eq]
  have "trim_left (map WRITE_UTF8 ks) ?z =
      (if c \<in> set ks then trim_left (map WRITE_UTF8 ks) (utf8 cs) else Some ?z)"
    by (subst trim_left.simps, subst find) simp_all
  then show ?case using Cons by simp
qed

lemma trim_right_text:
  "list_all scalar ks \<Longrightarrow> list_all scalar cs \<Longrightarrow>
   trim_right (map WRITE_UTF8 ks) (utf8 cs) = Some (utf8 (rev (dropWhile (\<lambda>c. c \<in> set ks) (rev cs))))"
proof (induction cs rule: rev_induct)
  case Nil
  then show ?case by (subst trim_right.simps) simp
next
  case (snoc c cs)
  let ?z = "utf8 cs @ WRITE_UTF8 c"
  have eq: "(length (WRITE_UTF8 k) \<le> length ?z \<and> drop (length ?z - length (WRITE_UTF8 k)) ?z = WRITE_UTF8 k)
      \<longleftrightarrow> k = c" if "k \<in> set ks" for k
  proof
    assume "length (WRITE_UTF8 k) \<le> length ?z \<and> drop (length ?z - length (WRITE_UTF8 k)) ?z = WRITE_UTF8 k"
    then obtain y where "?z = y @ WRITE_UTF8 k" by (metis append_take_drop_id)
    moreover have "scalar k" "scalar c" using that snoc.prems by (auto simp: list_all_iff)
    ultimately show "k = c" using WRITE_suffix by blast
  qed simp
  note find = find_encoded[of ks "\<lambda>e. length e \<le> length ?z \<and> drop (length ?z - length e) ?z = e" c, OF eq]
  have "trim_right (map WRITE_UTF8 ks) ?z =
      (if c \<in> set ks then trim_right (map WRITE_UTF8 ks) (utf8 cs) else Some ?z)"
    by (subst trim_right.simps, subst find) simp_all
  then show ?case using snoc by simp
qed

section \<open>Properties\<close>

text \<open>C26. Positions count characters: on texts of Unicode characters \<open>instr\<close> gives the character position of the
  first occurrence of the second text (1 for an empty one, 0 when there is none) and \<open>substr\<close> the characters
  between the given positions, for every sign of both arguments; on blobs both do so with bytes.\<close>

theorem instr_and_substr_by_character:
  assumes "list_all scalar hs" "list_all scalar ns" "0 \<notin> set hs" "\<And>z. value_text (SQLITE_TEXT z) = Some z"
  shows "instrFunc value_text (SQLITE_TEXT (utf8 hs)) (SQLITE_TEXT (utf8 ns)) = Some (instr_result 1 (find_at ns hs))
    \<and> instrFunc value_text (SQLITE_BLOB b) (SQLITE_BLOB n) = Some (instr_result 1 (find_at n b))
    \<and> (y \<noteq> SQLITE_NULL \<longrightarrow> w \<noteq> Some SQLITE_NULL \<longrightarrow>
        (let p1 = value_int y; p2 = (case w of Some v \<Rightarrow> value_int v | None \<Rightarrow> limit)
         in substrFunc value_text value_int limit (SQLITE_TEXT (utf8 hs)) y w
              = SQLITE_TEXT (utf8 (nths hs (in_window (int (length hs)) p1 p2)))
          \<and> (b \<noteq> [] \<longrightarrow> substrFunc value_text value_int limit (SQLITE_BLOB b) y w
              = SQLITE_BLOB (nths b (in_window (int (length b)) p1 p2)))))"
proof -
  have nil: "find_at [] h = Some 0" for h :: "nat list" by (cases h) auto
  have "instrFunc value_text (SQLITE_TEXT (utf8 hs)) (SQLITE_TEXT (utf8 ns)) = Some (instr_result 1 (find_at ns hs))"
  proof (cases ns)
    case Nil
    then show ?thesis by (simp add: instrFunc_def value_bytes_def assms(4) instr_result_def nil)
  next
    case (Cons m ms)
    then have "ns \<noteq> []" "utf8 ns \<noteq> []" by simp_all
    then show ?thesis
      using instr_loop_text[OF _ assms(2,1), of 1]
      by (simp add: instrFunc_def value_bytes_def assms(4) instr_bytes_def del: concat_eq_Nil_conv)
  qed
  moreover have "instrFunc value_text (SQLITE_BLOB b) (SQLITE_BLOB n) = Some (instr_result 1 (find_at n b))"
    using instr_loop_bytes[of n b 1]
    by (cases "n = []") (simp_all add: instrFunc_def value_bytes_def instr_bytes_def instr_result_def nil)
  ultimately show ?thesis
    by (auto simp: substrFunc_def Let_def assms(4) substr_text_window[OF assms(1,3)] substr_blob_window)
qed

theorem instr_and_substr_by_character_witness:
  "instrFunc (\<lambda>v. case v of SQLITE_TEXT z \<Rightarrow> Some z | _ \<Rightarrow> None)
      (SQLITE_TEXT [195, 169, 97] :: nat sql_value) (SQLITE_TEXT [97]) = Some 2"
proof -
  have "utf8 [0xE9, 0x61] = [195, 169, 97]" "utf8 [0x61] = [97]" by code_simp+
  then show ?thesis
    using instr_and_substr_by_character[of "[0xE9, 0x61]" "[0x61]"
      "\<lambda>v :: nat sql_value. case v of SQLITE_TEXT z \<Rightarrow> Some z | _ \<Rightarrow> None"]
    by (simp add: scalar_def instr_result_def)
qed

text \<open>C27. \<open>replace\<close> never writes behind its buffer, although it enlarges the buffer only at the substitutions
  1, 2, 4, 8 and so on: it gives the text in which every occurrence, from the left, is replaced, or the
  error for texts over the limit, exactly when that text is too long or the first buffer, one byte
  longer than the argument, is: an argument of exactly the longest length is refused whatever its
  replacement. The memory error occurs only when an allocation failed, and never for such an argument.
  An empty pattern leaves the value as it is.\<close>

theorem replace_correct:
  assumes "\<And>z. value_text (SQLITE_TEXT z) = Some z" "length s \<le> limit"
  shows "if ch p = 0
     then replaceFunc value_text malloc realloc limit (SQLITE_TEXT s) (SQLITE_TEXT p) (SQLITE_TEXT r)
            = Inl (SQLITE_TEXT s)
     else replaceFunc value_text malloc realloc limit (SQLITE_TEXT s) (SQLITE_TEXT p) (SQLITE_TEXT r)
            = Inr (if length s = limit \<or> length (replace_all p r s) > limit then Toobig
                   else Replaced (replace_all p r s))
        \<or> replaceFunc value_text malloc realloc limit (SQLITE_TEXT s) (SQLITE_TEXT p) (SQLITE_TEXT r)
            = Inr Nomem \<and> length s < limit \<and> (\<not> malloc (length s + 1) \<or> (\<exists>n. \<not> realloc n))"
proof (cases "ch p = 0 \<or> length s = limit \<or> \<not> malloc (length s + 1)")
  case True
  then show ?thesis using assms(2) by (auto simp: replaceFunc_def assms(1) Let_def contextMalloc_def)
next
  case False
  then have p: "p \<noteq> []" by (auto simp: ch_def)
  let ?r = "replace_loop p r (length s) limit realloc s [] (length s + 1) 0 (length s + 1)"
  have "?r = replace_ideal limit (replace_all p r s) \<or> ?r = Nomem \<and> (\<exists>n. \<not> realloc n)"
  proof (cases "length r \<le> length p")
    case True
    then have "length (replace_all p r s) \<le> limit" using length_replace_shrink[OF True, of s] assms(2) by simp
    then show ?thesis using replace_loop_shrink[OF p True, of "[]" s] by (simp add: replace_ideal_def)
  next
    case grow: False
    then have "length r = length p + (length r - length p)" "0 < length r - length p" by simp_all
    note g = replace_loop_grow[OF p this, of "[]" s "length s" 0 "length s + 1" limit realloc]
    show ?thesis using g assms(2) by (simp add: enough_space_def Let_def)
  qed
  then show ?thesis
    using False assms(2) by (auto simp: replaceFunc_def assms(1) Let_def replace_ideal_def contextMalloc_def)
qed

theorem replace_correct_witness:
  "replaceFunc (\<lambda>v. case v of SQLITE_TEXT z \<Rightarrow> Some z | _ \<Rightarrow> None) (\<lambda>_. True) (\<lambda>_. True) 9
     (SQLITE_TEXT [97, 98, 97] :: nat sql_value) (SQLITE_TEXT [97]) (SQLITE_TEXT [99, 100])
   = Inr (Replaced [99, 100, 98, 99, 100])"
  using replace_correct[of "\<lambda>v :: nat sql_value. case v of SQLITE_TEXT z \<Rightarrow> Some z | _ \<Rightarrow> None" "[97, 98, 97]" 9 "[97]"
    "\<lambda>_. True" "\<lambda>_. True" "[99, 100]"]
  by (simp add: ch_def)

text \<open>C28. Literals: what \<open>quote\<close> writes for a text without zero bytes is read back by \<open>sqlite3Dequote\<close> as the same
  text, what it writes for a blob is \<open>X'\<close>, the digits \<open>sqlite3HexToBlob\<close> reads back as the same bytes, and a
  quote; both fit the allocated buffer with their final zero, and there is an error exactly when
  \<open>contextMalloc\<close> gives no buffer of that size, which it then is.\<close>

theorem quote_literal_roundtrip:
  assumes "\<And>z. value_text (SQLITE_TEXT z) = Some z" "0 \<notin> set z" "\<forall>c \<in> set b. c < 256"
  shows "(case quoteFunc value_text limit malloc float_text (SQLITE_TEXT z) of
        Inr (SQLITE_TEXT q) \<Rightarrow> sqlite3Dequote q = Some z
          \<and> length q + 1 = length z + length (filter (\<lambda>c. c = 39) z) + 3
          \<and> contextMalloc limit malloc (length z + length (filter (\<lambda>c. c = 39) z) + 3) = None
      | Inl e \<Rightarrow> contextMalloc limit malloc (length z + length (filter (\<lambda>c. c = 39) z) + 3) = Some e
      | _ \<Rightarrow> False)
    \<and> (case quoteFunc value_text limit malloc float_text (SQLITE_BLOB b) of
        Inr (SQLITE_TEXT q) \<Rightarrow> take 2 q = [88, 39] \<and> length q + 1 = 2 * length b + 4 \<and> last q = 39
          \<and> sqlite3HexToBlob False (drop 2 q) (length q - 2) = Some b
          \<and> contextMalloc limit malloc (2 * length b + 4) = None
      | Inl e \<Rightarrow> contextMalloc limit malloc (2 * length b + 4) = Some e
      | _ \<Rightarrow> False)"
proof -
  have quote: "sqlite3Isquote 39" by code_simp
  have whole: "takeWhile ((<) 0) z = z" using assms(2) by (induction z) auto
  have "dequote_loop 39 (quote_text z @ [39]) = Some z"
    using dequote_double[of "[]" 39 z] by (simp add: quote_text_doubles ch_def)
  then have "sqlite3Dequote (39 # quote_text z @ [39]) = Some z" using quote by (simp add: sqlite3Dequote_def)
  moreover have "hex_loop (hex_digits b @ [39]) (2 * length b) = b" by (rule hex_loop_digits[OF assms(3)])
  ultimately show ?thesis
    by (simp add: quoteFunc_def assms(1) whole Let_def length_quote_text sqlite3HexToBlob_def length_hex_digits
        split: option.split)
qed

theorem quote_literal_roundtrip_witness:
  "case quoteFunc (\<lambda>v. case v of SQLITE_TEXT z \<Rightarrow> Some z | _ \<Rightarrow> None) 9 (\<lambda>_. True) (\<lambda>_. []) (SQLITE_TEXT [105, 39] :: nat sql_value) of
     Inr (SQLITE_TEXT q) \<Rightarrow> sqlite3Dequote q = Some [105, 39] | _ \<Rightarrow> False"
  using quote_literal_roundtrip[of "\<lambda>v :: nat sql_value. case v of SQLITE_TEXT z \<Rightarrow> Some z | _ \<Rightarrow> None" "[105, 39]" "[]"
    9 "\<lambda>_. True" "\<lambda>_. []"]
  by (auto simp: contextMalloc_def split: sum.splits sql_value.splits)

text \<open>C29. The trims: on texts of Unicode characters they remove the longest run of characters of the set (the
  space, without a second argument) at the left for flag 1, at the right for flag 2, at both sides for
  flag 3, whole characters only; there is an error exactly when \<open>contextMalloc\<close> gives no memory for
  the characters of the set, and it is its error. The length of a character is kept in a byte: a set that is one lead byte with 255 continuation bytes, which is not well-formed
  text, makes the loop go on for ever for every nonempty text.\<close>

theorem trim_correct:
  assumes "\<And>z. value_text (SQLITE_TEXT z) = Some z" "list_all scalar cs" "flags \<in> {1, 2, 3}"
    "list_all scalar ks" "0 \<notin> set ks"
  shows "(let left = (\<lambda>S. if flags \<noteq> 2 then dropWhile (\<lambda>c. c \<in> S) else id);
             right = (\<lambda>S. if flags \<noteq> 1 then rev \<circ> dropWhile (\<lambda>c. c \<in> S) \<circ> rev else id)
         in trimFunc value_text limit malloc flags (SQLITE_TEXT (utf8 cs)) None
              = Trimmed (utf8 (right {32} (left {32} cs)))
          \<and> trimFunc value_text limit malloc flags (SQLITE_TEXT (utf8 cs)) (Some (SQLITE_TEXT (utf8 ks)))
              = (case (if ks = [] then None else contextMalloc limit malloc (length ks * 9)) of
                   Some e \<Rightarrow> Trim_error e
                 | None \<Rightarrow> Trimmed (utf8 (right (set ks) (left (set ks) cs)))))
    \<and> (zIn \<noteq> [] \<longrightarrow> contextMalloc limit malloc 9 = None \<longrightarrow>
        trimFunc value_text limit malloc flags (SQLITE_TEXT zIn) (Some (SQLITE_TEXT (0xC3 # replicate 255 0x80)))
          = Trim_forever)"
proof -
  let ?L = "\<lambda>S. if flags \<noteq> 2 then dropWhile (\<lambda>c. c \<in> S) else id"
  let ?R = "\<lambda>S. if flags \<noteq> 1 then rev \<circ> dropWhile (\<lambda>c. c \<in> S) \<circ> rev else id"
  have flagged: "trim_with flags (map WRITE_UTF8 xs) (utf8 cs) = Trimmed (utf8 (?R (set xs) (?L (set xs) cs)))"
    if "list_all scalar xs" for xs
  proof -
    have flags: "flags AND 1 \<noteq> 0 \<longleftrightarrow> flags \<noteq> 2" "flags AND 2 \<noteq> 0 \<longleftrightarrow> flags \<noteq> 1" using assms(3) by auto
    have "list_all scalar (?L (set xs) cs)" using assms(2) by (auto simp: list_all_iff dest: set_dropWhileD)
    then show ?thesis
      unfolding trim_with_def flags
      using trim_left_text[OF that assms(2)] trim_right_text[OF that, of "?L (set xs) cs"] by auto
  qed
  have space: "[[32]] = map WRITE_UTF8 [32]" by code_simp
  have "scalar 32" by (simp add: scalar_def)
  then have "trim_with flags [[32]] (utf8 cs) = Trimmed (utf8 (?R {32} (?L {32} cs)))"
    unfolding space using flagged[of "[32]"] by simp
  moreover have "trim_with flags (map WRITE_UTF8 ks) (utf8 cs) = Trimmed (utf8 (?R (set ks) (?L (set ks) cs)))"
    by (rule flagged[OF assms(4)])
  moreover have "utf8 (?R {} (?L {} cs)) = utf8 cs" by simp
  moreover have "char_chunks (0xC3 # replicate 255 0x80) = [[]]"
  proof -
    have "is_cont 0x80" by (simp add: is_cont_iff)
    then have "dropWhile is_cont (replicate n 0x80) = []" for n by (induction n) auto
    then have skip: "skip_utf8 (0xC3 # replicate 255 0x80) = []" by (simp add: skip_utf8_def)
    have "char_chunks [] = []" by (subst char_chunks.simps) simp
    then show ?thesis by (subst char_chunks.simps) (simp add: skip ch_def del: replicate.simps)
  qed
  moreover have "trim_with flags [[]] zIn = Trim_forever" if "zIn \<noteq> []"
  proof -
    have "trim_left [[]] zIn = None" "trim_right [[]] zIn = None"
      using that by (subst trim_left.simps trim_right.simps, simp)+
    then show ?thesis using assms(3) by (auto simp: trim_with_def)
  qed
  ultimately show ?thesis
    using char_chunks_text[OF assms(4,5)]
    by (cases "contextMalloc limit malloc (length ks * 9)") (simp_all add: trimFunc_def assms(1) Let_def)
qed

theorem trim_correct_witness:
  "trimFunc (\<lambda>v. case v of SQLITE_TEXT z \<Rightarrow> Some z | _ \<Rightarrow> None) 30 (\<lambda>_. True) 3
     (SQLITE_TEXT [195, 169, 97, 195, 169] :: nat sql_value) (Some (SQLITE_TEXT [195, 169])) = Trimmed [97]"
proof -
  have "utf8 [0xE9, 0x61, 0xE9] = [195, 169, 97, 195, 169]" "utf8 [0xE9] = [195, 169]" "utf8 [0x61] = [97]" by code_simp+
  then show ?thesis
    using trim_correct[of "\<lambda>v :: nat sql_value. case v of SQLITE_TEXT z \<Rightarrow> Some z | _ \<Rightarrow> None" "[0xE9, 0x61, 0xE9]" 3 "[0xE9]"
      30 "\<lambda>_. True" "[]"]
    by (simp add: scalar_def Let_def contextMalloc_def)
qed

end
