(* ===== verification/Sqlite_Hash.thy ===== *)
theory Sqlite_Hash
  imports Sqlite_Chars Interfaces
begin

text \<open>
  The hash tables of SQLite (\<open>src/hash.c\<close>, \<open>src/hash.h\<close>): maps from names, compared without regard to
  case, to pointers.

  All elements are on one doubly linked list, here the list \<open>first\<close> in the order of the \<open>next\<close> pointers;
  an element is identified by its address. A bucket is a pointer to its first element in that list
  and the number of its elements. \<open>ht = []\<close> stands for the null pointer. Data is never null in an
  element; the keys are not copied, so that their text must not change while they are in the table.

  The memory allocator is a parameter: \<open>malloc n\<close> is the usable size of the block it gives for \<open>n\<close> bytes
  and \<open>new_elem\<close> the address of a new element, \<open>None\<close> when there is no memory.
\<close>

record 'v HashElem =
  addr :: nat
  pKey :: cstring
  data :: 'v

record ht_entry =
  ht_count :: nat
  chain :: "nat option"

record 'v Hash =
  htsize :: nat
  hcount :: nat
  first :: "'v HashElem list"
  ht :: "ht_entry list"

definition sqlite3HashInit :: "'v Hash" where
  "sqlite3HashInit = \<lparr>htsize = 0, hcount = 0, first = [], ht = []\<rparr>"

definition sqlite3HashClear :: "'v Hash \<Rightarrow> 'v Hash" where
  "sqlite3HashClear pH = pH\<lparr>first := [], ht := [], htsize := 0, hcount := 0\<rparr>"

fun hash_loop :: "nat \<Rightarrow> cstring \<Rightarrow> nat" where
  "hash_loop h [] = h"
| "hash_loop h (c # z) =
     (if c = 0 then h else hash_loop ((h + sqlite3UpperToLower c) mod 2 ^ 32 * 0x9e3779b1 mod 2 ^ 32) z)"

definition strHash :: "cstring \<Rightarrow> nat" where
  "strHash z = hash_loop 0 z"

definition link_before :: "nat \<Rightarrow> 'v HashElem \<Rightarrow> 'v HashElem list \<Rightarrow> 'v HashElem list" where
  "link_before pHead pNew es =
     takeWhile (\<lambda>e. addr e \<noteq> pHead) es @ pNew # dropWhile (\<lambda>e. addr e \<noteq> pHead) es"

definition insertElement :: "'v Hash \<Rightarrow> nat option \<Rightarrow> 'v HashElem \<Rightarrow> 'v Hash" where
  "insertElement pH pEntry pNew =
     (case pEntry of
        None \<Rightarrow> pH\<lparr>first := pNew # first pH\<rparr>
      | Some i \<Rightarrow>
          (let entry = ht pH ! i;
               pHead = (if ht_count entry \<noteq> 0 then chain entry else None);
               pH = pH\<lparr>ht := (ht pH)[i := \<lparr>ht_count = ht_count entry + 1, chain = Some (addr pNew)\<rparr>]\<rparr>
           in case pHead of
                Some a \<Rightarrow> pH\<lparr>first := link_before a pNew (first pH)\<rparr>
              | None \<Rightarrow> pH\<lparr>first := pNew # first pH\<rparr>))"

text \<open>An entry of the table takes 16 bytes. \<open>soft_limit\<close> is the compile option \<open>SQLITE_MALLOC_SOFT_LIMIT\<close>: 1024 by
  default, 0 in the build of the application, which switches the limit off.\<close>

definition rehash :: "nat \<Rightarrow> (nat \<Rightarrow> nat option) \<Rightarrow> 'v Hash \<Rightarrow> nat \<Rightarrow> 'v Hash option" where
  "rehash soft_limit malloc pH new_size =
     (let new_size = (if soft_limit > 0 \<and> new_size * 16 > soft_limit then soft_limit div 16 else new_size)
      in if soft_limit > 0 \<and> new_size = htsize pH then None
         else case malloc (new_size * 16) of
             None \<Rightarrow> None
           | Some usable \<Rightarrow>
               let new_size = usable div 16
               in Some (fold (\<lambda>e p. insertElement p (Some (strHash (pKey e) mod new_size)) e) (first pH)
                    (pH\<lparr>ht := replicate new_size \<lparr>ht_count = 0, chain = None\<rparr>, htsize := new_size, first := []\<rparr>)))"

definition findElementWithHash :: "'v Hash \<Rightarrow> cstring \<Rightarrow> 'v HashElem option \<times> nat" where
  "findElementWithHash pH key =
     (let (elems, n, h) =
        (if ht pH \<noteq> [] then
           let h = strHash key mod htsize pH;
               entry = ht pH ! h
           in ((case chain entry of None \<Rightarrow> [] | Some a \<Rightarrow> dropWhile (\<lambda>e. addr e \<noteq> a) (first pH)), ht_count entry, h)
         else (first pH, hcount pH, 0))
      in (find (\<lambda>e. sqlite3StrICmp (pKey e) key = 0) (take n elems), h))"

definition removeElementGivenHash :: "'v Hash \<Rightarrow> 'v HashElem \<Rightarrow> nat \<Rightarrow> 'v Hash" where
  "removeElementGivenHash pH elem h =
     (let before = takeWhile (\<lambda>e. addr e \<noteq> addr elem) (first pH);
          behind = tl (dropWhile (\<lambda>e. addr e \<noteq> addr elem) (first pH));
          elem_next = (case behind of [] \<Rightarrow> None | e # _ \<Rightarrow> Some (addr e));
          entry = ht pH ! h;
          hts = (if ht pH \<noteq> [] then
                   (ht pH)[h := \<lparr>ht_count = ht_count entry - 1,
                     chain = (if chain entry = Some (addr elem) then elem_next else chain entry)\<rparr>]
                 else []);
          pH = pH\<lparr>first := before @ behind, ht := hts, hcount := hcount pH - 1\<rparr>
      in if hcount pH = 0 then sqlite3HashClear pH else pH)"

definition sqlite3HashFind :: "'v Hash \<Rightarrow> cstring \<Rightarrow> 'v option" where
  "sqlite3HashFind pH key = map_option data (fst (findElementWithHash pH key))"

definition sqlite3HashInsert ::
    "nat \<Rightarrow> (nat \<Rightarrow> nat option) \<Rightarrow> nat option \<Rightarrow> 'v Hash \<Rightarrow> cstring \<Rightarrow> 'v option \<Rightarrow> 'v option \<times> 'v Hash" where
  "sqlite3HashInsert soft_limit malloc new_elem pH key d =
     (let (elem, h) = findElementWithHash pH key
      in case elem of
           Some e \<Rightarrow>
             (Some (data e),
              case d of
                None \<Rightarrow> removeElementGivenHash pH e h
              | Some v \<Rightarrow> pH\<lparr>first := map (\<lambda>x. if addr x = addr e then x\<lparr>data := v, pKey := key\<rparr> else x) (first pH)\<rparr>)
         | None \<Rightarrow>
             (case d of
                None \<Rightarrow> (None, pH)
              | Some v \<Rightarrow> (case new_elem of
                  None \<Rightarrow> (Some v, pH)
                | Some a \<Rightarrow>
                    let pH = pH\<lparr>hcount := hcount pH + 1\<rparr>;
                        (pH, h) =
                          (if hcount pH \<ge> 10 \<and> hcount pH > 2 * htsize pH then
                             (case rehash soft_limit malloc pH (hcount pH * 2) of
                                None \<Rightarrow> (pH, h)
                              | Some p \<Rightarrow> (p, strHash key mod htsize p))
                           else (pH, h))
                    in (None, insertElement pH (if ht pH \<noteq> [] then Some h else None)
                                \<lparr>addr = a, pKey = key, data = v\<rparr>))))"

section \<open>Contiguous elements\<close>

text \<open>\<open>contig P\<close>: the elements of the list with the property are neighbours.\<close>

fun run_then_none :: "('a \<Rightarrow> bool) \<Rightarrow> 'a list \<Rightarrow> bool" where
  "run_then_none P [] = True"
| "run_then_none P (x # xs) = (if P x then run_then_none P xs else list_all (\<lambda>y. \<not> P y) xs)"

fun contig :: "('a \<Rightarrow> bool) \<Rightarrow> 'a list \<Rightarrow> bool" where
  "contig P [] = True"
| "contig P (x # xs) = (if P x then run_then_none P xs else contig P xs)"

lemma none_run: "list_all (\<lambda>y. \<not> P y) xs \<Longrightarrow> run_then_none P xs"
  by (cases xs) auto

lemma none_contig: "list_all (\<lambda>y. \<not> P y) xs \<Longrightarrow> contig P xs"
  by (induction xs) auto

lemma run_contig: "run_then_none P xs \<Longrightarrow> contig P xs"
  by (cases xs) (auto intro: none_contig)

lemma contig_insert_other:
  "\<not> P e \<Longrightarrow> \<not> P f \<Longrightarrow> run_then_none P (xs @ f # r) \<Longrightarrow> run_then_none P (xs @ e # f # r)"
  "\<not> P e \<Longrightarrow> \<not> P f \<Longrightarrow> contig P (xs @ f # r) \<Longrightarrow> contig P (xs @ e # f # r)"
proof -
  show run: "\<not> P e \<Longrightarrow> \<not> P f \<Longrightarrow> run_then_none P (xs @ f # r) \<Longrightarrow> run_then_none P (xs @ e # f # r)" for xs
    by (induction xs) auto
  show "\<not> P e \<Longrightarrow> \<not> P f \<Longrightarrow> contig P (xs @ f # r) \<Longrightarrow> contig P (xs @ e # f # r)"
    by (induction xs) (auto intro: run)
qed

lemma contig_insert_first:
  "P e \<Longrightarrow> P f \<Longrightarrow> list_all (\<lambda>y. \<not> P y) xs \<Longrightarrow> contig P (xs @ f # r) \<Longrightarrow> contig P (xs @ e # f # r)"
  by (induction xs) auto

lemma contig_remove:
  "run_then_none P (xs @ e # r) \<Longrightarrow> run_then_none P (xs @ r)"
  "contig P (xs @ e # r) \<Longrightarrow> contig P (xs @ r)"
proof -
  show run: "run_then_none P (xs @ e # r) \<Longrightarrow> run_then_none P (xs @ r)" for xs
    by (induction xs) (auto intro: none_run split: if_splits)
  show "contig P (xs @ e # r) \<Longrightarrow> contig P (xs @ r)"
    by (induction xs) (auto intro: run run_contig split: if_splits)
qed

lemma run_take: "run_then_none P xs \<Longrightarrow> take (length (filter P xs)) xs = filter P xs"
  by (induction xs) (auto simp: list_all_iff)

lemma contig_take: "contig P xs \<Longrightarrow> take (length (filter P xs)) (dropWhile (\<lambda>x. \<not> P x) xs) = filter P xs"
  by (induction xs) (auto simp: run_take)

lemma contig_swap:
  "P e' = P e \<Longrightarrow> run_then_none P (xs @ e' # ys) = run_then_none P (xs @ e # ys)"
  "P e' = P e \<Longrightarrow> contig P (xs @ e' # ys) = contig P (xs @ e # ys)"
proof -
  show run: "P e' = P e \<Longrightarrow> run_then_none P (xs @ e' # ys) = run_then_none P (xs @ e # ys)" for xs
    by (induction xs) auto
  show "P e' = P e \<Longrightarrow> contig P (xs @ e' # ys) = contig P (xs @ e # ys)"
    by (induction xs) (auto simp: run)
qed

section \<open>Well-formed tables\<close>

abbreviation lowered :: "cstring \<Rightarrow> cstring" where "lowered z \<equiv> map lower_spec z"

definition in_bucket :: "nat \<Rightarrow> nat \<Rightarrow> 'v HashElem \<Rightarrow> bool" where
  "in_bucket n i e \<longleftrightarrow> strHash (pKey e) mod n = i"

definition bucket_ok :: "('v HashElem \<Rightarrow> bool) \<Rightarrow> ht_entry \<Rightarrow> 'v HashElem list \<Rightarrow> bool" where
  "bucket_ok P b es \<longleftrightarrow> contig P es \<and> ht_count b = length (filter P es)
     \<and> (filter P es \<noteq> [] \<longrightarrow> chain b = Some (addr (hd (filter P es))))"

definition table_ok :: "'v Hash \<Rightarrow> bool" where
  "table_ok pH \<longleftrightarrow> htsize pH = length (ht pH)
     \<and> (\<forall>i < length (ht pH). bucket_ok (in_bucket (htsize pH) i) (ht pH ! i) (first pH))"

definition elems_ok :: "'v HashElem list \<Rightarrow> bool" where
  "elems_ok es \<longleftrightarrow> distinct (map addr es) \<and> distinct (map (\<lambda>e. lowered (pKey e)) es)
     \<and> (\<forall>e \<in> set es. c_string (pKey e))"

definition hash_ok :: "'v Hash \<Rightarrow> bool" where
  "hash_ok pH \<longleftrightarrow> table_ok pH \<and> elems_ok (first pH) \<and> hcount pH = length (first pH)"

definition hash_map :: "'v Hash \<Rightarrow> cstring \<Rightarrow> 'v option" where
  "hash_map pH = map_of (map (\<lambda>e. (lowered (pKey e), data e)) (first pH))"

lemma hash_loop_lower:
  "c_string a \<Longrightarrow> c_string b \<Longrightarrow> lowered a = lowered b \<Longrightarrow> hash_loop h a = hash_loop h b"
proof (induction a arbitrary: b h)
  case (Cons x a)
  then obtain y b' where "b = y # b'" by (cases b) auto
  then show ?case using Cons by (simp add: lower_eq)
qed simp

lemma strHash_lower: "c_string a \<Longrightarrow> c_string b \<Longrightarrow> lowered a = lowered b \<Longrightarrow> strHash a = strHash b"
  unfolding strHash_def by (rule hash_loop_lower)

text \<open>A well-formed chain leads to the elements of its bucket.\<close>

lemma first_of_bucket:
  assumes "bucket_ok P b es" "ht_count b \<noteq> 0" "distinct (map addr es)"
  obtains xs f r where "es = xs @ f # r" "list_all (\<lambda>e. \<not> P e) xs" "P f" "chain b = Some (addr f)"
    "takeWhile (\<lambda>e. addr e \<noteq> addr f) es = xs" "dropWhile (\<lambda>e. addr e \<noteq> addr f) es = f # r"
proof -
  have "filter P es \<noteq> []" using assms(1,2) by (auto simp: bucket_ok_def)
  then obtain f fs where "filter P es = f # fs" by (cases "filter P es") auto
  then obtain xs r where split: "es = xs @ f # r" "\<forall>e \<in> set xs. \<not> P e" "P f"
    by (auto simp: filter_eq_Cons_iff)
  then have "chain b = Some (addr f)" using assms(1) by (auto simp: bucket_ok_def)
  moreover have "addr f \<notin> addr ` set xs" using assms(3) split(1) by auto
  then have "\<And>e. e \<in> set xs \<Longrightarrow> addr e \<noteq> addr f" by (metis imageI)
  then have "takeWhile (\<lambda>e. addr e \<noteq> addr f) es = xs" "dropWhile (\<lambda>e. addr e \<noteq> addr f) es = f # r"
    unfolding split(1) by (subst takeWhile_append2 dropWhile_append2, blast, simp)+
  ultimately show ?thesis using that split by (auto simp: list_all_iff)
qed

lemma bucket_swap:
  "bucket_ok P b (xs @ e # ys) \<Longrightarrow> P e' = P e \<Longrightarrow> addr e' = addr e \<Longrightarrow> bucket_ok P b (xs @ e' # ys)"
  using contig_swap(2)[of P e' e xs ys]
  by (cases "P e"; cases "filter P xs") (auto simp: bucket_ok_def)

lemma bucket_elems:
  assumes "bucket_ok P b es" "distinct (map addr es)"
  shows "take (ht_count b) (case chain b of None \<Rightarrow> [] | Some a \<Rightarrow> dropWhile (\<lambda>e. addr e \<noteq> a) es) = filter P es"
proof (cases "ht_count b = 0")
  case True
  then show ?thesis using assms(1) by (simp add: bucket_ok_def)
next
  case False
  then obtain xs f r where s: "es = xs @ f # r" "list_all (\<lambda>e. \<not> P e) xs" "P f" "chain b = Some (addr f)"
    "dropWhile (\<lambda>e. addr e \<noteq> addr f) es = f # r"
    using first_of_bucket[OF assms(1) _ assms(2)] by metis
  have "dropWhile (\<lambda>e. \<not> P e) es = f # r" using s(2,3) unfolding s(1) list_all_iff by (subst dropWhile_append2) auto
  then show ?thesis using contig_take[of P es] assms(1) by (simp add: s(4,5) bucket_ok_def)
qed

lemma insertElement_table:
  assumes "table_ok pH" "distinct (map addr (first pH))"
    "e = (if ht pH \<noteq> [] then Some (strHash (pKey new) mod htsize pH) else None)"
  obtains xs ys where "first pH = xs @ ys" "first (insertElement pH e new) = xs @ new # ys"
    "table_ok (insertElement pH e new)" "htsize (insertElement pH e new) = htsize pH"
    "hcount (insertElement pH e new) = hcount pH" "(ht (insertElement pH e new) = []) = (ht pH = [])"
proof (cases "ht pH = []")
  case True
  then show ?thesis using assms(1) by (intro that[of "[]" "first pH"]) (auto simp: assms(3) insertElement_def table_ok_def)
next
  case False
  define n where "n = htsize pH"
  define i where "i = strHash (pKey new) mod n"
  define P where "P = (in_bucket n :: nat \<Rightarrow> 'a HashElem \<Rightarrow> bool)"
  have n: "n = length (ht pH)" "0 < n" using False assms(1) by (auto simp: table_ok_def n_def)
  have i: "i < n" using n(2) by (simp add: i_def)
  have b: "bucket_ok (P j) (ht pH ! j) (first pH)" if "j < n" for j
    using assms(1) that n(1) unfolding table_ok_def P_def n_def by metis
  have new: "P i new" "\<And>j. j \<noteq> i \<Longrightarrow> \<not> P j new" by (auto simp: P_def in_bucket_def i_def)
  have e: "e = Some i" using False by (simp add: assms(3) i_def n_def)
  let ?b = "\<lparr>ht_count = ht_count (ht pH ! i) + 1, chain = Some (addr new)\<rparr>"
  have ok: "table_ok (pH\<lparr>ht := (ht pH)[i := ?b], first := es\<rparr>)"
    if "bucket_ok (P i) ?b es" "\<And>j. j < n \<Longrightarrow> j \<noteq> i \<Longrightarrow> bucket_ok (P j) (ht pH ! j) es" for es
    using that n i unfolding table_ok_def by (auto simp: nth_list_update P_def n_def)
  show ?thesis
  proof (cases "ht_count (ht pH ! i) = 0")
    case True
    then have none: "list_all (\<lambda>e. \<not> P i e) (first pH)" using b[OF i] by (auto simp: bucket_ok_def list_all_iff filter_empty_conv)
    have "bucket_ok (P i) ?b (new # first pH)"
      using b[OF i] new(1) none_run[OF none] True by (simp add: bucket_ok_def)
    moreover have "bucket_ok (P j) (ht pH ! j) (new # first pH)" if "j < n" "j \<noteq> i" for j
      using b[OF that(1)] new(2)[OF that(2)] by (simp add: bucket_ok_def)
    ultimately have "table_ok (pH\<lparr>ht := (ht pH)[i := ?b], first := new # first pH\<rparr>)" by (rule ok)
    then show ?thesis using True False by (intro that[of "[]" "first pH"]) (auto simp: insertElement_def e Let_def)
  next
    case some: False
    obtain xs f r where s: "first pH = xs @ f # r" "list_all (\<lambda>e. \<not> P i e) xs" "P i f" "chain (ht pH ! i) = Some (addr f)"
      "takeWhile (\<lambda>e. addr e \<noteq> addr f) (first pH) = xs" "dropWhile (\<lambda>e. addr e \<noteq> addr f) (first pH) = f # r"
      using first_of_bucket[OF b[OF i] some assms(2)] by metis
    have none: "filter (P i) xs = []" using s(2) by (simp add: list_all_iff filter_empty_conv)
    have "bucket_ok (P i) ?b (xs @ new # f # r)"
      using b[OF i] contig_insert_first[OF new(1) s(3,2)] new(1) s(3) by (simp add: bucket_ok_def s(1) none)
    moreover have "bucket_ok (P j) (ht pH ! j) (xs @ new # f # r)" if "j < n" "j \<noteq> i" for j
    proof -
      have "\<not> P j f" using s(3) that(2) by (simp add: P_def in_bucket_def)
      then show ?thesis
        using b[OF that(1)] new(2)[OF that(2)] contig_insert_other(2)[of "P j" new f xs r] by (simp add: bucket_ok_def s(1))
    qed
    ultimately have "table_ok (pH\<lparr>ht := (ht pH)[i := ?b], first := xs @ new # f # r\<rparr>)" by (rule ok)
    then show ?thesis
      using some False s(1)
      by (intro that[of xs "f # r"]) (auto simp: insertElement_def e Let_def s(4) link_before_def s(5,6)[unfolded s(1)])
  qed
qed


lemma elems_ok_perm: "mset es = mset es' \<Longrightarrow> elems_ok es = elems_ok es'"
  unfolding elems_ok_def by (metis mset_eq_setD mset_map mset_eq_imp_distinct_iff)

lemma insert_mset: "xs @ ys = zs \<Longrightarrow> mset (xs @ e # ys) = add_mset e (mset zs)"
  by auto

lemma rehash_fold:
  fixes pH :: "'v Hash"
  assumes "n > 0"
  shows "table_ok p \<Longrightarrow> htsize p = n \<Longrightarrow> ht p \<noteq> [] \<Longrightarrow> distinct (map addr (rev es @ first p)) \<Longrightarrow>
    let p' = fold (\<lambda>e p. insertElement p (Some (strHash (pKey e) mod n)) e) es p
    in table_ok p' \<and> htsize p' = n \<and> hcount p' = hcount p \<and> ht p' \<noteq> []
       \<and> mset (first p') = mset es + mset (first p)"
proof (induction es arbitrary: p)
  case (Cons e es)
  let ?p = "insertElement p (Some (strHash (pKey e) mod n)) e"
  have e: "Some (strHash (pKey e) mod n) = (if ht p \<noteq> [] then Some (strHash (pKey e) mod htsize p) else None)"
    using Cons.prems by simp
  have d: "distinct (map addr (first p))" using Cons.prems(4) by simp
  obtain xs ys where p: "first p = xs @ ys" "first ?p = xs @ e # ys" "table_ok ?p" "htsize ?p = htsize p"
      "hcount ?p = hcount p" "(ht ?p = []) = (ht p = [])"
    by (rule insertElement_table[OF Cons.prems(1) d e])
  have "distinct (map addr (rev es @ first ?p))" using Cons.prems(4) unfolding p(1,2) by auto
  then show ?case using Cons.IH[of ?p] Cons.prems p by (simp add: Let_def)
qed simp

lemma rehash_ok:
  assumes "rehash limit malloc pH n = Some p" "distinct (map addr (first pH))" "\<forall>k m. malloc k = Some m \<longrightarrow> k \<le> m" "n > 0"
    "limit = 0 \<or> 16 \<le> limit"
  shows "table_ok p" "hcount p = hcount pH" "ht p \<noteq> []" "mset (first p) = mset (first pH)"
proof -
  obtain k where k: "malloc ((if limit > 0 \<and> n * 16 > limit then limit div 16 else n) * 16) = Some k"
    using assms(1) by (auto simp: rehash_def Let_def split: if_splits option.splits)
  moreover have "16 \<le> (if limit > 0 \<and> n * 16 > limit then limit div 16 else n) * (16 :: nat)" using assms(4,5) by auto
  ultimately have "16 \<le> k" using assms(3) le_trans by blast
  let ?m = "k div 16"
  let ?p = "pH\<lparr>ht := replicate ?m \<lparr>ht_count = 0, chain = None\<rparr>, htsize := ?m, first := []\<rparr>"
  have "table_ok ?p" by (simp add: table_ok_def bucket_ok_def)
  moreover have "?m > 0" using \<open>16 \<le> k\<close> by simp
  moreover have "p = fold (\<lambda>e p. insertElement p (Some (strHash (pKey e) mod ?m)) e) (first pH) ?p"
    using assms(1) k by (auto simp: rehash_def Let_def split: if_splits option.splits)
  ultimately show "table_ok p" "hcount p = hcount pH" "ht p \<noteq> []" "mset (first p) = mset (first pH)"
    using rehash_fold[of ?m ?p "first pH"] assms(2) by (simp_all add: Let_def rev_map[symmetric])
qed

lemma remove_table:
  assumes "hash_ok pH" "e \<in> set (first pH)" "ht pH \<noteq> [] \<longrightarrow> h = strHash (pKey e) mod htsize pH"
  obtains xs ys where "first pH = xs @ e # ys" "first (removeElementGivenHash pH e h) = xs @ ys"
    "hash_ok (removeElementGivenHash pH e h)"
proof -
  obtain xs ys where s: "first pH = xs @ e # ys" using assms(2) by (metis split_list)
  have ok: "table_ok pH" "elems_ok (first pH)" "hcount pH = length (first pH)" using assms(1) by (auto simp: hash_ok_def)
  have d: "distinct (map addr (first pH))" using ok(2) by (simp add: elems_ok_def)
  then have "\<And>x. x \<in> set xs \<Longrightarrow> addr x \<noteq> addr e" unfolding s by (simp, metis imageI)
  then have tw: "takeWhile (\<lambda>x. addr x \<noteq> addr e) (first pH) = xs" "dropWhile (\<lambda>x. addr x \<noteq> addr e) (first pH) = e # ys"
    unfolding s by (subst takeWhile_append2 dropWhile_append2, blast, simp)+
  let ?nx = "case ys of [] \<Rightarrow> None | x # _ \<Rightarrow> Some (addr x)"
  let ?b = "\<lparr>ht_count = ht_count (ht pH ! h) - 1, chain = (if chain (ht pH ! h) = Some (addr e) then ?nx else chain (ht pH ! h))\<rparr>"
  let ?p = "pH\<lparr>first := xs @ ys, ht := if ht pH \<noteq> [] then (ht pH)[h := ?b] else [], hcount := hcount pH - 1\<rparr>"
  have rm: "removeElementGivenHash pH e h = (if hcount ?p = 0 then sqlite3HashClear ?p else ?p)"
    by (simp add: removeElementGivenHash_def tw Let_def)
  have elems: "elems_ok (xs @ ys)" using ok(2) unfolding s elems_ok_def by auto
  have count: "hcount pH - 1 = length (xs @ ys)" using ok(3) s by simp
  show ?thesis
  proof (cases "xs @ ys = []")
    case True
    have "hcount ?p = length (xs @ ys)" using count by simp
    then have "hcount ?p = 0" using True by (metis list.size(3))
    then have "removeElementGivenHash pH e h = sqlite3HashClear ?p" unfolding rm by (rule if_P)
    then show ?thesis using True s
      by (intro that[of xs ys]) (auto simp: sqlite3HashClear_def hash_ok_def table_ok_def elems_ok_def)
  next
    case False
    have "hcount ?p = length (xs @ ys)" using count by simp
    then have "hcount ?p \<noteq> 0" using False by (metis length_0_conv)
    then have p: "removeElementGivenHash pH e h = ?p" unfolding rm by (rule if_not_P)
    have "table_ok ?p"
    proof (cases "ht pH = []")
      case False
      define n where "n = htsize pH"
      define P where "P = (in_bucket n :: nat \<Rightarrow> 'a HashElem \<Rightarrow> bool)"
      have n: "n = length (ht pH)" "0 < n" using False ok(1) by (auto simp: table_ok_def n_def)
      have h: "h < n" "P h e" "\<And>j. j \<noteq> h \<Longrightarrow> \<not> P j e"
        using assms(3) False n(2) by (auto simp: P_def in_bucket_def n_def)
      have b: "bucket_ok (P j) (ht pH ! j) (first pH)" if "j < n" for j
        using ok(1) that n(1) unfolding table_ok_def P_def n_def by metis
      have "bucket_ok (P j) (ht pH ! j) (xs @ ys)" if "j < n" "j \<noteq> h" for j
        using b[OF that(1)] h(3)[OF that(2)] contig_remove(2)[of "P j" xs e ys] by (simp add: bucket_ok_def s)
      moreover have "bucket_ok (P h) ?b (xs @ ys)"
      proof (cases "filter (P h) xs = []")
        case True
        then have none: "list_all (\<lambda>x. \<not> P h x) xs" by (auto simp: list_all_iff filter_empty_conv)
        have c: "chain (ht pH ! h) = Some (addr e)" using b[OF h(1)] h(2) True by (simp add: bucket_ok_def s)
        have "contig (P h) (xs @ e # ys)" using b[OF h(1)] by (simp add: bucket_ok_def s)
        then have "run_then_none (P h) ys" using none h(2) by (induction xs) auto
        then have "filter (P h) ys \<noteq> [] \<longrightarrow> ?nx = Some (addr (hd (filter (P h) ys)))"
          by (cases ys) (auto simp: list_all_iff filter_empty_conv)
        then show ?thesis
          using b[OF h(1)] h(2) contig_remove(2)[of "P h" xs e ys] c True by (simp add: bucket_ok_def s)
      next
        case False
        then obtain f where f: "f \<in> set xs" "hd (filter (P h) xs) = f" by (metis filter_is_subset hd_in_set subsetD)
        then have "addr f \<noteq> addr e" using tw(1) by (metis set_takeWhileD)
        then show ?thesis
          using b[OF h(1)] h(2) contig_remove(2)[of "P h" xs e ys] False f(2) by (simp add: bucket_ok_def s)
      qed
      ultimately show ?thesis
        using n h(1) unfolding table_ok_def by (auto simp: nth_list_update P_def n_def)
    qed (use ok(1) in \<open>simp add: table_ok_def\<close>)
    then show ?thesis using p s elems count by (intro that[of xs ys]) (auto simp: hash_ok_def)
  qed
qed

section \<open>Lookup\<close>

lemma find_filter: "(\<And>x. x \<in> set xs \<Longrightarrow> Q x \<Longrightarrow> P x) \<Longrightarrow> find Q (filter P xs) = find Q xs"
  by (induction xs) auto

lemma find_cong_set: "(\<And>x. x \<in> set xs \<Longrightarrow> P x = Q x) \<Longrightarrow> find P xs = find Q xs"
  by (induction xs) auto

lemma findElement_spec:
  assumes "hash_ok pH" "c_string key"
  shows "findElementWithHash pH key =
    (find (\<lambda>e. lowered (pKey e) = lowered key) (first pH), if ht pH \<noteq> [] then strHash key mod htsize pH else 0)"
proof -
  have ok: "table_ok pH" "elems_ok (first pH)" "hcount pH = length (first pH)" using assms(1) by (auto simp: hash_ok_def)
  have eq: "find (\<lambda>e. sqlite3StrICmp (pKey e) key = 0) (first pH) = find (\<lambda>e. lowered (pKey e) = lowered key) (first pH)"
    by (rule find_cong_set) (use ok(2) assms(2) StrICmp_order in \<open>auto simp: elems_ok_def\<close>)
  show ?thesis
  proof (cases "ht pH = []")
    case True
    then show ?thesis using eq ok(3) by (simp add: findElementWithHash_def)
  next
    case False
    let ?h = "strHash key mod htsize pH"
    have n: "htsize pH = length (ht pH)" "?h < length (ht pH)" using False ok(1) by (auto simp: table_ok_def)
    then have b: "bucket_ok (in_bucket (htsize pH) ?h) (ht pH ! ?h) (first pH)" using ok(1) by (auto simp: table_ok_def)
    have "take (ht_count (ht pH ! ?h)) (case chain (ht pH ! ?h) of None \<Rightarrow> [] | Some a \<Rightarrow> dropWhile (\<lambda>e. addr e \<noteq> a) (first pH))
        = filter (in_bucket (htsize pH) ?h) (first pH)"
      by (rule bucket_elems[OF b]) (use ok(2) in \<open>simp add: elems_ok_def\<close>)
    moreover have "find (\<lambda>e. sqlite3StrICmp (pKey e) key = 0) (filter (in_bucket (htsize pH) ?h) (first pH))
        = find (\<lambda>e. sqlite3StrICmp (pKey e) key = 0) (first pH)"
    proof (rule find_filter)
      fix e
      assume "e \<in> set (first pH)" "sqlite3StrICmp (pKey e) key = 0"
      then have "strHash (pKey e) = strHash key"
        using ok(2) assms(2) StrICmp_order strHash_lower by (metis elems_ok_def)
      then show "in_bucket (htsize pH) ?h e" by (simp add: in_bucket_def)
    qed
    ultimately show ?thesis using False eq by (simp add: findElementWithHash_def Let_def)
  qed
qed

lemma map_of_find: "map_of (map (\<lambda>e. (f e, g e)) es) k = map_option g (find (\<lambda>e. f e = k) es)"
  by (induction es) auto

lemma hash_map_find: "hash_map pH k = map_option data (find (\<lambda>e. lowered (pKey e) = k) (first pH))"
  unfolding hash_map_def by (rule map_of_find)

lemma hash_map_Some: "elems_ok (first pH) \<Longrightarrow> e \<in> set (first pH) \<Longrightarrow> hash_map pH (lowered (pKey e)) = Some (data e)"
  unfolding hash_map_def by (rule map_of_is_SomeI) (auto simp: elems_ok_def comp_def)

text \<open>The contents depend on the set of elements only.\<close>

lemma hash_map_set:
  assumes "elems_ok es" "elems_ok es'" "set es = set es'"
  shows "map_of (map (\<lambda>e. (lowered (pKey e), data e)) es) = map_of (map (\<lambda>e. (lowered (pKey e), data e)) es')"
proof (rule ext)
  fix k
  show "map_of (map (\<lambda>e. (lowered (pKey e), data e)) es) k = map_of (map (\<lambda>e. (lowered (pKey e), data e)) es') k"
  proof (cases "map_of (map (\<lambda>e. (lowered (pKey e), data e)) es) k")
    case None
    then have "map_of (map (\<lambda>e. (lowered (pKey e), data e)) es') k = None"
      using assms(3) unfolding map_of_eq_None_iff by auto
    then show ?thesis using None by simp
  next
    case (Some v)
    then obtain e where "e \<in> set es" "k = lowered (pKey e)" "v = data e" by (auto dest!: map_of_SomeD)
    then show ?thesis
      using Some assms by (intro trans[OF Some] sym[OF map_of_is_SomeI]) (auto simp: elems_ok_def comp_def)
  qed
qed

lemma HashFind_map: "hash_ok pH \<Longrightarrow> c_string key \<Longrightarrow> sqlite3HashFind pH key = hash_map pH (lowered key)"
  by (simp add: sqlite3HashFind_def findElement_spec hash_map_find)

section \<open>Insertion\<close>

lemma find_SomeD: "find P xs = Some e \<Longrightarrow> e \<in> set xs \<and> P e"
  by (induction xs) (auto split: if_splits)

lemma find_NoneD: "find P xs = None \<Longrightarrow> x \<in> set xs \<Longrightarrow> \<not> P x"
  by (simp add: find_None_iff)

text \<open>The limit leaves room for an entry, blocks are as large as asked for and new.\<close>

definition memory_ok :: "nat \<times> (nat \<Rightarrow> nat option) \<times> nat option \<Rightarrow> 'v Hash \<Rightarrow> bool" where
  "memory_ok m pH \<longleftrightarrow> (fst m = 0 \<or> 16 \<le> fst m) \<and> (\<forall>n k. fst (snd m) n = Some k \<longrightarrow> n \<le> k)
     \<and> (\<forall>a. snd (snd m) = Some a \<longrightarrow> a \<notin> addr ` set (first pH))"

lemma either_case:
  "(if g then (case m of None \<Rightarrow> x | Some p \<Rightarrow> (p, f p)) else x) = y \<Longrightarrow>
   y = x \<or> (\<exists>p. m = Some p \<and> y = (p, f p))"
  by (cases g; cases m) auto

lemma insert_absent:
  assumes "hash_ok pH" "c_string key" "memory_ok (limit, malloc, Some a) pH" "hash_map pH (lowered key) = None"
  shows "fst (sqlite3HashInsert limit malloc (Some a) pH key (Some v)) = None
    \<and> hash_ok (snd (sqlite3HashInsert limit malloc (Some a) pH key (Some v)))
    \<and> hash_map (snd (sqlite3HashInsert limit malloc (Some a) pH key (Some v))) = (hash_map pH)(lowered key \<mapsto> v)"
proof -
  have ok: "table_ok pH" "elems_ok (first pH)" "hcount pH = length (first pH)" using assms(1) by (auto simp: hash_ok_def)
  have d: "distinct (map addr (first pH))" using ok(2) by (simp add: elems_ok_def)
  have none: "find (\<lambda>e. lowered (pKey e) = lowered key) (first pH) = None" using assms(4) by (simp add: hash_map_find)
  let ?new = "\<lparr>addr = a, pKey = key, data = v\<rparr>"
  let ?c = "pH\<lparr>hcount := hcount pH + 1\<rparr>"
  let ?h = "if ht pH \<noteq> [] then strHash key mod htsize pH else 0"
  let ?q = "if hcount ?c \<ge> 10 \<and> hcount ?c > 2 * htsize ?c then
      (case rehash limit malloc ?c (hcount ?c * 2) of None \<Rightarrow> (?c, ?h) | Some p \<Rightarrow> (p, strHash key mod htsize p))
    else (?c, ?h)"
  obtain p h where q: "?q = (p, h)" by (rule prod.exhaust)
  have p: "table_ok p" "hcount p = hcount pH + 1" "mset (first p) = mset (first pH)"
    "ht p \<noteq> [] \<longrightarrow> h = strHash key mod htsize p"
  proof -
    have c: "table_ok ?c" using ok(1) by (auto simp: table_ok_def)
    have "table_ok p \<and> hcount p = hcount pH + 1 \<and> mset (first p) = mset (first pH)
        \<and> (ht p \<noteq> [] \<longrightarrow> h = strHash key mod htsize p)"
      using either_case[OF q]
    proof (elim disjE exE conjE)
      assume "(p, h) = (?c, ?h)"
      then show ?thesis using c by simp
    next
      fix r
      assume r: "rehash limit malloc ?c (hcount ?c * 2) = Some r" and ph: "(p, h) = (r, strHash key mod htsize r)"
      have "distinct (map addr (first ?c))" "\<forall>k m. malloc k = Some m \<longrightarrow> k \<le> m" "0 < hcount ?c * 2"
        "limit = 0 \<or> 16 \<le> limit"
        using d assms(3) by (simp_all add: memory_ok_def)
      note rehash_ok[OF r this]
      moreover have "p = r" "h = strHash key mod htsize r" using ph by simp_all
      ultimately show ?thesis by simp
    qed
    then show "table_ok p" "hcount p = hcount pH + 1" "mset (first p) = mset (first pH)"
      "ht p \<noteq> [] \<longrightarrow> h = strHash key mod htsize p" by blast+
  qed
  have dp: "distinct (map addr (first p))" using d p(3) by (metis mset_eq_imp_distinct_iff mset_map)
  have e: "(if ht p \<noteq> [] then Some h else None) = (if ht p \<noteq> [] then Some (strHash (pKey ?new) mod htsize p) else None)"
    using p(4) by simp
  let ?r = "insertElement p (if ht p \<noteq> [] then Some h else None) ?new"
  have result: "sqlite3HashInsert limit malloc (Some a) pH key (Some v) = (None, ?r)"
    unfolding sqlite3HashInsert_def findElement_spec[OF assms(1,2)] none Let_def prod.case option.case q ..
  obtain xs ys where r: "first p = xs @ ys" "first ?r = xs @ ?new # ys" "table_ok ?r" "hcount ?r = hcount p"
    by (rule insertElement_table[OF p(1) dp e])
  have m: "mset (first ?r) = mset (?new # first pH)" using p(3) unfolding r(1,2) by simp
  have "lowered key \<notin> (\<lambda>e. lowered (pKey e)) ` set (first pH)" using find_NoneD[OF none] by (metis imageE)
  then have "elems_ok (?new # first pH)"
    using ok(2) assms(2,3) by (simp add: elems_ok_def memory_ok_def)
  then have el: "elems_ok (first ?r)" "elems_ok (?new # first pH)" using elems_ok_perm[OF m] by auto
  have "set (first ?r) = set (?new # first pH)" using m by (rule mset_eq_setD)
  then have "hash_map ?r = map_of (map (\<lambda>e. (lowered (pKey e), data e)) (?new # first pH))"
    unfolding hash_map_def by (rule hash_map_set[OF el])
  then have "hash_map ?r = (hash_map pH)(lowered key \<mapsto> v)" by (simp add: hash_map_def)
  moreover have "hash_ok ?r" using r(3,4) p(2) el(1) ok(3) arg_cong[OF m, of size] by (simp add: hash_ok_def)
  ultimately show ?thesis unfolding result by simp
qed

lemma replace_present:
  assumes "hash_ok pH" "c_string key" "e \<in> set (first pH)" "lowered (pKey e) = lowered key"
  shows "hash_ok (pH\<lparr>first := map (\<lambda>x. if addr x = addr e then x\<lparr>data := v, pKey := key\<rparr> else x) (first pH)\<rparr>)
    \<and> hash_map (pH\<lparr>first := map (\<lambda>x. if addr x = addr e then x\<lparr>data := v, pKey := key\<rparr> else x) (first pH)\<rparr>)
      = (hash_map pH)(lowered key \<mapsto> v)"
proof -
  have ok: "table_ok pH" "elems_ok (first pH)" "hcount pH = length (first pH)" using assms(1) by (auto simp: hash_ok_def)
  obtain xs ys where s: "first pH = xs @ e # ys" using assms(3) by (metis split_list)
  let ?e = "e\<lparr>data := v, pKey := key\<rparr>"
  let ?f = "\<lambda>x. if addr x = addr e then x\<lparr>data := v, pKey := key\<rparr> else x"
  have addrs: "addr e \<notin> addr ` set xs" "addr e \<notin> addr ` set ys" using ok(2) unfolding s by (auto simp: elems_ok_def)
  have same: "map ?f zs = zs" if "addr e \<notin> addr ` set zs" for zs
    using that by (induction zs) auto
  have m: "map ?f (first pH) = xs @ ?e # ys" unfolding s using same[OF addrs(1)] same[OF addrs(2)] by simp
  have "strHash key = strHash (pKey e)"
    using ok(2) assms(2,4) strHash_lower[of key "pKey e"] by (simp add: elems_ok_def s)
  then have b: "in_bucket n i ?e = in_bucket n i e" for n i by (simp add: in_bucket_def)
  have "table_ok (pH\<lparr>first := xs @ ?e # ys\<rparr>)"
    using ok(1) bucket_swap[of _ _ xs e ys ?e] b unfolding table_ok_def s by auto
  moreover have "elems_ok (xs @ ?e # ys)"
    using ok(2) assms(2,4) unfolding s elems_ok_def by simp
  moreover have "map_of (map (\<lambda>e. (lowered (pKey e), data e)) (xs @ ?e # ys))
      = (map_of (map (\<lambda>e. (lowered (pKey e), data e)) (xs @ e # ys)))(lowered key \<mapsto> v)"
  proof -
    have "lowered key \<notin> (\<lambda>e. lowered (pKey e)) ` set xs"
      using ok(2) assms(4) unfolding s elems_ok_def by auto
    then have "map_of (map (\<lambda>e. (lowered (pKey e), data e)) xs) (lowered key) = None"
      unfolding map_of_eq_None_iff by (simp add: image_image)
    then show ?thesis using assms(4) by (auto simp: map_add_def fun_eq_iff split: option.splits)
  qed
  ultimately show ?thesis unfolding m using ok(3) s by (simp add: hash_ok_def hash_map_def)
qed

lemma remove_present:
  assumes "hash_ok pH" "e \<in> set (first pH)" "lowered (pKey e) = lowered key"
    "ht pH \<noteq> [] \<longrightarrow> h = strHash (pKey e) mod htsize pH"
  shows "hash_ok (removeElementGivenHash pH e h)
    \<and> hash_map (removeElementGivenHash pH e h) = (hash_map pH)(lowered key := None)"
proof -
  obtain xs ys where s: "first pH = xs @ e # ys" "first (removeElementGivenHash pH e h) = xs @ ys"
    "hash_ok (removeElementGivenHash pH e h)" by (rule remove_table[OF assms(1,2,4)])
  have "distinct (map (\<lambda>e. lowered (pKey e)) (xs @ e # ys))"
    using assms(1) by (simp add: hash_ok_def elems_ok_def s(1)[symmetric])
  then have none: "lowered key \<notin> fst ` set (map (\<lambda>e. (lowered (pKey e), data e)) (xs @ ys))"
    using assms(3) by force
  have "map_of (map (\<lambda>e. (lowered (pKey e), data e)) (xs @ ys))
      = (map_of (map (\<lambda>e. (lowered (pKey e), data e)) (xs @ e # ys)))(lowered key := None)"
    using none assms(3) unfolding map_of_eq_None_iff[symmetric] by (auto simp: map_add_def fun_eq_iff split: option.splits)
  then show ?thesis using s by (simp add: hash_map_def)
qed

lemma hash_update:
  assumes "hash_ok pH" "c_string key" "memory_ok m pH"
  shows "hash_ok (snd (sqlite3HashInsert (fst m) (fst (snd m)) (snd (snd m)) pH key d))"
    "hash_map pH (lowered key) = Some v \<Longrightarrow> fst (sqlite3HashInsert (fst m) (fst (snd m)) (snd (snd m)) pH key d) = Some v
      \<and> hash_map (snd (sqlite3HashInsert (fst m) (fst (snd m)) (snd (snd m)) pH key d)) = (hash_map pH)(lowered key := d)"
    "hash_map pH (lowered key) = None \<Longrightarrow> fst (sqlite3HashInsert (fst m) (fst (snd m)) (snd (snd m)) pH key d) = None
      \<and> hash_map (snd (sqlite3HashInsert (fst m) (fst (snd m)) (snd (snd m)) pH key d)) = (hash_map pH)(lowered key := d)
      \<or> d \<noteq> None \<and> fst (sqlite3HashInsert (fst m) (fst (snd m)) (snd (snd m)) pH key d) = d
      \<and> snd (sqlite3HashInsert (fst m) (fst (snd m)) (snd (snd m)) pH key d) = pH"
proof -
  note f = findElement_spec[OF assms(1,2)]
  obtain limit malloc new_elem where m: "m = (limit, malloc, new_elem)" by (metis prod.exhaust)
  let ?find = "find (\<lambda>e. lowered (pKey e) = lowered key) (first pH)"
  have present: "hash_ok (snd (sqlite3HashInsert limit malloc new_elem pH key d))
      \<and> fst (sqlite3HashInsert limit malloc new_elem pH key d) = Some (data e)
      \<and> hash_map (snd (sqlite3HashInsert limit malloc new_elem pH key d)) = (hash_map pH)(lowered key := d)"
    if "?find = Some e" for e
  proof -
    have e: "e \<in> set (first pH)" "lowered (pKey e) = lowered key" using find_SomeD[OF that] by auto
    have "strHash key = strHash (pKey e)"
      using assms(1,2) e strHash_lower[of key "pKey e"] by (simp add: hash_ok_def elems_ok_def)
    then show ?thesis
      using replace_present[OF assms(1,2) e] remove_present[OF assms(1) e]
      by (cases d) (simp_all add: sqlite3HashInsert_def f that)
  qed
  have absent: "hash_ok (snd (sqlite3HashInsert limit malloc new_elem pH key d))
      \<and> (fst (sqlite3HashInsert limit malloc new_elem pH key d) = None
      \<and> hash_map (snd (sqlite3HashInsert limit malloc new_elem pH key d)) = (hash_map pH)(lowered key := d)
      \<or> d \<noteq> None \<and> fst (sqlite3HashInsert limit malloc new_elem pH key d) = d
      \<and> snd (sqlite3HashInsert limit malloc new_elem pH key d) = pH)"
    if "hash_map pH (lowered key) = None"
  proof (cases "d = None \<or> new_elem = None")
    case True
    have none: "?find = None" using that by (simp add: hash_map_find)
    have "(hash_map pH)(lowered key := None) = hash_map pH" using that by (auto simp: fun_eq_iff)
    then show ?thesis using True assms(1) by (cases d) (auto simp: sqlite3HashInsert_def f none)
  next
    case False
    then obtain v a where "d = Some v" "new_elem = Some a" by auto
    then show ?thesis using insert_absent[OF assms(1,2) _ that, of limit malloc a v] assms(3) m by simp
  qed
  show "hash_ok (snd (sqlite3HashInsert (fst m) (fst (snd m)) (snd (snd m)) pH key d))"
    using present absent by (cases ?find) (auto simp: m hash_map_find)
  show "hash_map pH (lowered key) = Some v \<Longrightarrow> fst (sqlite3HashInsert (fst m) (fst (snd m)) (snd (snd m)) pH key d) = Some v
      \<and> hash_map (snd (sqlite3HashInsert (fst m) (fst (snd m)) (snd (snd m)) pH key d)) = (hash_map pH)(lowered key := d)"
    using present by (cases ?find) (auto simp: m hash_map_find)
  show "hash_map pH (lowered key) = None \<Longrightarrow> fst (sqlite3HashInsert (fst m) (fst (snd m)) (snd (snd m)) pH key d) = None
      \<and> hash_map (snd (sqlite3HashInsert (fst m) (fst (snd m)) (snd (snd m)) pH key d)) = (hash_map pH)(lowered key := d)
      \<or> d \<noteq> None \<and> fst (sqlite3HashInsert (fst m) (fst (snd m)) (snd (snd m)) pH key d) = d
      \<and> snd (sqlite3HashInsert (fst m) (fst (snd m)) (snd (snd m)) pH key d) = pH"
    using absent by (simp add: m)
qed

interpretation hash: dictionary sqlite3HashFind "\<lambda>m. sqlite3HashInsert (fst m) (fst (snd m)) (snd (snd m))" hash_map "map lower_spec"
  c_string memory_ok hash_ok
  by unfold_locales (rule HashFind_map hash_update; assumption)+

section \<open>Properties\<close>

text \<open>C30. The hash table is a map over the names without regard to case, whatever memory there is: the empty table
  is well-formed and holds nothing; storing, replacing and removing keep the table well-formed (the
  elements of every bucket stay together, its pointer leads to the first, its count is their number),
  also when the table is rebuilt or its rebuilding fails; a lookup finds what was stored last under any
  spelling of the name and no other name is affected; the old value is given back. Storing is refused,
  without effect and giving back the new value, only for a new name when there is no memory.\<close>

theorem hash_table_is_a_map:
  assumes "hash_ok pH" "c_string key" "c_string key'" "memory_ok (limit, malloc, new_elem) pH"
  shows "hash_ok (sqlite3HashInit :: 'v Hash) \<and> sqlite3HashFind (sqlite3HashInit :: 'v Hash) key' = None
    \<and> (let (old, pH') = sqlite3HashInsert limit malloc new_elem pH key d;
            refused = (sqlite3HashFind pH key = None \<and> d \<noteq> None \<and> old = d)
        in hash_ok pH' \<and> (refused \<longrightarrow> new_elem = None \<and> pH' = pH)
         \<and> old = (if refused then d else sqlite3HashFind pH key)
         \<and> sqlite3HashFind pH' key' =
             (if map lower_spec key' = map lower_spec key \<and> \<not> refused then d else sqlite3HashFind pH key'))"
proof -
  have init: "hash_ok (sqlite3HashInit :: 'v Hash)"
    by (simp add: sqlite3HashInit_def hash_ok_def table_ok_def elems_ok_def)
  have "hash_map (sqlite3HashInit :: 'v Hash) k = None" for k by (simp add: sqlite3HashInit_def hash_map_def)
  note i = init HashFind_map[OF init assms(3)] this
  have "new_elem = None \<and> snd (sqlite3HashInsert limit malloc new_elem pH key d) = pH"
    if "hash.refused (limit, malloc, new_elem) pH key d"
  proof (cases new_elem)
    case None
    then show ?thesis
      using that hash_update(3)[OF assms(1,2,4), of d]
      by (cases d) (auto simp: hash.refused_def sqlite3HashInsert_def HashFind_map[OF assms(1,2)] findElement_spec[OF assms(1,2)] hash_map_find)
  next
    case (Some a)
    then show ?thesis
      using that insert_absent[OF assms(1,2), of limit malloc a] assms(4)
      by (cases d) (auto simp: hash.refused_def HashFind_map[OF assms(1,2)])
  qed
  then show ?thesis
    using hash.inv_update[OF assms(1,2,4), of d] hash.gives_old_value[OF assms(1,2,4), of d]
      hash.lookup_update[OF assms(1,2,3,4), of d]
    unfolding hash.refused_def by (cases "sqlite3HashInsert limit malloc new_elem pH key d") (simp add: i)
qed

theorem hash_table_is_a_map_witness:
  "sqlite3HashFind (snd (sqlite3HashInsert 0 (\<lambda>_. None) (Some 1) sqlite3HashInit [97, 66] (Some (7 :: nat)))) [65, 98] = Some 7"
proof -
  have ok: "hash_ok (sqlite3HashInit :: nat Hash)"
    by (simp add: sqlite3HashInit_def hash_ok_def table_ok_def elems_ok_def)
  have "sqlite3HashFind (sqlite3HashInit :: nat Hash) [97, 66] = None" by code_simp
  then show ?thesis
    using hash_table_is_a_map[OF ok, of "[97, 66]" "[65, 98]" 0 "\<lambda>_. None" "Some 1" "Some 7"]
    by (auto simp: memory_ok_def sqlite3HashInit_def lower_spec_def Let_def split: prod.splits)
qed

end
