(* ===== verification/Sqlite_Memjournal.thy ===== *)
theory Sqlite_Memjournal
  imports Interfaces
begin

text \<open>
  The journal files that are kept in memory and may be moved to disk (\<open>src/memjournal.c\<close>), as built for
  the application, with \<open>SQLITE_ENABLE_BATCH_ATOMIC_WRITE\<close>.

  The linked list of chunks is a list, a pointer to a chunk its number. The file on disk is of the
  parameter type \<open>'f\<close>, whose \<open>os_open\<close> and \<open>os_write\<close> come from the VFS the journal was opened with;
  \<open>malloc i\<close> is the memory for the chunk with the number \<open>i\<close>, with whatever content it has.
\<close>

datatype rc = SQLITE_OK | SQLITE_IOERR_NOMEM | SQLITE_IOERR_SHORT_READ | SQLITE_VFS_ERROR nat

record FilePoint =
  iOffset :: nat
  pChunk :: "nat option"

record MemJournal =
  nChunkSize :: nat
  nSpill :: int
  nSize :: nat
  chunks :: "bytes list"
  endpoint :: FilePoint
  readpoint :: FilePoint
  main_journal :: bool

datatype 'f journal = In_memory MemJournal | Real 'f

section \<open>Reading\<close>

text \<open>The first chunk that ends behind the offset.\<close>

function seek_chunk :: "nat \<Rightarrow> nat \<Rightarrow> nat \<Rightarrow> nat \<Rightarrow> nat \<Rightarrow> nat" where
  "seek_chunk n sz iOfst i iOff =
     (if i < n \<and> iOff + sz \<le> iOfst then seek_chunk n sz iOfst (i + 1) (iOff + sz) else i)"
  by pat_completeness auto
termination by (relation "measure (\<lambda>(n, sz, ofst, i, off). n - i)") auto

declare seek_chunk.simps [simp del]

text \<open>The loop that copies; the second result is the chunk it stops at.\<close>

function read_chunks :: "bytes list \<Rightarrow> nat \<Rightarrow> nat \<Rightarrow> nat \<Rightarrow> nat \<Rightarrow> bytes \<times> nat option" where
  "read_chunks cs sz i iChunkOffset nRead =
     (let iSpace = sz - iChunkOffset;
          copied = take (min nRead iSpace) (drop iChunkOffset (cs ! i))
      in if nRead < iSpace then (copied, Some i)
         else if i + 1 < length cs then
           (if nRead - iSpace > 0 then
              (let (rest, p) = read_chunks cs sz (i + 1) 0 (nRead - iSpace) in (copied @ rest, p))
            else (copied, Some (i + 1)))
         else (copied, None))"
  by pat_completeness auto
termination by (relation "measure (\<lambda>(cs, sz, i, off, n). length cs - i)") auto

declare read_chunks.simps [simp del]

definition memjrnlRead :: "MemJournal \<Rightarrow> nat \<Rightarrow> nat \<Rightarrow> rc \<times> bytes \<times> MemJournal" where
  "memjrnlRead p iAmt iOfst =
     (if iAmt + iOfst > iOffset (endpoint p) then (SQLITE_IOERR_SHORT_READ, [], p)
      else
        let start = (if iOffset (readpoint p) \<noteq> iOfst \<or> iOfst = 0
                     then seek_chunk (length (chunks p)) (nChunkSize p) iOfst 0 0
                     else the (pChunk (readpoint p)));
            (out, stop) = read_chunks (chunks p) (nChunkSize p) start (iOfst mod nChunkSize p) iAmt
        in (SQLITE_OK, out,
            p\<lparr>readpoint := \<lparr>iOffset = (if stop \<noteq> None then iOfst + iAmt else 0), pChunk = stop\<rparr>\<rparr>))"

section \<open>Writing\<close>

definition overwrite :: "nat \<Rightarrow> 'a list \<Rightarrow> 'a list \<Rightarrow> 'a list" where
  "overwrite off new old = take off old @ new @ drop (off + length new) old"

text \<open>The loop that appends; the chunk size is positive in every open journal.\<close>

function append_loop :: "(nat \<Rightarrow> bytes option) \<Rightarrow> bytes \<Rightarrow> MemJournal \<Rightarrow> rc \<times> MemJournal" where
  "append_loop malloc zWrite p =
     (if zWrite = [] \<or> nChunkSize p = 0 then (SQLITE_OK, p)
      else
        let iChunkOffset = iOffset (endpoint p) mod nChunkSize p;
            iSpace = min (length zWrite) (nChunkSize p - iChunkOffset);
            p' = (if iChunkOffset = 0 then
                    (case malloc (length (chunks p)) of
                       None \<Rightarrow> None
                     | Some new \<Rightarrow> Some (p\<lparr>chunks := chunks p @ [new],
                         endpoint := (endpoint p)\<lparr>pChunk := Some (length (chunks p))\<rparr>\<rparr>))
                  else Some p)
        in case p' of
             None \<Rightarrow> (SQLITE_IOERR_NOMEM, p)
           | Some q \<Rightarrow>
               let i = the (pChunk (endpoint q))
               in append_loop malloc (drop iSpace zWrite)
                    (q\<lparr>chunks := (chunks q)[i := overwrite iChunkOffset (take iSpace zWrite) (chunks q ! i)],
                       endpoint := (endpoint q)\<lparr>iOffset := iOffset (endpoint q) + iSpace\<rparr>\<rparr>))"
  by pat_completeness auto
termination
  by (relation "measure (\<lambda>(m, z, p). length z)") auto

declare append_loop.simps [simp del]

fun flush_chunks :: "('f \<Rightarrow> bytes \<Rightarrow> nat \<Rightarrow> rc \<times> 'f) \<Rightarrow> nat \<Rightarrow> bytes list \<Rightarrow> nat \<Rightarrow> nat \<Rightarrow> 'f \<Rightarrow> rc \<times> 'f" where
  "flush_chunks os_write end_offset [] nChunk iOff f = (SQLITE_OK, f)"
| "flush_chunks os_write end_offset (c # cs) nChunk iOff f =
     (let nChunk = (if iOff + nChunk > end_offset then end_offset - iOff else nChunk);
          (rc, f) = os_write f (take nChunk c) iOff
      in if rc \<noteq> SQLITE_OK then (rc, f)
         else flush_chunks os_write end_offset cs nChunk (iOff + nChunk) f)"

text \<open>When the file cannot be made, the journal stays in memory as it was.\<close>

definition memjrnlCreateFile ::
    "(rc \<times> 'f) \<Rightarrow> ('f \<Rightarrow> bytes \<Rightarrow> nat \<Rightarrow> rc \<times> 'f) \<Rightarrow> MemJournal \<Rightarrow> rc \<times> 'f journal" where
  "memjrnlCreateFile os_open os_write p =
     (let (rc, f) = os_open;
          (rc, f) = (if rc = SQLITE_OK
                     then flush_chunks os_write (iOffset (endpoint p)) (chunks p) (nChunkSize p) 0 f
                     else (rc, f))
      in if rc \<noteq> SQLITE_OK then (rc, In_memory p) else (rc, Real f))"

definition memjrnlWrite ::
    "(nat \<Rightarrow> bytes option) \<Rightarrow> (rc \<times> 'f) \<Rightarrow> ('f \<Rightarrow> bytes \<Rightarrow> nat \<Rightarrow> rc \<times> 'f)
       \<Rightarrow> MemJournal \<Rightarrow> bytes \<Rightarrow> nat \<Rightarrow> rc \<times> 'f journal" where
  "memjrnlWrite malloc os_open os_write p zBuf iOfst =
     (if nSpill p > 0 \<and> int (length zBuf + iOfst) > nSpill p then
        (case memjrnlCreateFile os_open os_write p of
           (rc, Real f) \<Rightarrow> (let (rc, f) = os_write f zBuf iOfst in (rc, Real f))
         | (rc, In_memory q) \<Rightarrow> (rc, In_memory q))
      else if iOfst = 0 \<and> chunks p \<noteq> [] then
        (SQLITE_OK, In_memory (p\<lparr>chunks := (chunks p)[0 := overwrite 0 zBuf (chunks p ! 0)]\<rparr>))
      else
        (case append_loop malloc zBuf p of
           (SQLITE_OK, q) \<Rightarrow> (SQLITE_OK, In_memory (q\<lparr>nSize := length zBuf + iOfst\<rparr>))
         | (rc, q) \<Rightarrow> (rc, In_memory q)))"

section \<open>The other operations\<close>

definition memjrnlTruncate :: "MemJournal \<Rightarrow> nat \<Rightarrow> rc \<times> MemJournal" where
  "memjrnlTruncate p sz =
     (SQLITE_OK,
      if sz = 0 then
        p\<lparr>chunks := [], nSize := 0, endpoint := \<lparr>iOffset = 0, pChunk = None\<rparr>,
          readpoint := \<lparr>iOffset = 0, pChunk = None\<rparr>\<rparr>
      else p)"

definition memjrnlClose :: "MemJournal \<Rightarrow> rc \<times> MemJournal" where
  "memjrnlClose p = (SQLITE_OK, p\<lparr>chunks := []\<rparr>)"

definition memjrnlSync :: "MemJournal \<Rightarrow> rc" where "memjrnlSync p = SQLITE_OK"

definition memjrnlFileSize :: "MemJournal \<Rightarrow> rc \<times> nat" where
  "memjrnlFileSize p = (SQLITE_OK, iOffset (endpoint p))"

text \<open>A \<open>FileChunk\<close> has 16 bytes, 8 of which are content.\<close>

definition sqlite3JournalOpen :: "(rc \<times> 'f) \<Rightarrow> bool \<Rightarrow> int \<Rightarrow> rc \<times> 'f journal" where
  "sqlite3JournalOpen os_open main spill =
     (if spill = 0 then (let (rc, f) = os_open in (rc, Real f))
      else (SQLITE_OK, In_memory
        \<lparr>nChunkSize = (if spill > 0 then nat spill else 8 + 1024 - 16), nSpill = spill, nSize = 0, chunks = [],
         endpoint = \<lparr>iOffset = 0, pChunk = None\<rparr>, readpoint = \<lparr>iOffset = 0, pChunk = None\<rparr>, main_journal = main\<rparr>))"

definition sqlite3JournalCreate ::
    "(rc \<times> 'f) \<Rightarrow> ('f \<Rightarrow> bytes \<Rightarrow> nat \<Rightarrow> rc \<times> 'f) \<Rightarrow> 'f journal \<Rightarrow> rc \<times> 'f journal" where
  "sqlite3JournalCreate os_open os_write j =
     (case j of
        In_memory p \<Rightarrow>
          if nSpill p > 0 \<or> main_journal p then memjrnlCreateFile os_open os_write p else (SQLITE_OK, j)
      | Real f \<Rightarrow> (SQLITE_OK, j))"

definition sqlite3JournalIsInMemory :: "'f journal \<Rightarrow> bool" where
  "sqlite3JournalIsInMemory j = (case j of In_memory p \<Rightarrow> True | Real f \<Rightarrow> False)"

section \<open>The file in the chunks\<close>

definition content :: "MemJournal \<Rightarrow> bytes" where
  "content p = take (iOffset (endpoint p)) (concat (chunks p))"

text \<open>There are as many chunks as the length needs; the pointer of the end is to the last one, that of
  the last read to the chunk its offset is in.\<close>

definition journal_ok :: "MemJournal \<Rightarrow> bool" where
  "journal_ok p \<longleftrightarrow> 0 < nChunkSize p \<and> (\<forall>c \<in> set (chunks p). length c = nChunkSize p)
     \<and> iOffset (endpoint p) \<le> nChunkSize p * length (chunks p)
     \<and> nChunkSize p * length (chunks p) < iOffset (endpoint p) + nChunkSize p
     \<and> pChunk (endpoint p) = (if chunks p = [] then None else Some (length (chunks p) - 1))
     \<and> (iOffset (readpoint p) = 0 \<or> (iOffset (readpoint p) div nChunkSize p < length (chunks p)
          \<and> pChunk (readpoint p) = Some (iOffset (readpoint p) div nChunkSize p)))"

lemma length_concat_same: "\<forall>c \<in> set cs. length c = n \<Longrightarrow> length (concat cs) = n * length cs"
  by (induction cs) auto

lemma length_content: "journal_ok p \<Longrightarrow> length (content p) = iOffset (endpoint p)"
  using length_concat_same[of "chunks p" "nChunkSize p"] by (auto simp: journal_ok_def content_def)

lemma drop_concat_same: "\<forall>c \<in> set cs. length c = n \<Longrightarrow> drop (n * i) (concat cs) = concat (drop i cs)"
proof (induction cs arbitrary: i)
  case (Cons c cs)
  then show ?case by (cases i) auto
qed simp

lemma drop_concat_chunk:
  assumes "\<forall>c \<in> set cs. length c = n" "i < length cs" "off \<le> n"
  shows "drop (n * i + off) (concat cs) = drop off (cs ! i) @ concat (drop (i + 1) cs)"
proof -
  have "drop (n * i + off) (concat cs) = drop off (concat (drop i cs))"
    using drop_concat_same[OF assms(1), of i] by (metis add.commute drop_drop)
  moreover have "drop i cs = cs ! i # drop (i + 1) cs" using assms(2) by (simp add: Cons_nth_drop_Suc)
  moreover have "length (cs ! i) = n" using assms(1,2) by simp
  ultimately show ?thesis using assms(3) by simp
qed

lemma seek_chunk_div:
  assumes "0 < sz"
  shows "i * sz \<le> ofst \<Longrightarrow> i \<le> n \<Longrightarrow> ofst div sz < n \<Longrightarrow> seek_chunk n sz ofst i (i * sz) = ofst div sz"
proof (induction "n - i" arbitrary: i)
  case 0
  then have "n * sz \<le> ofst" by simp
  then have "n \<le> ofst div sz" using assms by (simp add: less_eq_div_iff_mult_less_eq)
  then show ?case using 0 by simp
next
  case (Suc m)
  show ?case
  proof (cases "i * sz + sz \<le> ofst")
    case True
    then have "seek_chunk n sz ofst (i + 1) ((i + 1) * sz) = ofst div sz"
      using Suc by (intro Suc.hyps(1)) auto
    moreover have "i < n" using Suc.hyps(2) by simp
    ultimately show ?thesis using True Suc.hyps(2) by (subst seek_chunk.simps) (simp add: add.commute)
  next
    case False
    then have "ofst div sz = i" using Suc.prems(1) assms by (intro div_nat_eqI) (simp_all add: algebra_simps)
    then show ?thesis using False by (subst seek_chunk.simps) simp
  qed
qed

lemma read_chunks_spec:
  assumes "\<forall>c \<in> set cs. length c = sz"
  shows "i < length cs \<Longrightarrow> off < sz \<Longrightarrow> sz * i + off + n \<le> sz * length cs \<Longrightarrow> 0 < n \<Longrightarrow>
    read_chunks cs sz i off n =
      (take n (drop (sz * i + off) (concat cs)),
       if (sz * i + off + n) div sz < length cs then Some ((sz * i + off + n) div sz) else None)"
proof (induction "length cs - i" arbitrary: i off n rule: less_induct)
  case less
  let ?c = "cs ! i"
  have c: "length ?c = sz" using assms less.prems(1) by simp
  have d: "drop (sz * i + off) (concat cs) = drop off ?c @ concat (drop (i + 1) cs)"
    using drop_concat_chunk[OF assms less.prems(1), of off] less.prems(2) by simp
  show ?case
  proof (cases "n < sz - off")
    case True
    then have "(sz * i + off + n) div sz = i" using less.prems(2) by (intro div_nat_eqI) (simp_all add: algebra_simps)
    then show ?thesis using True c less.prems(1) by (subst read_chunks.simps) (simp add: d Let_def)
  next
    case False
    have eq: "sz * i + off + n = sz * (i + 1) + 0 + (n - (sz - off))" using False less.prems(2) by simp
    show ?thesis
    proof (cases "i + 1 < length cs \<and> n - (sz - off) > 0")
      case True
      then have "read_chunks cs sz (i + 1) 0 (n - (sz - off)) =
          (take (n - (sz - off)) (drop (sz * (i + 1) + 0) (concat cs)),
           if (sz * (i + 1) + 0 + (n - (sz - off))) div sz < length cs
           then Some ((sz * (i + 1) + 0 + (n - (sz - off))) div sz) else None)"
        using less.prems by (intro less.hyps) (auto simp: eq[symmetric])
      then show ?thesis
        using False True c unfolding eq[symmetric] d
        by (subst read_chunks.simps) (simp add: Let_def drop_concat_same[OF assms, of "i + 1", simplified])
    next
      case stop: False
      have "sz > 0" using less.prems(2) by simp
      have "n \<le> sz - off"
      proof (cases "i + 1 < length cs")
        case False
        then have "length cs = i + 1" using less.prems(1) by simp
        then show ?thesis using less.prems(3) by simp
      qed (use stop in simp)
      then have "n = sz - off" using False by simp
      moreover from this have "(sz * i + off + n) div sz = i + 1" using less.prems(2) eq \<open>sz > 0\<close> by simp
      ultimately show ?thesis using False stop c unfolding d by (subst read_chunks.simps) (auto simp: Let_def)
    qed
  qed
qed

lemma concat_overwrite:
  "r \<le> length l \<Longrightarrow> take (length (concat bl) + r + length d) (concat (bl @ [overwrite r d l])) = concat bl @ take r l @ d"
  by (simp add: overwrite_def)

lemma append_piece:
  assumes "0 < nChunkSize q" "chunks q = bl @ [l]" "\<forall>c \<in> set (chunks q). length c = nChunkSize q"
    "iOffset (endpoint q) = nChunkSize q * length bl + r" "pChunk (endpoint q) = Some (length bl)"
    "d \<noteq> []" "r + length d \<le> nChunkSize q"
    "iOffset (readpoint q) = 0 \<or> (iOffset (readpoint q) div nChunkSize q < length (chunks q)
          \<and> pChunk (readpoint q) = Some (iOffset (readpoint q) div nChunkSize q))"
  defines "q' \<equiv> q\<lparr>chunks := (chunks q)[length bl := overwrite r d (chunks q ! length bl)],
      endpoint := (endpoint q)\<lparr>iOffset := iOffset (endpoint q) + length d\<rparr>\<rparr>"
  shows "journal_ok q'" "content q' = concat bl @ take r l @ d"
proof -
  have l: "length l = nChunkSize q" "length (concat bl) = nChunkSize q * length bl"
    using assms(3) length_concat_same[of bl "nChunkSize q"] by (auto simp: assms(2))
  have q': "chunks q' = bl @ [overwrite r d l]" "iOffset (endpoint q') = nChunkSize q * length bl + r + length d"
    "pChunk (endpoint q') = Some (length bl)" "nChunkSize q' = nChunkSize q" "readpoint q' = readpoint q"
    by (simp_all add: q'_def assms(2,4,5))
  have "length (overwrite r d l) = nChunkSize q" using l(1) assms(7) by (simp add: overwrite_def)
  then have "\<forall>c \<in> set (chunks q'). length c = nChunkSize q" using assms(2,3) by (simp add: q'(1))
  moreover have "0 < length d" using assms(6) by simp
  ultimately show "journal_ok q'"
    unfolding journal_ok_def q' using assms(1,7,8) by (simp add: assms(2))
  have "take (length (concat bl) + r + length d) (concat (bl @ [overwrite r d l])) = concat bl @ take r l @ d"
    by (rule concat_overwrite) (use l(1) assms(7) in simp)
  then show "content q' = concat bl @ take r l @ d" by (simp add: content_def q' l(2))
qed

lemma journal_last_chunk:
  assumes "journal_ok p" "iOffset (endpoint p) mod nChunkSize p \<noteq> 0"
  obtains bl l where "chunks p = bl @ [l]"
    "iOffset (endpoint p) = nChunkSize p * length bl + iOffset (endpoint p) mod nChunkSize p"
    "content p = concat bl @ take (iOffset (endpoint p) mod nChunkSize p) l"
proof (cases "chunks p" rule: rev_cases)
  case Nil
  then show ?thesis using assms by (auto simp: journal_ok_def)
next
  case (snoc bl l)
  let ?n = "nChunkSize p" and ?e = "iOffset (endpoint p)"
  have b: "?n * length bl < ?e" "?e \<le> ?n * length bl + ?n" "0 < ?n" "\<forall>c \<in> set bl. length c = ?n" "length l = ?n"
    using assms(1) unfolding journal_ok_def snoc by auto
  have "?e \<noteq> ?n * length bl + ?n" using assms(2) by auto
  then have "?e div ?n = length bl" using b by (intro div_nat_eqI) (simp_all add: algebra_simps)
  then have e: "?e = ?n * length bl + ?e mod ?n" using mult_div_mod_eq[of ?n ?e] by simp
  have "content p = take (length (concat bl) + ?e mod ?n) (concat bl @ l)"
    using e length_concat_same[OF b(4)] by (simp add: content_def snoc)
  then have "content p = concat bl @ take (?e mod ?n) l" by simp
  then show ?thesis using that[OF snoc e] by simp
qed

lemma journal_full_chunks:
  assumes "journal_ok p" "iOffset (endpoint p) mod nChunkSize p = 0"
  shows "iOffset (endpoint p) = nChunkSize p * length (chunks p)" "content p = concat (chunks p)"
proof -
  let ?n = "nChunkSize p" and ?e = "iOffset (endpoint p)"
  have b: "?e \<le> ?n * length (chunks p)" "?n * length (chunks p) < ?e + ?n" "\<forall>c \<in> set (chunks p). length c = ?n"
    using assms(1) by (auto simp: journal_ok_def)
  obtain k where k: "?e = ?n * k" using assms(2) by auto
  then have "?n * k \<le> ?n * length (chunks p)" "?n * length (chunks p) < ?n * (k + 1)" "0 < ?n"
    using b assms(1) by (simp_all add: journal_ok_def)
  then have "k = length (chunks p)" unfolding mult_le_cancel1 mult_less_cancel1 by simp
  then show "?e = ?n * length (chunks p)" using k by simp
  then show "content p = concat (chunks p)" using length_concat_same[OF b(3)] by (simp add: content_def)
qed

definition same_settings :: "MemJournal \<Rightarrow> MemJournal \<Rightarrow> bool" where
  "same_settings p q \<longleftrightarrow> nChunkSize q = nChunkSize p \<and> nSpill q = nSpill p \<and> nSize q = nSize p \<and> main_journal q = main_journal p"

lemma append_loop_spec:
  assumes "\<And>i c. malloc i = Some c \<Longrightarrow> length c = n"
  shows "journal_ok p \<Longrightarrow> nChunkSize p = n \<Longrightarrow>
    let (rc, q) = append_loop malloc z p
    in journal_ok q \<and> same_settings p q
       \<and> (rc = SQLITE_OK \<and> content q = content p @ z
          \<or> rc = SQLITE_IOERR_NOMEM \<and> (\<exists>i. malloc i = None) \<and> (\<exists>k < length z. content q = content p @ take k z))"
proof (induction "length z" arbitrary: z p rule: less_induct)
  case less
  let ?e = "iOffset (endpoint p)"
  let ?r = "?e mod n"
  let ?s = "min (length z) (n - ?r)"
  have n: "0 < n" "?r < n" using less.prems by (auto simp: journal_ok_def)
  have rp: "iOffset (readpoint p) = 0 \<or> (iOffset (readpoint p) div nChunkSize p < length (chunks p)
          \<and> pChunk (readpoint p) = Some (iOffset (readpoint p) div nChunkSize p))"
    using less.prems(1) by (simp add: journal_ok_def)
  have len: "\<forall>c \<in> set (chunks p). length c = n" using less.prems by (simp add: journal_ok_def)
  show ?case
  proof (cases "z = []")
    case True
    then show ?thesis using less.prems(1) by (subst append_loop.simps) (simp add: same_settings_def)
  next
    case False
    have go_on: ?thesis
      if q: "append_loop malloc z p = append_loop malloc (drop ?s z) q" "journal_ok q" "same_settings p q"
        "content q = content p @ take ?s z" for q
    proof -
      have s: "length (drop ?s z) < length z" "nChunkSize q = n" using False n(2) q(3) less.prems(2) by (auto simp: same_settings_def)
      obtain rc q' where r: "append_loop malloc (drop ?s z) q = (rc, q')" by (rule prod.exhaust)
      have IH: "journal_ok q'" "same_settings q q'"
        "rc = SQLITE_OK \<and> content q' = content q @ drop ?s z
          \<or> rc = SQLITE_IOERR_NOMEM \<and> (\<exists>i. malloc i = None) \<and> (\<exists>k < length (drop ?s z). content q' = content q @ take k (drop ?s z))"
        using less.hyps[OF s(1) q(2) s(2)] by (simp_all add: r Let_def)
      have "content q @ drop ?s z = content p @ z" unfolding q(4) by (simp only: append_assoc append_take_drop_id)
      moreover have "content q @ take k (drop ?s z) = content p @ take (?s + k) z" for k
        unfolding q(4) by (simp only: append_assoc take_add)
      moreover have "?s + k < length z" if "k < length (drop ?s z)" for k using that by simp
      ultimately show ?thesis using IH q(3) unfolding q(1) r Let_def prod.case same_settings_def by metis
    qed
    show ?thesis
    proof (cases "?r = 0")
      case r: False
      then have "iOffset (endpoint p) mod nChunkSize p \<noteq> 0" using less.prems(2) by simp
      from journal_last_chunk[OF less.prems(1) this] obtain bl l where b: "chunks p = bl @ [l]" "?e = n * length bl + ?r"
          "content p = concat bl @ take ?r l" unfolding less.prems(2) by blast
      have end_chunk: "pChunk (endpoint p) = Some (length bl)" using less.prems(1) b(1) by (simp add: journal_ok_def)
      let ?q = "p\<lparr>chunks := (chunks p)[length bl := overwrite ?r (take ?s z) (chunks p ! length bl)],
          endpoint := (endpoint p)\<lparr>iOffset := ?e + length (take ?s z)\<rparr>\<rparr>"
      have fits: "take ?s z \<noteq> []" "?r + length (take ?s z) \<le> n" using False n(2) by auto
      have "journal_ok ?q" "content ?q = concat bl @ take ?r l @ take ?s z"
        using append_piece[of p bl l ?r "take ?s z"] n len b end_chunk fits rp less.prems(2) by simp_all
      moreover have "append_loop malloc z p = append_loop malloc (drop ?s z) ?q"
        using False r n end_chunk less.prems(2) by (subst append_loop.simps) (simp add: Let_def min_def)
      ultimately show ?thesis using b(3) by (intro go_on[of ?q]) (simp_all add: same_settings_def)
    next
      case r: True
      note full = journal_full_chunks[OF less.prems(1), unfolded less.prems(2), OF r]
      show ?thesis
      proof (cases "malloc (length (chunks p))")
        case None
        then have "append_loop malloc z p = (SQLITE_IOERR_NOMEM, p)"
          using False r n less.prems(2) by (subst append_loop.simps) simp
        then show ?thesis using None less.prems(1) False by (auto simp: same_settings_def)
      next
        case (Some new)
        let ?p = "p\<lparr>chunks := chunks p @ [new], endpoint := (endpoint p)\<lparr>pChunk := Some (length (chunks p))\<rparr>\<rparr>"
        let ?q = "?p\<lparr>chunks := (chunks ?p)[length (chunks p) := overwrite 0 (take ?s z) (chunks ?p ! length (chunks p))],
            endpoint := (endpoint ?p)\<lparr>iOffset := iOffset (endpoint ?p) + length (take ?s z)\<rparr>\<rparr>"
        have rp': "iOffset (readpoint ?p) = 0 \<or> (iOffset (readpoint ?p) div nChunkSize ?p < length (chunks ?p)
          \<and> pChunk (readpoint ?p) = Some (iOffset (readpoint ?p) div nChunkSize ?p))" using rp by auto
        have fits: "take ?s z \<noteq> []" "0 + length (take ?s z) \<le> n" using False n(2) r by auto
        have "journal_ok ?q" "content ?q = concat (chunks p) @ take 0 new @ take ?s z"
          by (rule append_piece[of ?p "chunks p" new 0 "take ?s z"];
              use n len fits full(1) rp' less.prems(2) assms[OF Some] in simp)+
        moreover have "append_loop malloc z p = append_loop malloc (drop ?s z) ?q"
          using False r n Some less.prems(2) by (subst append_loop.simps) (simp add: Let_def min_def)
        ultimately show ?thesis using full(2) by (intro go_on[of ?q]) (simp_all add: same_settings_def)
      qed
    qed
  qed
qed

section \<open>Moving the journal to disk\<close>

text \<open>What is relied on of the VFS: a write that succeeds writes the bytes at the offset and leaves the rest
  of the file. \<open>file\<close> is the content of the file. A file that is opened may hold bytes already: the
  journals are opened to be created if need be, and not exclusively.\<close>

definition vfs_writes :: "('f \<Rightarrow> bytes) \<Rightarrow> ('f \<Rightarrow> bytes \<Rightarrow> nat \<Rightarrow> rc \<times> 'f) \<Rightarrow> bool" where
  "vfs_writes file os_write \<longleftrightarrow>
     (\<forall>f d off f'. os_write f d off = (SQLITE_OK, f') \<longrightarrow> file f' = write_at 0 off d (file f))"

text \<open>Opening or some write of the VFS returned an error.\<close>

definition vfs_failed :: "(rc \<times> 'f) \<Rightarrow> ('f \<Rightarrow> bytes \<Rightarrow> nat \<Rightarrow> rc \<times> 'f) \<Rightarrow> bool" where
  "vfs_failed os_open os_write \<longleftrightarrow> fst os_open \<noteq> SQLITE_OK \<or> (\<exists>f d off. fst (os_write f d off) \<noteq> SQLITE_OK)"

lemma vfs_append:
  assumes "vfs_writes file os_write" "os_write f d (length x) = (SQLITE_OK, f')" "file f = overwrite 0 x old"
  shows "file f' = overwrite 0 (x @ d) old"
  using assms by (simp add: vfs_writes_def write_at_def overwrite_def add.commute)

lemma flush_chunks_error: "fst (flush_chunks os_write e cs n iOff f) \<noteq> SQLITE_OK \<Longrightarrow> vfs_failed os_open os_write"
proof (induction cs arbitrary: n iOff f)
  case (Cons c cs)
  let ?m = "if iOff + n > e then e - iOff else n"
  obtain rc g where w: "os_write f (take ?m c) iOff = (rc, g)" by (rule prod.exhaust)
  show ?case
  proof (cases "rc = SQLITE_OK")
    case True
    then have "fst (flush_chunks os_write e cs ?m (iOff + ?m) g) \<noteq> SQLITE_OK"
      using Cons.prems w by (simp add: Let_def split: if_splits)
    then show ?thesis by (rule Cons.IH)
  next
    case False
    then show ?thesis using w unfolding vfs_failed_def by (metis fst_conv)
  qed
qed simp

lemma flush_chunks_spec:
  assumes "vfs_writes file os_write" "0 < n"
  shows "\<forall>c \<in> set cs. length c = n \<Longrightarrow> file f = overwrite 0 x old \<Longrightarrow> length x = iOff \<Longrightarrow> iOff \<le> e \<Longrightarrow>
    e \<le> iOff + n * length cs \<Longrightarrow> n * length cs < e - iOff + n \<Longrightarrow>
    flush_chunks os_write e cs n iOff f = (SQLITE_OK, f') \<Longrightarrow>
    file f' = overwrite 0 (x @ take (e - iOff) (concat cs)) old"
proof (induction cs arbitrary: iOff f x)
  case (Cons c cs)
  let ?m = "if iOff + n > e then e - iOff else n"
  obtain rc g where w: "os_write f (take ?m c) iOff = (rc, g)" by (rule prod.exhaust)
  then have ok: "rc = SQLITE_OK" using Cons.prems(7) by (auto simp: Let_def split: if_splits)
  have g: "file g = overwrite 0 (x @ take ?m c) old"
    by (rule vfs_append[OF assms(1) _ Cons.prems(2)]) (use w ok Cons.prems(3) in simp)
  have rest: "flush_chunks os_write e cs ?m (iOff + ?m) g = (SQLITE_OK, f')"
    using Cons.prems(7) w ok by (simp add: Let_def split: if_splits)
  have c: "length c = n" using Cons.prems(1) by simp
  show ?case
  proof (cases "iOff + n > e")
    case True
    then have "e - iOff < n" using Cons.prems(4) by linarith
    moreover have "n + n * length cs < e - iOff + n" using Cons.prems(6) by (simp only: length_Cons mult_Suc_right)
    ultimately have "n * length cs < n * 1" by linarith
    then have "cs = []" unfolding mult_less_cancel1 by simp
    then show ?thesis using rest g True by simp
  next
    case False
    have "file f' = overwrite 0 ((x @ take ?m c) @ take (e - (iOff + n)) (concat cs)) old"
      by (rule Cons.IH[OF _ g]) (use Cons.prems False c rest in auto)
    then show ?thesis using c False by simp
  qed
qed simp

lemma CreateFile_spec:
  assumes "journal_ok p" "vfs_writes file os_write"
  shows "case memjrnlCreateFile os_open os_write p of
      (rc, In_memory q) \<Rightarrow> q = p \<and> rc \<noteq> SQLITE_OK \<and> vfs_failed os_open os_write
    | (rc, Real f) \<Rightarrow> rc = SQLITE_OK \<and> file f = overwrite 0 (content p) (file (snd os_open))"
proof -
  obtain rc f where o: "os_open = (rc, f)" by (rule prod.exhaust)
  obtain rc' f' where w: "flush_chunks os_write (iOffset (endpoint p)) (chunks p) (nChunkSize p) 0 f = (rc', f')"
    by (rule prod.exhaust)
  have "file f' = overwrite 0 (content p) (file f)" if "rc' = SQLITE_OK"
    using flush_chunks_spec[OF assms(2), of "nChunkSize p" "chunks p" f "[]" "file f" 0 "iOffset (endpoint p)" f']
      assms(1) w that by (simp add: journal_ok_def content_def overwrite_def)
  moreover have "vfs_failed os_open os_write" if "rc \<noteq> SQLITE_OK \<or> rc' \<noteq> SQLITE_OK"
    using that flush_chunks_error[of os_write _ _ _ _ f os_open] w by (metis fst_conv o vfs_failed_def)
  ultimately show ?thesis by (auto simp: memjrnlCreateFile_def o w)
qed

section \<open>Properties\<close>

lemma read_spec:
  assumes "journal_ok p" "0 < iAmt" "iAmt + iOfst \<le> iOffset (endpoint p)"
  shows "case memjrnlRead p iAmt iOfst of (rc, out, q) \<Rightarrow>
    rc = SQLITE_OK \<and> out = take iAmt (drop iOfst (content p)) \<and> journal_ok q \<and> content q = content p"
proof -
  let ?n = "nChunkSize p" and ?i = "iOfst div nChunkSize p"
  have n: "0 < ?n" "\<forall>c \<in> set (chunks p). length c = ?n" "iOffset (endpoint p) \<le> ?n * length (chunks p)"
    using assms(1) by (auto simp: journal_ok_def)
  have split: "?n * ?i + iOfst mod ?n = iOfst" by simp
  have "iOfst < ?n * length (chunks p)" using assms(2,3) n(3) by simp
  then have i: "?i < length (chunks p)" using n(1) by (simp add: less_mult_imp_div_less mult.commute)
  have start: "(if iOffset (readpoint p) \<noteq> iOfst \<or> iOfst = 0 then seek_chunk (length (chunks p)) ?n iOfst 0 0
      else the (pChunk (readpoint p))) = ?i"
  proof (cases "iOffset (readpoint p) \<noteq> iOfst \<or> iOfst = 0")
    case True
    then show ?thesis using seek_chunk_div[OF n(1), of 0 iOfst "length (chunks p)"] i by simp
  next
    case False
    then show ?thesis using assms(1) by (auto simp: journal_ok_def)
  qed
  have r: "read_chunks (chunks p) ?n ?i (iOfst mod ?n) iAmt =
    (take iAmt (drop iOfst (concat (chunks p))),
     if (iOfst + iAmt) div ?n < length (chunks p) then Some ((iOfst + iAmt) div ?n) else None)"
    using read_chunks_spec[OF n(2) i, of "iOfst mod ?n" iAmt] n assms(2,3) unfolding split by simp
  have "take iAmt (drop iOfst (content p)) = take iAmt (drop iOfst (concat (chunks p)))"
    using assms(3) by (simp add: content_def drop_take min_absorb1)
  then show ?thesis
    using assms(1,3) unfolding memjrnlRead_def Let_def start r by (simp add: journal_ok_def content_def)
qed

lemma overwrite_spec:
  assumes "journal_ok p" "chunks p \<noteq> []" "length z \<le> nChunkSize p" "length z \<le> iOffset (endpoint p)"
  defines "q \<equiv> p\<lparr>chunks := (chunks p)[0 := overwrite 0 z (chunks p ! 0)]\<rparr>"
  shows "journal_ok q" "content q = overwrite 0 z (content p)"
proof -
  obtain c cs where c: "chunks p = c # cs" using assms(2) by (cases "chunks p") auto
  have l: "length c = nChunkSize p" using assms(1) by (simp add: journal_ok_def c)
  then have "length (overwrite 0 z c) = nChunkSize p" using assms(3) by (simp add: overwrite_def)
  then show "journal_ok q" using assms(1) by (simp add: journal_ok_def q_def c)
  show "content q = overwrite 0 z (content p)"
    using l assms(3,4) by (simp add: content_def q_def c overwrite_def drop_take)
qed

text \<open>C31. A journal in memory is a file, whatever the size of its chunks. Opening one for memory gives the empty
  file. Reads inside the file give its bytes, also when they go on where the last one ended; a read that
  leaves the file is a short read. The size is the length, truncating to zero empties the file.\<close>

theorem memory_journal_reads_a_file:
  assumes "journal_ok p" "0 < iAmt"
  shows "(spill \<noteq> 0 \<longrightarrow> (case sqlite3JournalOpen os_open main spill of
        (rc, In_memory q) \<Rightarrow> rc = SQLITE_OK \<and> journal_ok q \<and> content q = [] | (rc, Real f) \<Rightarrow> False))
    \<and> (case memjrnlRead p iAmt iOfst of (rc, out, q) \<Rightarrow>
        journal_ok q \<and> content q = content p
        \<and> (if iAmt + iOfst \<le> length (content p) then rc = SQLITE_OK \<and> out = take iAmt (drop iOfst (content p))
           else rc = SQLITE_IOERR_SHORT_READ))
    \<and> memjrnlFileSize p = (SQLITE_OK, length (content p))
    \<and> (case memjrnlTruncate p 0 of (rc, q) \<Rightarrow> rc = SQLITE_OK \<and> journal_ok q \<and> content q = [])"
proof (intro conjI impI)
  assume "spill \<noteq> 0"
  then show "case sqlite3JournalOpen os_open main spill of
      (rc, In_memory q) \<Rightarrow> rc = SQLITE_OK \<and> journal_ok q \<and> content q = [] | (rc, Real f) \<Rightarrow> False"
    by (simp add: sqlite3JournalOpen_def journal_ok_def content_def)
next
  show "case memjrnlRead p iAmt iOfst of (rc, out, q) \<Rightarrow>
        journal_ok q \<and> content q = content p
        \<and> (if iAmt + iOfst \<le> length (content p) then rc = SQLITE_OK \<and> out = take iAmt (drop iOfst (content p))
           else rc = SQLITE_IOERR_SHORT_READ)"
  proof (cases "iAmt + iOfst \<le> iOffset (endpoint p)")
    case True
    then show ?thesis using read_spec[OF assms True] by (auto simp: length_content[OF assms(1)])
  next
    case False
    then show ?thesis using assms(1) by (simp add: length_content memjrnlRead_def)
  qed
next
  show "memjrnlFileSize p = (SQLITE_OK, length (content p))"
    by (simp add: memjrnlFileSize_def length_content[OF assms(1)])
  show "case memjrnlTruncate p 0 of (rc, q) \<Rightarrow> rc = SQLITE_OK \<and> journal_ok q \<and> content q = []"
    using assms(1) by (simp add: memjrnlTruncate_def journal_ok_def content_def)
qed

theorem memory_journal_reads_a_file_witness:
  "fst (snd (memjrnlRead \<lparr>nChunkSize = 2, nSpill = -1, nSize = 3, chunks = [[1, 2], [3, 0]],
     endpoint = \<lparr>iOffset = 3, pChunk = Some 1\<rparr>, readpoint = \<lparr>iOffset = 0, pChunk = None\<rparr>, main_journal = False\<rparr> 2 1)) = [2, 3]"
proof -
  let ?p = "\<lparr>nChunkSize = 2, nSpill = -1, nSize = 3, chunks = [[1, 2], [3, 0]],
     endpoint = \<lparr>iOffset = 3, pChunk = Some 1\<rparr>, readpoint = \<lparr>iOffset = 0, pChunk = None\<rparr>, main_journal = False\<rparr>"
  have ok: "journal_ok ?p" by (simp add: journal_ok_def)
  show ?thesis using memory_journal_reads_a_file[OF ok, of 2 0 "(SQLITE_OK, ())" False 1] by (auto simp: content_def)
qed

text \<open>C32. Writing to a journal in memory. Bytes appended to it are appended to the file; when the memory for a
  chunk is missing an error is returned and only a beginning of them is there. Bytes written over the
  start of the first chunk replace those there. When the file would grow over the limit it is moved to
  disk, in order and completely, before the bytes are written there: they then stand at the start of the
  opened file, over whatever it held (a longer old file keeps its end). When moving it fails, the journal
  stays in memory unchanged, so that it can still be rolled back. Making the file on request
  (\<open>sqlite3JournalCreate\<close>) moves the bytes the same way, for a journal with a limit and for a main
  journal, and does nothing for the others. An error of these is returned only when the VFS had one.\<close>

theorem memory_journal_writes_a_file:
  assumes "journal_ok p" "\<And>i c. malloc i = Some c \<Longrightarrow> length c = nChunkSize p" "vfs_writes file os_write"
  shows "(let spilt = (nSpill p > 0 \<and> int (length z + length (content p)) > nSpill p)
    in case memjrnlWrite malloc os_open os_write p z (length (content p)) of
        (rc, In_memory q) \<Rightarrow>
          journal_ok q \<and> (rc = SQLITE_OK \<longrightarrow> \<not> spilt \<and> content q = content p @ z)
          \<and> (rc \<noteq> SQLITE_OK \<longrightarrow> (if spilt then q = p \<and> vfs_failed os_open os_write
               else (\<exists>i. malloc i = None) \<and> (\<exists>k < length z. content q = content p @ take k z)))
      | (rc, Real f) \<Rightarrow> spilt
          \<and> (if rc = SQLITE_OK then file f = overwrite 0 (content p @ z) (file (snd os_open))
             else vfs_failed os_open os_write))
    \<and> (\<not> (nSpill p > 0 \<and> int (length z) > nSpill p) \<longrightarrow> chunks p \<noteq> [] \<longrightarrow>
       length z \<le> nChunkSize p \<longrightarrow> length z \<le> length (content p) \<longrightarrow>
      (case memjrnlWrite malloc os_open os_write p z 0 of
        (rc, In_memory q) \<Rightarrow> rc = SQLITE_OK \<and> journal_ok q \<and> content q = overwrite 0 z (content p)
      | (rc, Real f) \<Rightarrow> False))
    \<and> (let wanted = (nSpill p > 0 \<or> main_journal p)
       in case sqlite3JournalCreate os_open os_write (In_memory p) of
        (rc, In_memory q) \<Rightarrow> q = p
          \<and> (if wanted then rc \<noteq> SQLITE_OK \<and> vfs_failed os_open os_write else rc = SQLITE_OK)
      | (rc, Real f) \<Rightarrow> wanted \<and> rc = SQLITE_OK \<and> file f = overwrite 0 (content p) (file (snd os_open)))"
    (is "?append \<and> ?over \<and> ?create")
proof -
  note create = CreateFile_spec[OF assms(1,3), of os_open]
  have empty: "chunks p = []" if "content p = []"
    using assms(1) length_content[OF assms(1)] that by (auto simp: journal_ok_def)
  obtain rc j where c: "memjrnlCreateFile os_open os_write p = (rc, j)" by (rule prod.exhaust)
  have ?append
  proof (cases "nSpill p > 0 \<and> int (length z + length (content p)) > nSpill p")
    case True
    show ?thesis
    proof (cases j)
      case (In_memory q)
      then show ?thesis using True create assms(1) c by (simp add: memjrnlWrite_def)
    next
      case (Real f)
      then have f: "rc = SQLITE_OK" "file f = overwrite 0 (content p) (file (snd os_open))" using create c by auto
      obtain rc' f' where w: "os_write f z (length (content p)) = (rc', f')" by (rule prod.exhaust)
      have "file f' = overwrite 0 (content p @ z) (file (snd os_open))" if "rc' = SQLITE_OK"
        by (rule vfs_append[OF assms(3) w[unfolded that] f(2)])
      moreover have "vfs_failed os_open os_write" if "rc' \<noteq> SQLITE_OK"
        using w that unfolding vfs_failed_def by (metis fst_conv)
      ultimately show ?thesis using True c w by (simp add: memjrnlWrite_def Real)
    qed
  next
    case False
    obtain rc q where a: "append_loop malloc z p = (rc, q)" by (rule prod.exhaust)
    have q: "journal_ok q" "rc = SQLITE_OK \<and> content q = content p @ z
        \<or> rc = SQLITE_IOERR_NOMEM \<and> (\<exists>i. malloc i = None) \<and> (\<exists>k < length z. content q = content p @ take k z)"
    proof -
      have "let (rc, q) = append_loop malloc z p
        in journal_ok q \<and> same_settings p q
         \<and> (rc = SQLITE_OK \<and> content q = content p @ z
          \<or> rc = SQLITE_IOERR_NOMEM \<and> (\<exists>i. malloc i = None) \<and> (\<exists>k < length z. content q = content p @ take k z))"
        by (rule append_loop_spec[OF _ assms(1) refl]) (rule assms(2))
      then show "journal_ok q" "rc = SQLITE_OK \<and> content q = content p @ z
        \<or> rc = SQLITE_IOERR_NOMEM \<and> (\<exists>i. malloc i = None) \<and> (\<exists>k < length z. content q = content p @ take k z)"
        by (simp_all add: a)
    qed
    have w: "memjrnlWrite malloc os_open os_write p z (length (content p)) =
        (case (rc, q) of (SQLITE_OK, q) \<Rightarrow> (SQLITE_OK, In_memory (q\<lparr>nSize := length z + length (content p)\<rparr>))
         | (rc, q) \<Rightarrow> (rc, In_memory q))"
      using False empty unfolding memjrnlWrite_def a by auto
    have s: "journal_ok (q\<lparr>nSize := n\<rparr>)" "content (q\<lparr>nSize := n\<rparr>) = content q" for n
      using q(1) by (simp_all add: journal_ok_def content_def)
    show ?thesis using False q s unfolding w by (auto simp: Let_def)
  qed
  moreover have ?over
    using overwrite_spec[OF assms(1), of z] by (auto simp: memjrnlWrite_def length_content[OF assms(1)])
  moreover have ?create
    using create by (auto simp: sqlite3JournalCreate_def split: prod.splits journal.splits)
  ultimately show ?thesis by blast
qed

theorem memory_journal_writes_a_file_witness:
  "memjrnlWrite (\<lambda>_. Some [0, 0]) (SQLITE_OK, [9, 9, 9, 9]) (\<lambda>f d off. (SQLITE_OK, write_at 0 off d f))
     \<lparr>nChunkSize = 2, nSpill = 2, nSize = 1, chunks = [[1, 0]],
       endpoint = \<lparr>iOffset = 1, pChunk = Some 0\<rparr>, readpoint = \<lparr>iOffset = 0, pChunk = None\<rparr>, main_journal = False\<rparr> [5, 6] 1
   = (SQLITE_OK, Real [1, 5, 6, 9])"
proof -
  let ?p = "\<lparr>nChunkSize = 2, nSpill = 2, nSize = 1, chunks = [[1, 0]],
     endpoint = \<lparr>iOffset = 1, pChunk = Some 0\<rparr>, readpoint = \<lparr>iOffset = 0, pChunk = None\<rparr>, main_journal = False\<rparr>"
  let ?put = "\<lambda>f d off. (SQLITE_OK, write_at (0 :: u8) off d f)"
  have ok: "journal_ok ?p" by (simp add: journal_ok_def)
  have c: "content ?p = [1]" by (simp add: content_def)
  have m: "Some [0, 0] = Some z \<Longrightarrow> length z = nChunkSize ?p" for z :: bytes by auto
  have vfs: "vfs_writes (\<lambda>f. f) ?put" by (simp add: vfs_writes_def)
  have "\<not> vfs_failed (SQLITE_OK, [9, 9, 9, 9]) ?put" by (simp add: vfs_failed_def)
  then show ?thesis
    using memory_journal_writes_a_file[where malloc = "\<lambda>_. Some [0, 0]" and os_open = "(SQLITE_OK, [9, 9, 9, 9])"
        and z = "[5, 6]", OF ok m vfs, THEN conjunct1]
    unfolding c by (auto simp: Let_def overwrite_def split: prod.splits journal.splits if_splits)
qed

end
