(* ===== verification/Sqlite_Complete.thy ===== *)
theory Sqlite_Complete
  imports Sqlite_Func "HOL-Library.Sublist"
begin

text \<open>
  Is a piece of SQL complete? (\<open>src/complete.c\<close>) The tokens are those the routine distinguishes; the state
  machine is its table of transitions. A declarative account of complete statements and triggers
  follows, and the proof that the machine decides it.
\<close>

datatype tk = tkSEMI | tkWS | tkOTHER | tkEXPLAIN | tkCREATE | tkTEMP | tkTRIGGER | tkEND

fun tk_number :: "tk \<Rightarrow> nat" where
  "tk_number tkSEMI = 0" | "tk_number tkWS = 1" | "tk_number tkOTHER = 2" | "tk_number tkEXPLAIN = 3"
| "tk_number tkCREATE = 4" | "tk_number tkTEMP = 5" | "tk_number tkTRIGGER = 6" | "tk_number tkEND = 7"

definition trans :: "nat list list" where
  "trans =
     [[1, 0, 2, 3, 4, 2, 2, 2],
      [1, 1, 2, 3, 4, 2, 2, 2],
      [1, 2, 2, 2, 2, 2, 2, 2],
      [1, 3, 3, 2, 4, 2, 2, 2],
      [1, 4, 2, 2, 2, 4, 5, 2],
      [6, 5, 5, 5, 5, 5, 5, 5],
      [6, 6, 5, 5, 5, 5, 5, 7],
      [1, 7, 5, 5, 5, 5, 5, 5]]"

definition next_state :: "nat \<Rightarrow> tk \<Rightarrow> nat" where
  "next_state state token = trans ! state ! tk_number token"

section \<open>Tokens\<close>

text \<open>\<open>is_keyword z n w\<close>: the identifier of \<open>n\<close> bytes at \<open>z\<close> is the keyword \<open>w\<close>.\<close>

definition is_keyword :: "cstring \<Rightarrow> nat \<Rightarrow> cstring \<Rightarrow> bool" where
  "is_keyword z nId w \<longleftrightarrow> nId = length w \<and> strnicmp_loop z w (int (length w)) = 0"

definition keyword_token :: "cstring \<Rightarrow> nat \<Rightarrow> tk" where
  "keyword_token z nId =
     (let c = ch z in
      if c = 99 \<or> c = 67 then
        (if is_keyword z nId [99, 114, 101, 97, 116, 101] then tkCREATE else tkOTHER)
      else if c = 116 \<or> c = 84 then
        (if is_keyword z nId [116, 114, 105, 103, 103, 101, 114] then tkTRIGGER
         else if is_keyword z nId [116, 101, 109, 112] then tkTEMP
         else if is_keyword z nId [116, 101, 109, 112, 111, 114, 97, 114, 121] then tkTEMP
         else tkOTHER)
      else if c = 101 \<or> c = 69 then
        (if is_keyword z nId [101, 110, 100] then tkEND
         else if is_keyword z nId [101, 120, 112, 108, 97, 105, 110] then tkEXPLAIN
         else tkOTHER)
      else tkOTHER)"

text \<open>The text behind the star and slash that end a comment.\<close>

fun comment_end :: "cstring \<Rightarrow> cstring option" where
  "comment_end [] = None"
| "comment_end (c # z) =
     (if c = 0 then None else if c = 42 \<and> ch z = 47 then Some (tl z) else comment_end z)"

datatype scan = Token tk cstring | Unterminated | Line_comment_at_end

text \<open>One round of the loop, at a byte that is not the final zero: the token and what follows it.\<close>

definition until :: "nat \<Rightarrow> cstring \<Rightarrow> cstring" where
  "until q z = dropWhile (\<lambda>c. c \<noteq> 0 \<and> c \<noteq> q) z"

definition scan_token :: "cstring \<Rightarrow> scan" where
  "scan_token z =
     (let c = ch z in
      if c = 59 then Token tkSEMI (tl z)
      else if c \<in> {32, 13, 9, 10, 12} then Token tkWS (tl z)
      else if c = 47 then
        (if ch (tl z) \<noteq> 42 then Token tkOTHER (tl z)
         else case comment_end (drop 2 z) of None \<Rightarrow> Unterminated | Some r \<Rightarrow> Token tkWS r)
      else if c = 45 then
        (if ch (tl z) \<noteq> 45 then Token tkOTHER (tl z)
         else let r = until 10 z in if ch r = 0 then Line_comment_at_end else Token tkWS (tl r))
      else if c = 91 then
        (let r = until 93 (tl z) in if ch r = 0 then Unterminated else Token tkOTHER (tl r))
      else if c \<in> {96, 34, 39} then
        (let r = until c (tl z) in if ch r = 0 then Unterminated else Token tkOTHER (tl r))
      else if IdChar c then
        (let nId = 1 + length (takeWhile IdChar (tl z)) in Token (keyword_token z nId) (drop nId z))
      else Token tkOTHER (tl z))"

lemma comment_end_shorter: "comment_end z = Some r \<Longrightarrow> length r < length z"
  by (induction z) (auto split: if_splits intro: le_imp_less_Suc le_trans[of _ "length z" for z])

lemma until_le: "length (until q z) \<le> length z"
  by (simp add: until_def length_dropWhile_le)

lemma ch_nonzero: "ch z \<noteq> 0 \<Longrightarrow> z \<noteq> []"
  by auto

lemma scan_token_shorter: "ch z \<noteq> 0 \<Longrightarrow> scan_token z = Token t r \<Longrightarrow> length r < length z"
proof -
  assume z: "ch z \<noteq> 0" "scan_token z = Token t r"
  then obtain c y where y: "z = c # y" by (cases z) auto
  have "length (tl (until q y)) \<le> length y" "length (tl (until q z)) < length z" for q
    using until_le[of q y] until_le[of q z] by (auto simp: y)
  moreover have "comment_end (tl y) = Some r \<Longrightarrow> length r < length z" for r
    using comment_end_shorter[of "tl y" r] by (auto simp: y)
  ultimately show ?thesis
    using z(2) unfolding y
    by (auto simp: scan_token_def Let_def drop_Cons' drop_Suc less_Suc_eq_le split: if_splits option.splits)
qed

section \<open>The routine\<close>

function complete_loop :: "nat \<Rightarrow> cstring \<Rightarrow> bool" where
  "complete_loop state z =
     (if ch z = 0 then state = 1
      else case scan_token z of
             Unterminated \<Rightarrow> False
           | Line_comment_at_end \<Rightarrow> state = 1
           | Token t r \<Rightarrow> complete_loop (next_state state t) r)"
  by pat_completeness auto
termination
  by (relation "measure (\<lambda>(s, z). length z)") (auto intro: scan_token_shorter)

declare complete_loop.simps [simp del]

text \<open>\<open>None\<close> is the null pointer.\<close>

definition sqlite3_complete :: "cstring option \<Rightarrow> bool" where
  "sqlite3_complete zSql = (case zSql of None \<Rightarrow> False | Some z \<Rightarrow> complete_loop 0 z)"

text \<open>\<open>init\<close> is the result of \<open>sqlite3_initialize\<close>, \<open>zSql8\<close> the text in UTF-8 when there was memory for it.\<close>

definition sqlite3_complete16 :: "nat \<Rightarrow> cstring option \<Rightarrow> nat" where
  "sqlite3_complete16 init zSql8 =
     (if init \<noteq> 0 then init
      else (case zSql8 of Some z \<Rightarrow> if sqlite3_complete (Some z) then 1 else 0 | None \<Rightarrow> 7) AND 0xff)"

section \<open>The tokens of SQL\<close>

text \<open>What the routine should take for a token, without a word of how it looks for it: \<open>lexeme u t rest\<close> says
  that the text \<open>u\<close> is the token \<open>t\<close> when \<open>rest\<close> follows it. A comment ends at the first star and slash
  behind its opening, a line comment with the line or the text, a string or quoted identifier at the next
  quote of its kind, a word before the next byte that cannot be part of one.\<close>

definition id_byte :: "nat \<Rightarrow> bool" where
  "id_byte c \<longleftrightarrow> (65 \<le> c \<and> c \<le> 90) \<or> (97 \<le> c \<and> c \<le> 122) \<or> (48 \<le> c \<and> c \<le> 57)
     \<or> c = 36 \<or> c = 95 \<or> 128 \<le> c"

definition ascii :: "string \<Rightarrow> cstring" where
  "ascii w = map of_char w"

definition word_kind :: "cstring \<Rightarrow> tk" where
  "word_kind u =
     (let w = map lower_spec u in
      if w = ascii ''create'' then tkCREATE
      else if w = ascii ''trigger'' then tkTRIGGER
      else if w = ascii ''temp'' \<or> w = ascii ''temporary'' then tkTEMP
      else if w = ascii ''end'' then tkEND
      else if w = ascii ''explain'' then tkEXPLAIN
      else tkOTHER)"

inductive lexeme :: "cstring \<Rightarrow> tk \<Rightarrow> cstring \<Rightarrow> bool" where
  semicolon: "lexeme [59] tkSEMI rest"
| white: "c \<in> {32, 9, 10, 12, 13} \<Longrightarrow> lexeme [c] tkWS rest"
| block_comment: "\<not> sublist [42, 47] (body @ [42]) \<Longrightarrow> lexeme ([47, 42] @ body @ [42, 47]) tkWS rest"
| line_comment: "10 \<notin> set body \<Longrightarrow> lexeme ([45, 45] @ body @ [10]) tkWS rest"
| last_comment: "10 \<notin> set body \<Longrightarrow> lexeme ([45, 45] @ body) tkWS []"
| bracketed: "93 \<notin> set body \<Longrightarrow> lexeme (91 # body @ [93]) tkOTHER rest"
| quoted: "q \<in> {96, 34, 39} \<Longrightarrow> q \<notin> set body \<Longrightarrow> lexeme (q # body @ [q]) tkOTHER rest"
| word_token: "u \<noteq> [] \<Longrightarrow> \<forall>c \<in> set u. id_byte c \<Longrightarrow> rest = [] \<or> \<not> id_byte (hd rest) \<Longrightarrow>
    lexeme u (word_kind u) rest"
| operator: "c \<notin> {59, 32, 9, 10, 12, 13, 91, 96, 34, 39} \<Longrightarrow> \<not> id_byte c \<Longrightarrow>
    (c = 47 \<longrightarrow> ch rest \<noteq> 42) \<Longrightarrow> (c = 45 \<longrightarrow> ch rest \<noteq> 45) \<Longrightarrow> lexeme [c] tkOTHER rest"

text \<open>The tokens of a text, white space and comments left out.\<close>

inductive lexed :: "cstring \<Rightarrow> tk list \<Rightarrow> bool" where
  nothing: "lexed [] []"
| one_more: "lexeme u t rest \<Longrightarrow> lexed rest ts \<Longrightarrow> lexed (u @ rest) (if t = tkWS then ts else t # ts)"

section \<open>Complete statements\<close>

text \<open>The start of a trigger: perhaps \<open>EXPLAIN\<close> with other words, then \<open>CREATE\<close>, perhaps \<open>TEMP\<close>, and
  \<open>TRIGGER\<close>; the result is the rest.\<close>

definition after_create :: "tk list \<Rightarrow> tk list option" where
  "after_create ts =
     (case dropWhile (\<lambda>t. t = tkTEMP) ts of tkTRIGGER # rest \<Rightarrow> Some rest | _ \<Rightarrow> None)"

definition trigger_body :: "tk list \<Rightarrow> tk list option" where
  "trigger_body ts =
     (case (case ts of tkEXPLAIN # r \<Rightarrow> dropWhile (\<lambda>t. t = tkOTHER) r | _ \<Rightarrow> ts) of
        tkCREATE # r \<Rightarrow> after_create r
      | _ \<Rightarrow> None)"

text \<open>What follows the first statement: a trigger ends at the first \<open>; END ;\<close>, any other statement at the
  first semicolon.\<close>

definition after_statement :: "tk list \<Rightarrow> tk list option" where
  "after_statement ts =
     (case trigger_body ts of
        Some body \<Rightarrow> map_option (\<lambda>k. drop (k + 3) body) (find_at [tkSEMI, tkEND, tkSEMI] body)
      | None \<Rightarrow> map_option (\<lambda>k. drop (k + 1) ts) (find_at [tkSEMI] ts))"

lemma after_create_shorter: "after_create ts = Some b \<Longrightarrow> length b < length ts"
  using length_dropWhile_le[of "\<lambda>t. t = tkTEMP" ts]
  by (auto simp: after_create_def split: list.splits tk.splits)

lemma trigger_body_shorter: "trigger_body ts = Some b \<Longrightarrow> length b < length ts"
proof -
  assume b: "trigger_body ts = Some b"
  let ?r = "case ts of tkEXPLAIN # r \<Rightarrow> dropWhile (\<lambda>t. t = tkOTHER) r | _ \<Rightarrow> ts"
  have "length ?r \<le> length ts"
    by (auto split: list.splits tk.splits intro: le_SucI[OF length_dropWhile_le])
  moreover obtain r where "?r = tkCREATE # r" "after_create r = Some b"
    using b unfolding trigger_body_def by (auto split: list.splits tk.splits)
  ultimately show ?thesis using after_create_shorter[of r b] by simp
qed

lemma after_statement_shorter: "after_statement ts = Some r \<Longrightarrow> length r < length ts"
proof (cases "trigger_body ts")
  case None
  assume "after_statement ts = Some r"
  then obtain k where "find_at [tkSEMI] ts = Some k" "r = drop (k + 1) ts" using None by (auto simp: after_statement_def)
  then show ?thesis using find_at_fits[of "[tkSEMI]" ts k] by simp
next
  case (Some b)
  assume "after_statement ts = Some r"
  then have "length r \<le> length b" using Some by (auto simp: after_statement_def)
  then show ?thesis using trigger_body_shorter[OF Some] by simp
qed

function only_statements :: "tk list \<Rightarrow> bool" where
  "only_statements ts =
     (ts = [] \<or> (case after_statement ts of None \<Rightarrow> False | Some r \<Rightarrow> only_statements r))"
  by pat_completeness auto
termination by (relation "measure length") (auto intro: after_statement_shorter)

declare only_statements.simps [simp del]

section \<open>The scanner finds the tokens\<close>

lemma IdChar_id_byte: "c < 256 \<Longrightarrow> IdChar c = id_byte c"
  unfolding IdChar_def id_byte_def by (simp only: ctype_bits) blast

lemma is_keyword_iff:
  assumes "c_string z" "c_string w" "map lower_spec w = w" "n \<le> length z"
  shows "is_keyword z n w \<longleftrightarrow> map lower_spec (take n z) = w"
proof -
  have "strnicmp_loop z w (int (length w)) = 0 \<longleftrightarrow> map lower_spec (take (length w) z) = w"
    using strnicmp_take[OF assms(1,2), of "length w"] StrICmp_order[of "take (length w) z" w] assms(1-3)
    by (auto simp: c_string_def dest: in_set_takeD)
  moreover have "map lower_spec (take n z) = w \<Longrightarrow> n = length w"
    using assms(4) by auto
  ultimately show ?thesis by (auto simp: is_keyword_def)
qed

lemma keyword_token_kind:
  assumes "c_string z" "0 < n" "n \<le> length z"
  shows "keyword_token z n = word_kind (take n z)"
proof -
  obtain c y where z: "z = c # y" using assms(2,3) by (cases z) auto
  obtain m where n: "n = Suc m" using assms(2) by (cases n) auto
  have kw: "is_keyword z n w \<longleftrightarrow> map lower_spec (take n z) = w"
    if "list_all (\<lambda>c. 97 \<le> c \<and> c \<le> 122) w" for w
  proof (rule is_keyword_iff[OF assms(1) _ _ assms(3)])
    show "c_string w" "map lower_spec w = w"
      using that by (induction w) (auto simp: lower_spec_def)
  qed
  have first: "lower_spec c = 99 \<longleftrightarrow> c = 99 \<or> c = 67" "lower_spec c = 116 \<longleftrightarrow> c = 116 \<or> c = 84"
    "lower_spec c = 101 \<longleftrightarrow> c = 101 \<or> c = 69"
    by (auto simp: lower_spec_def)
  have "map lower_spec (take n z) = lower_spec c # map lower_spec (take m y)" by (simp add: z n)
  moreover have "ch z = c" by (simp add: z)
  moreover have "ascii ''create'' = [99, 114, 101, 97, 116, 101]" "ascii ''trigger'' = [116, 114, 105, 103, 103, 101, 114]"
    "ascii ''temp'' = [116, 101, 109, 112]" "ascii ''temporary'' = [116, 101, 109, 112, 111, 114, 97, 114, 121]"
    "ascii ''end'' = [101, 110, 100]" "ascii ''explain'' = [101, 120, 112, 108, 97, 105, 110]"
    by (simp_all add: ascii_def)
  moreover consider "c = 99 \<or> c = 67" | "c = 116 \<or> c = 84" | "c = 101 \<or> c = 69"
    | "lower_spec c \<notin> {99, 116, 101}" using first by blast
  ultimately show ?thesis
    by cases (auto simp: keyword_token_def word_kind_def kw Let_def lower_spec_def)
qed

lemma comment_end_iff:
  "c_string z \<Longrightarrow> comment_end z = Some r \<longleftrightarrow> (\<exists>body. z = body @ [42, 47] @ r \<and> \<not> sublist [42, 47] (body @ [42]))"
proof (induction z)
  case (Cons c z)
  show ?case
  proof (cases "c = 42 \<and> ch z = 47")
    case True
    then obtain y where z: "z = 47 # y" by (cases z) auto
    have "body = []" if b: "c # z = body @ [42, 47] @ r" "\<not> sublist [42, 47] (body @ [42])" for body
    proof (rule ccontr)
      assume "body \<noteq> []"
      then have "\<exists>bs. body = 42 # 47 # bs" using b(1) True z by (cases body; cases "tl body") auto
      then show False using b(2) by (auto simp: sublist_Cons_right)
    qed
    moreover have "\<not> sublist [42, 47 :: nat] ([] @ [42])" by (simp add: sublist_Cons_right)
    ultimately show ?thesis using True z by (auto simp: sublist_Cons_right)
  next
    case False
    have "(\<exists>body. c # z = body @ [42, 47] @ r \<and> \<not> sublist [42, 47] (body @ [42])) \<longleftrightarrow>
        (\<exists>body. z = body @ [42, 47] @ r \<and> \<not> sublist [42, 47] (body @ [42]))" (is "?l \<longleftrightarrow> ?r")
    proof
      assume ?l
      then obtain body where b: "c # z = body @ [42, 47] @ r" "\<not> sublist [42, 47] (body @ [42])" by blast
      then show ?r using False by (cases body) (auto simp: sublist_Cons_right)
    next
      assume ?r
      then obtain body where b: "z = body @ [42, 47] @ r" "\<not> sublist [42, 47] (body @ [42])" by blast
      have "\<not> prefix [42, 47] (c # body @ [42])" using False b(1) by (cases body) auto
      then have "\<not> sublist [42, 47] ((c # body) @ [42])" using b(2) by (simp add: sublist_Cons_right)
      then show ?l using b(1) by (metis append_Cons)
    qed
    moreover have "comment_end (c # z) = comment_end z" using False Cons.prems by auto
    ultimately show ?thesis using Cons by simp
  qed
qed simp

lemma until_iff:
  "c_string z \<Longrightarrow> (ch (until q z) \<noteq> 0 \<and> tl (until q z) = r) \<longleftrightarrow> (\<exists>body. z = body @ q # r \<and> q \<notin> set body)"
proof (induction z)
  case (Cons c z)
  show ?case
  proof (cases "c = q")
    case True
    have "body = []" if "q # z = body @ q # r" "q \<notin> set body" for body
      using that by (cases body) auto
    then show ?thesis using True Cons.prems by (auto simp: until_def)
  next
    case False
    have "(\<exists>body. c # z = body @ q # r \<and> q \<notin> set body) \<longleftrightarrow> (\<exists>body. z = body @ q # r \<and> q \<notin> set body)" (is "?l \<longleftrightarrow> ?r")
    proof
      assume ?l
      then obtain body where "c # z = body @ q # r" "q \<notin> set body" by blast
      then show ?r using False by (cases body) auto
    next
      assume ?r
      then obtain body where "z = body @ q # r" "q \<notin> set body" by blast
      then have "c # z = (c # body) @ q # r \<and> q \<notin> set (c # body)" using False by simp
      then show ?l by blast
    qed
    then show ?thesis using False Cons by (simp add: until_def)
  qed
qed (simp add: until_def)

lemma until_none: "c_string z \<Longrightarrow> ch (until q z) = 0 \<longleftrightarrow> q \<notin> set z"
  by (induction z) (auto simp: until_def)

lemma id_run:
  assumes "c_string z"
  shows "takeWhile IdChar z = takeWhile id_byte z"
  using assms by (induction z) (auto simp: IdChar_id_byte)

lemma scan_word:
  assumes "c_string (c # z)" "id_byte c"
  shows "scan_token (c # z) = Token (word_kind (takeWhile id_byte (c # z))) (dropWhile id_byte (c # z))"
proof -
  have c: "c \<notin> {59, 32, 13, 9, 10, 12, 47, 45, 91, 96, 34, 39}" using assms(2) by (auto simp: id_byte_def)
  have id: "IdChar c" using IdChar_id_byte[of c] assms by simp
  have run: "takeWhile IdChar z = takeWhile id_byte z" using assms(1) by (intro id_run) simp
  have len: "length (takeWhile id_byte z) \<le> length z" by (rule length_takeWhile_le)
  have t: "take (length (takeWhile id_byte z)) z = takeWhile id_byte z"
    by (metis append_eq_conv_conj takeWhile_dropWhile_id)
  have d: "drop (length (takeWhile id_byte z)) z = dropWhile id_byte z"
    by (metis append_eq_conv_conj takeWhile_dropWhile_id)
  show ?thesis
    using c id assms len t d keyword_token_kind[OF assms(1), of "Suc (length (takeWhile id_byte z))"]
    by (simp add: scan_token_def run)
qed

lemma scan_sound:
  assumes "c_string z" "z \<noteq> []"
  shows "case scan_token z of
      Token t r \<Rightarrow> \<exists>u. z = u @ r \<and> lexeme u t r
    | Line_comment_at_end \<Rightarrow> lexeme z tkWS []
    | Unterminated \<Rightarrow> True"
proof -
  obtain c y where z: "z = c # y" using assms(2) by (cases z) auto
  have y: "c_string y" "c < 256" using assms(1) by (simp_all add: z)
  have here: "\<exists>u. z = u @ r \<and> lexeme u t r" if "z = u @ r" "lexeme u t r" for u t r
    using that by blast
  have op: "\<exists>u. c # y = u @ y \<and> lexeme u tkOTHER y"
    if "c \<notin> {59, 32, 9, 10, 12, 13, 91, 96, 34, 39}" "\<not> id_byte c" "c = 47 \<longrightarrow> ch y \<noteq> 42" "c = 45 \<longrightarrow> ch y \<noteq> 45"
    using lexeme.operator[OF that] by (intro exI[of _ "[c]"]) simp
  have not_id: "\<not> id_byte 47" "\<not> id_byte 45" by (simp_all add: id_byte_def)
  consider "c = 59" | "c \<in> {32, 13, 9, 10, 12}" | "c = 47" | "c = 45" | "c = 91" | "c \<in> {96, 34, 39}"
    | "id_byte c" | "c \<notin> {59, 32, 13, 9, 10, 12, 47, 45, 91, 96, 34, 39}" "\<not> id_byte c" by blast
  then show ?thesis
  proof cases
    case 1
    then show ?thesis using here[of "[59]" y tkSEMI] lexeme.semicolon by (simp add: scan_token_def z)
  next
    case 2
    then show ?thesis using here[of "[c]" y tkWS] lexeme.white[of c y] by (auto simp: scan_token_def z)
  next
    case 3
    show ?thesis
    proof (cases "ch y = 42")
      case True
      then obtain x where x: "y = 42 # x" by (cases y) auto
      have "c_string x" using y x by simp
      then have "\<exists>u. z = u @ r \<and> lexeme u tkWS r" if r: "comment_end x = Some r" for r
      proof -
        obtain body where "x = body @ [42, 47] @ r" "\<not> sublist [42, 47] (body @ [42])"
          using r comment_end_iff[OF \<open>c_string x\<close>] by blast
        then show ?thesis by (intro here[OF _ lexeme.block_comment]) (simp_all add: z x 3)
      qed
      then show ?thesis using True by (simp add: scan_token_def z x 3 split: option.split)
    next
      case False
      then show ?thesis using op 3 not_id by (simp add: scan_token_def z)
    qed
  next
    case 4
    show ?thesis
    proof (cases "ch y = 45")
      case True
      then obtain x where x: "y = 45 # x" by (cases y) auto
      show ?thesis
      proof (cases "10 \<in> set x")
        case False
        then have "ch (until 10 z) = 0" using until_none[OF assms(1), of 10] by (simp add: z x 4)
        then show ?thesis using lexeme.last_comment[OF False] True by (simp add: scan_token_def z x 4 Let_def)
      next
        case nl: True
        then have "ch (until 10 z) \<noteq> 0" using until_none[OF assms(1), of 10] by (simp add: z x 4)
        moreover have "ch (until 10 x) \<noteq> 0" using y x nl until_none[of x 10] by simp
        then obtain body where "x = body @ 10 # tl (until 10 x)" "10 \<notin> set body"
          using until_iff[of x 10 "tl (until 10 x)"] y x by auto
        then have "\<exists>u. z = u @ tl (until 10 x) \<and> lexeme u tkWS (tl (until 10 x))"
          by (intro here[OF _ lexeme.line_comment]) (simp_all add: z x 4)
        moreover have "until 10 z = until 10 x" by (simp add: until_def z x 4)
        ultimately show ?thesis using True by (simp add: scan_token_def z x 4 Let_def)
      qed
    next
      case False
      then show ?thesis using op 4 not_id by (simp add: scan_token_def z)
    qed
  next
    case 5
    show ?thesis
    proof (cases "ch (until 93 y) = 0")
      case False
      then obtain body where "y = body @ 93 # tl (until 93 y)" "93 \<notin> set body"
        using until_iff[OF y(1), of 93 "tl (until 93 y)"] by auto
      then have "\<exists>u. z = u @ tl (until 93 y) \<and> lexeme u tkOTHER (tl (until 93 y))"
        by (intro here[OF _ lexeme.bracketed]) (simp_all add: z 5)
      then show ?thesis using False by (simp add: scan_token_def z 5 Let_def)
    qed (simp add: scan_token_def z 5 Let_def)
  next
    case 6
    show ?thesis
    proof (cases "ch (until c y) = 0")
      case False
      then obtain body where "y = body @ c # tl (until c y)" "c \<notin> set body"
        using until_iff[OF y(1), of c "tl (until c y)"] by auto
      then have "\<exists>u. z = u @ tl (until c y) \<and> lexeme u tkOTHER (tl (until c y))"
        using 6 by (intro here[OF _ lexeme.quoted]) (simp_all add: z)
      then show ?thesis using False 6 by (auto simp: scan_token_def z Let_def)
    qed (use 6 in \<open>auto simp: scan_token_def z Let_def\<close>)
  next
    case 7
    have "dropWhile id_byte z = [] \<or> \<not> id_byte (hd (dropWhile id_byte z))" by (metis hd_dropWhile)
    moreover have "takeWhile id_byte z \<noteq> []" using 7 by (simp add: z)
    moreover have "\<forall>c \<in> set (takeWhile id_byte z). id_byte c" by (auto dest: set_takeWhileD)
    ultimately have "lexeme (takeWhile id_byte z) (word_kind (takeWhile id_byte z)) (dropWhile id_byte z)"
      by (intro lexeme.word_token)
    then have "\<exists>u. z = u @ dropWhile id_byte z \<and> lexeme u (word_kind (takeWhile id_byte z)) (dropWhile id_byte z)"
      by (intro here) simp_all
    then show ?thesis using scan_word[of c y] 7 assms(1) by (simp only: z scan.case)
  next
    case 8
    then have "\<not> IdChar c" using IdChar_id_byte[OF y(2)] by simp
    then show ?thesis using op 8 by (simp add: scan_token_def z)
  qed
qed

lemma scan_complete:
  assumes "lexeme u t r" "c_string (u @ r)"
  shows "scan_token (u @ r) = Token t r \<or> scan_token (u @ r) = Line_comment_at_end \<and> t = tkWS \<and> r = []"
  using assms
proof cases
  case (white c)
  then show ?thesis by (auto simp: scan_token_def)
next
  case (block_comment body)
  then have "comment_end (body @ [42, 47] @ r) = Some r"
    using assms(2) by (subst comment_end_iff) (auto)
  then show ?thesis by (simp add: scan_token_def block_comment)
next
  case (line_comment body)
  have "c_string (body @ 10 # r)" using assms(2) by (simp add: line_comment)
  then have "ch (until 10 (body @ 10 # r)) \<noteq> 0 \<and> tl (until 10 (body @ 10 # r)) = r"
    using line_comment(3) by (subst until_iff) auto
  moreover have "until 10 (u @ r) = until 10 (body @ 10 # r)" by (simp add: line_comment until_def)
  ultimately show ?thesis by (simp add: scan_token_def line_comment Let_def)
next
  case (last_comment body)
  have "ch (until 10 (u @ r)) = 0" using until_none[OF assms(2), of 10] last_comment by simp
  then show ?thesis by (simp add: scan_token_def last_comment Let_def)
next
  case (bracketed body)
  have "c_string (body @ 93 # r)" using assms(2) by (simp add: bracketed)
  then have "ch (until 93 (body @ 93 # r)) \<noteq> 0 \<and> tl (until 93 (body @ 93 # r)) = r"
    using bracketed(3) by (subst until_iff) auto
  then show ?thesis by (simp add: scan_token_def bracketed Let_def)
next
  case (quoted q body)
  have "c_string (body @ q # r)" using assms(2) by (simp add: quoted)
  then have "ch (until q (body @ q # r)) \<noteq> 0 \<and> tl (until q (body @ q # r)) = r"
    using quoted(4) by (subst until_iff) auto
  then show ?thesis using quoted(3) by (auto simp: scan_token_def quoted(1,2) Let_def)
next
  case word_token
  then obtain c y where u: "u = c # y" "id_byte c" by (cases u) auto
  have "takeWhile id_byte (u @ r) = u" "dropWhile id_byte (u @ r) = r"
    using word_token by (cases r; auto simp: takeWhile_append dropWhile_append)+
  then show ?thesis using scan_word[of c "y @ r"] assms(2) u word_token(1) by simp
next
  case (operator c)
  then have "\<not> IdChar c" using IdChar_id_byte[of c] assms(2) by simp
  then show ?thesis using operator by (auto simp: scan_token_def)
qed (simp add: scan_token_def)

section \<open>The machine decides it\<close>

text \<open>The tokens the scanner finds, without white space; \<open>None\<close> when a comment, string or identifier does not end.\<close>

function sql_tokens :: "cstring \<Rightarrow> tk list option" where
  "sql_tokens z =
     (if ch z = 0 then Some []
      else case scan_token z of
             Unterminated \<Rightarrow> None
           | Line_comment_at_end \<Rightarrow> Some []
           | Token t r \<Rightarrow> map_option (\<lambda>ts. if t = tkWS then ts else t # ts) (sql_tokens r))"
  by pat_completeness auto
termination by (relation "measure length") (auto intro: scan_token_shorter)

declare sql_tokens.simps [simp del]

definition accepts :: "nat \<Rightarrow> tk list \<Rightarrow> bool" where
  "accepts q ts \<longleftrightarrow> foldl next_state q ts = 1"

lemma accepts_simps [simp]: "accepts q [] \<longleftrightarrow> q = 1" "accepts q (t # ts) \<longleftrightarrow> accepts (next_state q t) ts"
  by (simp_all add: accepts_def)

lemma next_state_table [simp]:
  "next_state 0 t = next_state 1 t \<or> t = tkWS"
  "next_state (Suc 0) t = (case t of tkSEMI \<Rightarrow> 1 | tkWS \<Rightarrow> 1 | tkEXPLAIN \<Rightarrow> 3 | tkCREATE \<Rightarrow> 4 | _ \<Rightarrow> 2)"
  "next_state 2 t = (case t of tkSEMI \<Rightarrow> 1 | _ \<Rightarrow> 2)"
  "next_state 3 t = (case t of tkSEMI \<Rightarrow> 1 | tkWS \<Rightarrow> 3 | tkOTHER \<Rightarrow> 3 | tkCREATE \<Rightarrow> 4 | _ \<Rightarrow> 2)"
  "next_state 4 t = (case t of tkSEMI \<Rightarrow> 1 | tkWS \<Rightarrow> 4 | tkTEMP \<Rightarrow> 4 | tkTRIGGER \<Rightarrow> 5 | _ \<Rightarrow> 2)"
  "next_state 5 t = (case t of tkSEMI \<Rightarrow> 6 | _ \<Rightarrow> 5)"
  "next_state 6 t = (case t of tkSEMI \<Rightarrow> 6 | tkWS \<Rightarrow> 6 | tkEND \<Rightarrow> 7 | _ \<Rightarrow> 5)"
  "next_state 7 t = (case t of tkSEMI \<Rightarrow> 1 | tkWS \<Rightarrow> 7 | _ \<Rightarrow> 5)"
  by (cases t; simp add: next_state_def trans_def)+

lemma next_state_bound: "q < 8 \<Longrightarrow> next_state q t < 8" "q < 8 \<Longrightarrow> next_state q tkWS = q"
proof -
  have "list_all (\<lambda>q. list_all (\<lambda>t. next_state q t < 8) [tkSEMI, tkWS, tkOTHER, tkEXPLAIN, tkCREATE, tkTEMP, tkTRIGGER, tkEND]
      \<and> next_state q tkWS = q) [0..<8]" by code_simp
  then have "q < 8 \<Longrightarrow> (\<forall>t. next_state q t < 8) \<and> next_state q tkWS = q" for q
    unfolding list_all_iff set_upt atLeastLessThan_iff by (auto, case_tac t, auto)
  then show "q < 8 \<Longrightarrow> next_state q t < 8" "q < 8 \<Longrightarrow> next_state q tkWS = q" by auto
qed

lemma complete_loop_tokens:
  "q < 8 \<Longrightarrow> complete_loop q z = (case sql_tokens z of None \<Rightarrow> False | Some ts \<Rightarrow> accepts q ts)"
proof (induction z arbitrary: q rule: sql_tokens.induct)
  case (1 z)
  show ?case
  proof (cases "ch z = 0")
    case True
    then show ?thesis by (subst complete_loop.simps, subst sql_tokens.simps) simp
  next
    case False
    show ?thesis
    proof (cases "scan_token z")
      case (Token t r)
      have "complete_loop (next_state q t) r = (case sql_tokens r of None \<Rightarrow> False | Some ts \<Rightarrow> accepts (next_state q t) ts)"
        using "1.IH"[OF False Token] next_state_bound(1)[OF "1.prems"] by blast
      then show ?thesis
        using False Token next_state_bound(2)[OF "1.prems"]
        by (subst complete_loop.simps, subst sql_tokens.simps) (auto split: option.splits)
    qed (use False in \<open>subst complete_loop.simps, subst sql_tokens.simps, simp\<close>)+
  qed
qed

lemma no_white: "sql_tokens z = Some ts \<Longrightarrow> tkWS \<notin> set ts"
proof (induction z arbitrary: ts rule: sql_tokens.induct)
  case (1 z)
  show ?case
  proof (cases "ch z = 0")
    case True
    then show ?thesis using "1.prems" by (subst (asm) sql_tokens.simps) simp
  next
    case False
    then show ?thesis
      using "1.prems" "1.IH"[OF False]
      by (subst (asm) sql_tokens.simps) (auto split: scan.splits if_splits option.splits)
  qed
qed

definition then_accepts :: "tk list \<Rightarrow> tk list \<Rightarrow> bool" where
  "then_accepts pat ts = (case find_at pat ts of None \<Rightarrow> False | Some k \<Rightarrow> accepts 1 (drop (k + length pat) ts))"

lemma then_accepts_shift: "take (length pat) (t # ts) \<noteq> pat \<Longrightarrow> then_accepts pat (t # ts) = then_accepts pat ts"
  by (auto simp: then_accepts_def split: option.splits)

lemma semi_step [simp]:
  "then_accepts [tkSEMI] (t # ts) = (if t = tkSEMI then accepts 1 ts else then_accepts [tkSEMI] ts)"
  using then_accepts_shift[of "[tkSEMI]" t ts] by (auto simp: then_accepts_def)

lemma after_create_step:
  "after_create (t # ts) = (case t of tkTEMP \<Rightarrow> after_create ts | tkTRIGGER \<Rightarrow> Some ts | _ \<Rightarrow> None)"
  by (cases t) (simp_all add: after_create_def)

lemma accepts_2: "accepts 2 ts = then_accepts [tkSEMI] ts"
proof (induction ts)
  case (Cons t ts)
  then show ?case by (cases t) (auto simp: then_accepts_def split: option.splits)
qed (simp add: then_accepts_def)

lemma accepts_5: "tkWS \<notin> set ts \<Longrightarrow> accepts 5 ts = then_accepts [tkSEMI, tkEND, tkSEMI] ts"
proof (induction "length ts" arbitrary: ts rule: less_induct)
  case less
  let ?p = "[tkSEMI, tkEND, tkSEMI]"
  have shift: "accepts 5 r = then_accepts ?p r" if "ts = pre @ r" "pre \<noteq> []" for pre r
    using less that by (intro less.hyps) auto
  have nil: "then_accepts ?p [] = False" "then_accepts ?p [a] = False" "then_accepts ?p [a, b] = False" for a b
    by (simp_all add: then_accepts_def)
  show ?case
  proof (cases ts)
    case (Cons t r)
    show ?thesis
    proof (cases "t = tkSEMI")
      case False
      then have "then_accepts ?p ts = then_accepts ?p r" unfolding Cons by (intro then_accepts_shift) simp
      then show ?thesis using shift[of "[t]" r] Cons False by (cases t) simp_all
    next
      case semi: True
      show ?thesis
      proof (cases r)
        case Nil
        then show ?thesis using Cons semi nil by simp
      next
        case r: (Cons u s)
        show ?thesis
        proof (cases "u = tkEND")
          case False
          then have "then_accepts ?p ts = then_accepts ?p r" unfolding Cons r by (intro then_accepts_shift) simp
          then show ?thesis using shift[of "[t]" r] Cons r semi False less.prems by (cases u) simp_all
        next
          case u: True
          show ?thesis
          proof (cases s)
            case Nil
            then show ?thesis using Cons r semi u nil by simp
          next
            case s: (Cons v w)
            show ?thesis
            proof (cases "v = tkSEMI")
              case True
              then show ?thesis using Cons r s semi u by (simp add: then_accepts_def)
            next
              case False
              then have "then_accepts ?p ts = then_accepts ?p s"
                unfolding Cons r s u by (simp add: then_accepts_shift)
              also have "then_accepts ?p s = then_accepts ?p w" unfolding s using False by (intro then_accepts_shift) simp
              finally show ?thesis
                using shift[of "[t, u, v]" w] Cons r s semi u False less.prems by (cases v) simp_all
            qed
          qed
        qed
      qed
    qed
  qed (simp add: nil)
qed

lemma accepts_4:
  "tkWS \<notin> set ts \<Longrightarrow> accepts 4 ts =
    (case after_create ts of Some b \<Rightarrow> then_accepts [tkSEMI, tkEND, tkSEMI] b | None \<Rightarrow> then_accepts [tkSEMI] ts)"
proof (induction ts)
  case (Cons t ts)
  have "accepts 5 ts = then_accepts [tkSEMI, tkEND, tkSEMI] ts" using Cons.prems by (intro accepts_5) simp
  then show ?case
    using Cons accepts_2[of ts]
    by (cases t) (simp_all add: after_create_step cong: option.case_cong)
qed (simp add: after_create_def then_accepts_def)

definition create_body :: "tk list \<Rightarrow> tk list option" where
  "create_body ts = (case ts of tkCREATE # r \<Rightarrow> after_create r | _ \<Rightarrow> None)"

lemma accepts_3:
  "tkWS \<notin> set ts \<Longrightarrow> accepts 3 ts =
    (case create_body (dropWhile (\<lambda>t. t = tkOTHER) ts) of
       Some b \<Rightarrow> then_accepts [tkSEMI, tkEND, tkSEMI] b | None \<Rightarrow> then_accepts [tkSEMI] ts)"
proof (induction ts)
  case (Cons t ts)
  then show ?case
    using accepts_2[of ts] accepts_4[of ts]
    by (cases t) (simp_all add: create_body_def cong: option.case_cong)
qed (simp add: create_body_def then_accepts_def)

lemma trigger_body_eq:
  "trigger_body ts = create_body (case ts of tkEXPLAIN # r \<Rightarrow> dropWhile (\<lambda>t. t = tkOTHER) r | _ \<Rightarrow> ts)"
  by (simp add: trigger_body_def create_body_def)

lemma accepts_1:
  assumes "tkWS \<notin> set ts" "ts \<noteq> []"
  shows "accepts 1 ts = (case trigger_body ts of
       Some b \<Rightarrow> then_accepts [tkSEMI, tkEND, tkSEMI] b | None \<Rightarrow> then_accepts [tkSEMI] ts)"
proof -
  obtain t r where t: "ts = t # r" using assms(2) by (cases ts) auto
  then show ?thesis
    using assms(1) accepts_2[of r] accepts_4[of r] accepts_3[of r]
    by (cases t) (simp_all add: trigger_body_eq create_body_def t cong: option.case_cong)
qed

lemma trigger_body_suffix: "trigger_body ts = Some b \<Longrightarrow> set b \<subseteq> set ts"
proof -
  assume b: "trigger_body ts = Some b"
  have c: "after_create r = Some b \<Longrightarrow> set b \<subseteq> set r" for r
    using set_dropWhileD[of _ "\<lambda>t. t = tkTEMP" r] by (fastforce simp: after_create_def split: list.splits tk.splits)
  let ?r = "case ts of tkEXPLAIN # r \<Rightarrow> dropWhile (\<lambda>t. t = tkOTHER) r | _ \<Rightarrow> ts"
  have "set ?r \<subseteq> set ts" by (auto split: list.splits tk.splits dest: set_dropWhileD)
  moreover have "set b \<subseteq> set ?r" using b c unfolding trigger_body_def by (auto split: list.splits tk.splits)
  ultimately show ?thesis by blast
qed

lemma accepts_statements: "tkWS \<notin> set ts \<Longrightarrow> accepts 1 ts = only_statements ts"
proof (induction ts rule: only_statements.induct)
  case (1 ts)
  show ?case
  proof (cases "ts = []")
    case True
    then show ?thesis by (subst only_statements.simps) simp
  next
    case False
    have "set r \<subseteq> set ts" if "after_statement ts = Some r" for r
    proof (cases "trigger_body ts")
      case None
      then show ?thesis using that by (auto simp: after_statement_def dest: in_set_dropD)
    next
      case (Some b)
      then show ?thesis using that trigger_body_suffix[OF Some] by (auto simp: after_statement_def dest: in_set_dropD)
    qed
    then have IH: "accepts 1 r = only_statements r" if "after_statement ts = Some r" for r
      using "1.IH"[OF that] "1.prems" that by blast
    have "accepts 1 ts = (case after_statement ts of None \<Rightarrow> False | Some r \<Rightarrow> accepts 1 r)"
      unfolding accepts_1[OF "1.prems" False] after_statement_def then_accepts_def
      by (auto simp: numeral_3_eq_3 split: option.splits)
    then show ?thesis using IH False by (subst only_statements.simps) (auto split: option.splits)
  qed
qed

lemma lexeme_nonempty: "lexeme u t r \<Longrightarrow> u \<noteq> []"
  by (cases rule: lexeme.cases) auto

lemma sql_tokens_lexed: "c_string z \<Longrightarrow> sql_tokens z = Some ts \<Longrightarrow> lexed z ts"
proof (induction z arbitrary: ts rule: sql_tokens.induct)
  case (1 z)
  show ?case
  proof (cases "z = []")
    case True
    then show ?thesis using "1.prems"(2) lexed.nothing by (simp add: sql_tokens.simps[of "[]"])
  next
    case False
    then have z: "ch z \<noteq> 0" using "1.prems"(1) by (cases z) auto
    note found = scan_sound[OF "1.prems"(1) False]
    show ?thesis
    proof (cases "scan_token z")
      case (Token t r)
      obtain u where u: "z = u @ r" "lexeme u t r" using found Token by auto
      obtain ts' where ts': "sql_tokens r = Some ts'" "ts = (if t = tkWS then ts' else t # ts')"
        using "1.prems"(2) z Token by (simp add: sql_tokens.simps[of z] split: if_splits) auto
      have "lexed r ts'" using "1.IH"[OF z Token _ ts'(1)] "1.prems"(1) u(1) by simp
      then show ?thesis using lexed.one_more[OF u(2)] unfolding u(1) ts'(2) by simp
    next
      case Unterminated
      then show ?thesis using "1.prems"(2) z by (simp add: sql_tokens.simps[of z])
    next
      case Line_comment_at_end
      then have "ts = []" "lexeme z tkWS []" using "1.prems"(2) z found by (simp_all add: sql_tokens.simps[of z])
      then show ?thesis using lexed.one_more[OF _ lexed.nothing, of z tkWS] by simp
    qed
  qed
qed

lemma lexed_sql_tokens: "lexed z ts \<Longrightarrow> c_string z \<Longrightarrow> sql_tokens z = Some ts"
proof (induction rule: lexed.induct)
  case nothing
  then show ?case by (simp add: sql_tokens.simps[of "[]"])
next
  case (one_more u t rest ts)
  have z: "ch (u @ rest) \<noteq> 0" using lexeme_nonempty[OF one_more.hyps(1)] one_more.prems by (cases u) auto
  have "sql_tokens rest = Some ts" using one_more by simp
  then show ?case
    using scan_complete[OF one_more.hyps(1) one_more.prems] z
    by (auto simp: sql_tokens.simps[of "u @ rest"] sql_tokens.simps[of "[]"])
qed

text \<open>C33. \<open>sqlite3_complete\<close> answers yes exactly when the text can be read as a sequence of tokens, every
  comment, string and quoted identifier closed (a comment to the end of the line may end with the text),
  and its tokens, white space and comments aside, are one or more statements, each with its final
  semicolon. A trigger, recognised by its first words in any case, ends with the first \<open>; END ;\<close>, every
  other statement with the first semicolon. A text is read in one way at most. The version for UTF-16
  text returns the error of the initialisation, the error for missing memory when there is no text in
  UTF-8, and the answer for that text otherwise.\<close>

theorem sqlite_complete_correct:
  assumes "c_string z"
  shows "(sqlite3_complete (Some z) \<longleftrightarrow> (\<exists>ts. lexed z ts \<and> ts \<noteq> [] \<and> only_statements ts))
   \<and> (\<forall>ts ts'. lexed z ts \<longrightarrow> lexed z ts' \<longrightarrow> ts = ts')
   \<and> \<not> sqlite3_complete None
   \<and> sqlite3_complete16 init zSql8 =
       (if init \<noteq> 0 then init
        else case zSql8 of None \<Rightarrow> 7 | Some z8 \<Rightarrow> if sqlite3_complete (Some z8) then 1 else 0)"
proof -
  have "accepts 0 ts = (ts \<noteq> [] \<and> only_statements ts)" if "sql_tokens z = Some ts" for ts
  proof (cases ts)
    case (Cons t r)
    then have "t \<noteq> tkWS" using no_white[OF that] by auto
    then have "accepts 0 ts = accepts 1 ts" using next_state_table(1)[of t] by (simp add: Cons del: next_state_table)
    then show ?thesis using accepts_statements[OF no_white[OF that]] Cons by simp
  qed simp
  then have "sqlite3_complete (Some z) \<longleftrightarrow> (\<exists>ts. sql_tokens z = Some ts \<and> ts \<noteq> [] \<and> only_statements ts)"
    using complete_loop_tokens[of 0 z] by (auto simp: sqlite3_complete_def split: option.splits)
  moreover have read: "sql_tokens z = Some ts \<longleftrightarrow> lexed z ts" for ts
    using sql_tokens_lexed[OF assms] lexed_sql_tokens[OF _ assms] by blast
  moreover have "lexed z ts \<Longrightarrow> lexed z ts' \<Longrightarrow> ts = ts'" for ts ts'
    unfolding read[symmetric] by simp
  moreover have "sqlite3_complete16 init zSql8 =
       (if init \<noteq> 0 then init
        else case zSql8 of None \<Rightarrow> 7 | Some z8 \<Rightarrow> if sqlite3_complete (Some z8) then 1 else 0)"
    by (simp add: sqlite3_complete16_def split: option.split)
  moreover have "\<not> sqlite3_complete None" by (simp add: sqlite3_complete_def)
  ultimately show ?thesis by (simp only: read) blast
qed

theorem sqlite_complete_correct_witness:
  "sqlite3_complete (Some [47, 42, 59, 42, 47, 120, 59]) \<and> \<not> sqlite3_complete (Some [47, 42, 59, 42, 47])
   \<and> sqlite3_complete16 7 None = 7"
proof -
  have x: "id_byte 120" "\<not> id_byte 59" "word_kind [120] = tkOTHER"
    by (simp_all add: id_byte_def word_kind_def ascii_def lower_spec_def)
  have "lexed [59] [tkSEMI]" using lexed.one_more[OF lexeme.semicolon lexed.nothing] by simp
  then have "lexed [120, 59] [tkOTHER, tkSEMI]"
    using lexed.one_more[OF lexeme.word_token[of "[120]" "[59]"]] x by simp
  moreover have comment: "lexeme [47, 42, 59, 42, 47] tkWS rest" for rest
    using lexeme.block_comment[of "[59]" rest] by (simp add: sublist_Cons_right)
  ultimately have "lexed [47, 42, 59, 42, 47, 120, 59] [tkOTHER, tkSEMI]"
    using lexed.one_more[OF comment] by fastforce
  moreover have "only_statements [tkOTHER, tkSEMI]"
    by (simp add: only_statements.simps[of "[tkOTHER, tkSEMI]"] only_statements.simps[of "[]"]
        after_statement_def trigger_body_def)
  moreover have "c_string [47, 42, 59, 42, 47, 120, 59]" by simp
  ultimately have complete: "sqlite3_complete (Some [47, 42, 59, 42, 47, 120, 59])"
    using sqlite_complete_correct[THEN conjunct1, of "[47, 42, 59, 42, 47, 120, 59]"] by (metis list.distinct(1))
  have empty: "lexed [47, 42, 59, 42, 47] []" using lexed.one_more[OF comment lexed.nothing] by simp
  have c: "c_string [47, 42, 59, 42, 47]" by simp
  note comment_only = sqlite_complete_correct[OF c, of 7 None]
  have "\<not> sqlite3_complete (Some [47, 42, 59, 42, 47])"
    using comment_only[THEN conjunct1] comment_only[THEN conjunct2, THEN conjunct1] empty by blast
  moreover have "sqlite3_complete16 7 None = 7" using comment_only by simp
  ultimately show ?thesis using complete by blast
qed

end
