(* ===== verification/LZ_Cache_Router.thy ===== *)
theory LZ_Cache_Router
  imports LZ_Cache_Index
begin

text \<open>
  \<open>LZCacheRouter.mm\<close> with its stores \<open>LZMemoryCache.m\<close> and \<open>LZDiskCache.m\<close> and \<open>LZPreloadManager.m\<close>: who
  asks for a range of a song gets it from memory, from the file on disk or from the network.

  A block on the router's queue is one step. What runs elsewhere is a step of its own: replies of the
  downloader, the writes on the serial queue of the disk store, the retries after a delay, evictions
  of \<open>NSCache\<close>, and, one by one, what a preload does when its bytes are there. The downloader checks no
  status: a reply may be any bytes. A completion block is named by its request; it is called when the request is put into
  \<open>answers\<close> with its data, \<open>None\<close> for an error. The file name is a hash of the key, a parameter; so is
  the search of a song in the database, whose table of cached songs is \<open>db\<close>.
\<close>

section \<open>Keys\<close>

fun decimal :: "nat \<Rightarrow> string" where
  "decimal n = (if n < 10 then [char_of (48 + n)] else decimal (n div 10) @ [char_of (48 + n mod 10)])"

declare decimal.simps [simp del]

definition blockKey :: "string \<Rightarrow> u64 \<Rightarrow> string" where
  "blockKey key off = key @ ''_'' @ decimal (unat off)"

definition taskKey :: "string \<Rightarrow> u64 \<Rightarrow> u64 \<Rightarrow> string" where
  "taskKey key off len = key @ ''_'' @ decimal (unat off) @ ''_'' @ decimal (unat len)"

section \<open>The stores\<close>

record lz_memory =
  cache :: "string \<rightharpoonup> bytes"
  keyMap :: "string \<rightharpoonup> u64 set"

definition memory_read :: "string \<Rightarrow> u64 \<Rightarrow> lz_memory \<Rightarrow> bytes option" where
  "memory_read key off m = cache m (blockKey key off)"

definition memory_write :: "bytes option \<Rightarrow> u64 \<Rightarrow> string \<Rightarrow> lz_memory \<Rightarrow> lz_memory" where
  "memory_write data off key m =
     (case data of
        None \<Rightarrow> m
      | Some d \<Rightarrow>
          m\<lparr>cache := (cache m)(blockKey key off \<mapsto> d),
            keyMap := (keyMap m)(key \<mapsto> insert off (case keyMap m key of None \<Rightarrow> {} | Some s \<Rightarrow> s))\<rparr>)"

definition memory_clear :: "lz_memory \<Rightarrow> lz_memory" where
  "memory_clear m = m\<lparr>cache := Map.empty\<rparr>"

definition keyMapHasObjectForKey :: "string \<Rightarrow> lz_memory \<Rightarrow> bool" where
  "keyMapHasObjectForKey key m = (keyMap m key \<noteq> None)"

definition removeAllBlocksForKey :: "string \<Rightarrow> lz_memory \<Rightarrow> lz_memory" where
  "removeAllBlocksForKey key m =
     (let offsets = (case keyMap m key of None \<Rightarrow> {} | Some s \<Rightarrow> s)
      in m\<lparr>cache := (\<lambda>k. if k \<in> blockKey key ` offsets then None else cache m k),
           keyMap := (keyMap m)(key := None)\<rparr>)"

type_synonym lz_disk = "string \<rightharpoonup> bytes"

definition disk_read :: "(string \<Rightarrow> string) \<Rightarrow> string \<Rightarrow> u64 \<Rightarrow> u64 \<Rightarrow> lz_disk \<Rightarrow> bytes option" where
  "disk_read sha key off len d = map_option (\<lambda>f. take (unat len) (drop (unat off) f)) (d (sha key))"

text \<open>Seeking behind the end and writing fills the gap with zeros.\<close>

definition disk_write :: "(string \<Rightarrow> string) \<Rightarrow> bytes \<Rightarrow> u64 \<Rightarrow> string \<Rightarrow> lz_disk \<Rightarrow> lz_disk" where
  "disk_write sha data off key d =
     d(sha key \<mapsto> write_at 0 (unat off) data (case d (sha key) of None \<Rightarrow> [] | Some f \<Rightarrow> f))"

section \<open>The router\<close>

record request =
  rid :: nat
  rkey :: string
  roff :: u64
  rlen :: u64

record io_write =
  wdata :: bytes
  woff :: u64
  wkey :: string
  waiting :: "request list option"

record app =
  sha256String :: "string \<Rightarrow> string"
  querySong :: "string \<Rightarrow> nat option"

record router =
  rindex :: lz_index
  memory :: lz_memory
  disk :: lz_disk
  pendingCallbacks :: "string \<rightharpoonup> request list"
  downloads :: "request list"
  preloads :: "(string \<times> u64 \<times> u64) list"
  for_memory :: "(string \<times> u64 \<times> bytes) list"
  for_index :: "(string \<times> u64 \<times> bytes) list"
  io :: "io_write list"
  checks :: "string list"
  retries :: "request list"
  answers :: "(request \<times> bytes option) list"
  db :: "nat \<rightharpoonup> string \<times> u64 \<times> bool"

definition router_init :: "lz_disk \<Rightarrow> router" where
  "router_init d = \<lparr>rindex = empty_index, memory = \<lparr>cache = Map.empty, keyMap = Map.empty\<rparr>, disk = d,
     pendingCallbacks = Map.empty, downloads = [], preloads = [], for_memory = [], for_index = [], io = [], checks = [], retries = [], answers = [], db = Map.empty\<rparr>"

abbreviation task :: "request \<Rightarrow> string" where "task r \<equiv> taskKey (rkey r) (roff r) (rlen r)"

definition data_length :: "bytes option \<Rightarrow> nat" where
  "data_length data = (case data of None \<Rightarrow> 0 | Some d \<Rightarrow> length d)"

definition syncCacheInfoToDBForKey :: "app \<Rightarrow> string \<Rightarrow> router \<Rightarrow> router" where
  "syncCacheInfoToDBForKey e key s =
     (if key = [] then s
      else case querySong e key of
          None \<Rightarrow> s
        | Some sid \<Rightarrow>
            (let cached = cachedTotalLengthForKey (Some key) (rindex s);
                 total = (case totalLengthForKey (Some key) (rindex s) of None \<Rightarrow> 0 | Some n \<Rightarrow> n);
                 completed = (sint total > 0 \<and> sint cached \<ge> sint total)
             in s\<lparr>db := (db s)(sid \<mapsto> (sha256String e key, cached, completed))\<rparr>))"

text \<open>The block \<open>getDataForKey\<close> puts on the queue of the router.\<close>

definition getData_block :: "app \<Rightarrow> request \<Rightarrow> router \<Rightarrow> router" where
  "getData_block e r s =
     (let memData = memory_read (rkey r) (roff r) (memory s);
          diskData = disk_read (sha256String e) (rkey r) (roff r) (rlen r) (disk s)
      in if data_length memData = unat (rlen r) then s\<lparr>answers := answers s @ [(r, memData)]\<rparr>
         else if data_length diskData = unat (rlen r) then
           (let s = s\<lparr>memory := memory_write diskData (roff r) (rkey r) (memory s),
                      rindex := addRangeForKey (Some (rkey r)) (roff r) (of_nat (data_length diskData)) (rindex s)\<rparr>;
                s = syncCacheInfoToDBForKey e (rkey r) s
            in s\<lparr>answers := answers s @ [(r, diskData)]\<rparr>)
         else case pendingCallbacks s (task r) of
             Some callbacks \<Rightarrow> s\<lparr>pendingCallbacks := (pendingCallbacks s)(task r \<mapsto> callbacks @ [r])\<rparr>
           | None \<Rightarrow>
               (let (canDownload, i) = markRangeLoadingForKey (Some (rkey r)) (roff r) (rlen r) (rindex s)
                in if \<not> canDownload then s\<lparr>rindex := i, retries := retries s @ [r]\<rparr>
                   else s\<lparr>rindex := i, pendingCallbacks := (pendingCallbacks s)(task r \<mapsto> [r]),
                          downloads := downloads s @ [r]\<rparr>))"

definition getDataForKey :: "app \<Rightarrow> bool \<Rightarrow> request \<Rightarrow> router \<Rightarrow> router" where
  "getDataForKey e key_and_url r s =
     (if \<not> key_and_url then s\<lparr>answers := answers s @ [(r, None)]\<rparr> else getData_block e r s)"

definition download_done :: "request \<Rightarrow> bytes option \<Rightarrow> router \<Rightarrow> router" where
  "download_done r data s =
     (let waitingCallbacks = (case pendingCallbacks s (task r) of None \<Rightarrow> [] | Some cs \<Rightarrow> cs);
          s = s\<lparr>downloads := remove1 r (downloads s),
                pendingCallbacks := (pendingCallbacks s)(task r := None),
                rindex := unmarkRangeLoadingForKey (Some (rkey r)) (roff r) (rlen r) (rindex s)\<rparr>
      in if data_length data > 0 then
           s\<lparr>memory := memory_write data (roff r) (rkey r) (memory s),
             rindex := addRangeForKey (Some (rkey r)) (roff r) (of_nat (data_length data)) (rindex s),
             io := io s @ [\<lparr>wdata = the data, woff = roff r, wkey = rkey r, waiting = Some waitingCallbacks\<rparr>]\<rparr>
         else s\<lparr>answers := answers s @ map (\<lambda>c. (c, None)) waitingCallbacks\<rparr>)"

definition disk_done :: "(string \<Rightarrow> string) \<Rightarrow> router \<Rightarrow> router" where
  "disk_done sha s =
     (case io s of
        [] \<Rightarrow> s
      | w # ws \<Rightarrow>
          (let s = s\<lparr>io := ws, disk := disk_write sha (wdata w) (woff w) (wkey w) (disk s)\<rparr>
           in case waiting w of
                None \<Rightarrow> s
              | Some cs \<Rightarrow> s\<lparr>answers := answers s @ map (\<lambda>c. (c, Some (wdata w))) cs, checks := checks s @ [wkey w]\<rparr>))"

text \<open>The block that plans the next piece of the song.\<close>

definition plan_preload :: "app \<Rightarrow> router \<Rightarrow> router" where
  "plan_preload e s =
     (case checks s of
        [] \<Rightarrow> s
      | key # ks \<Rightarrow>
          (let s = syncCacheInfoToDBForKey e key (s\<lparr>checks := ks\<rparr>)
           in if \<not> isCompletedForKey (Some key) (rindex s) then
                let next_offset = nextMissingOffsetForKey (Some key) (rindex s);
                    preLen = 256 * 1024
                in if \<not> isRangeLoadingForKey (Some key) next_offset preLen (rindex s)
                   then s\<lparr>preloads := preloads s @ [(key, next_offset, preLen)]\<rparr> else s
              else s))"

text \<open>The completion of a preload runs on the queue of the downloader: it hands the bytes to the disk store,
  then writes them to memory, then to the index, and blocks of the router may come in between.\<close>

definition preload_done :: "string \<times> u64 \<times> u64 \<Rightarrow> bytes option \<Rightarrow> router \<Rightarrow> router" where
  "preload_done p data s =
     (case p of (key, off, len) \<Rightarrow>
        let s = s\<lparr>preloads := remove1 p (preloads s)\<rparr>
        in if data_length data > 0 then
             s\<lparr>io := io s @ [\<lparr>wdata = the data, woff = off, wkey = key, waiting = None\<rparr>],
               for_memory := for_memory s @ [(key, off, the data)]\<rparr>
           else s)"

definition preload_memory :: "string \<times> u64 \<times> bytes \<Rightarrow> router \<Rightarrow> router" where
  "preload_memory x s =
     (case x of (key, off, d) \<Rightarrow>
        s\<lparr>memory := memory_write (Some d) off key (memory s), for_memory := remove1 x (for_memory s),
          for_index := for_index s @ [x]\<rparr>)"

definition preload_index :: "string \<times> u64 \<times> bytes \<Rightarrow> router \<Rightarrow> router" where
  "preload_index x s =
     (case x of (key, off, d) \<Rightarrow>
        s\<lparr>rindex := addRangeForKey (Some key) off (of_nat (length d)) (rindex s), for_index := remove1 x (for_index s)\<rparr>)"

section \<open>Runs\<close>

text \<open>A reply of the downloader is an error or the body the server sent, whatever the server did with the
  range it was asked for: any bytes, as many as there are addresses for. \<open>deliver\<close> records it: \<open>F\<close> are the
  bytes the downloader has handed over so far, each with the key and the offset they were asked for.\<close>

definition reply_ok :: "u64 \<Rightarrow> bytes option \<Rightarrow> bool" where
  "reply_ok off data \<longleftrightarrow> (case data of None \<Rightarrow> True | Some d \<Rightarrow> unat off + length d < 2 ^ 64)"

type_synonym deliveries = "(string \<times> u64 \<times> bytes) set"

definition deliver :: "string \<Rightarrow> u64 \<Rightarrow> bytes option \<Rightarrow> deliveries \<Rightarrow> deliveries" where
  "deliver key off data F = (case data of None \<Rightarrow> F | Some d \<Rightarrow> insert (key, off, d) F)"

definition request_ok :: "request \<Rightarrow> bool" where
  "request_ok r \<longleftrightarrow> rkey r \<noteq> [] \<and> fits (roff r) (rlen r)"

text \<open>\<open>runs e d F R s\<close>: from the files \<open>d\<close> of earlier runs the router comes to \<open>s\<close>, with the requests \<open>R\<close>
  and the deliveries \<open>F\<close>.\<close>

inductive runs :: "app \<Rightarrow> lz_disk \<Rightarrow> deliveries \<Rightarrow> request multiset \<Rightarrow> router \<Rightarrow> bool"
  for e d where
  start: "runs e d {} {#} (router_init d)"
| get_data: "runs e d F R s \<Longrightarrow> request_ok r \<Longrightarrow> runs e d F (add_mset r R) (getDataForKey e valid r s)"
| retry: "runs e d F R s \<Longrightarrow> r \<in> set (retries s) \<Longrightarrow>
    runs e d F R (getDataForKey e True r (s\<lparr>retries := remove1 r (retries s)\<rparr>))"
| reply: "runs e d F R s \<Longrightarrow> r \<in> set (downloads s) \<Longrightarrow> reply_ok (roff r) data \<Longrightarrow>
    runs e d (deliver (rkey r) (roff r) data F) R (download_done r data s)"
| written: "runs e d F R s \<Longrightarrow> runs e d F R (disk_done (sha256String e) s)"
| planned: "runs e d F R s \<Longrightarrow> runs e d F R (plan_preload e s)"
| preloaded: "runs e d F R s \<Longrightarrow> (k, off, len) \<in> set (preloads s) \<Longrightarrow> reply_ok off data \<Longrightarrow>
    runs e d (deliver k off data F) R (preload_done (k, off, len) data s)"
| remembered: "runs e d F R s \<Longrightarrow> x \<in> set (for_memory s) \<Longrightarrow> runs e d F R (preload_memory x s)"
| indexed: "runs e d F R s \<Longrightarrow> x \<in> set (for_index s) \<Longrightarrow> runs e d F R (preload_index x s)"
| sized: "runs e d F R s \<Longrightarrow> runs e d F R (s\<lparr>rindex := setTotalLength n key (rindex s)\<rparr>)"
| evicted: "runs e d F R s \<Longrightarrow> runs e d F R (s\<lparr>memory := (memory s)\<lparr>cache := (cache (memory s))(b := None)\<rparr>\<rparr>)"
| removed: "runs e d F R s \<Longrightarrow> runs e d F R (s\<lparr>memory := removeAllBlocksForKey k (memory s)\<rparr>)"
| cleared: "runs e d F R s \<Longrightarrow> runs e d F R (s\<lparr>memory := memory_clear (memory s)\<rparr>)"

lemma sync_keeps [simp]:
  "rindex (syncCacheInfoToDBForKey e k s) = rindex s" "memory (syncCacheInfoToDBForKey e k s) = memory s"
  "disk (syncCacheInfoToDBForKey e k s) = disk s" "io (syncCacheInfoToDBForKey e k s) = io s"
  "pendingCallbacks (syncCacheInfoToDBForKey e k s) = pendingCallbacks s"
  "downloads (syncCacheInfoToDBForKey e k s) = downloads s" "preloads (syncCacheInfoToDBForKey e k s) = preloads s"
  "for_memory (syncCacheInfoToDBForKey e k s) = for_memory s" "for_index (syncCacheInfoToDBForKey e k s) = for_index s"
  "checks (syncCacheInfoToDBForKey e k s) = checks s" "retries (syncCacheInfoToDBForKey e k s) = retries s"
  "answers (syncCacheInfoToDBForKey e k s) = answers s"
  by (simp_all add: syncCacheInfoToDBForKey_def Let_def split: option.split)

section \<open>Keys are unambiguous\<close>

lemma decimal_digits: "c \<in> set (decimal n) \<Longrightarrow> \<exists>k :: nat. k < 10 \<and> c = char_of (48 + k)"
proof (induction n rule: decimal.induct)
  case (1 n)
  show ?case
  proof (cases "n < 10")
    case True
    then show ?thesis using "1.prems" by (subst (asm) decimal.simps) auto
  next
    case False
    then have step: "decimal n = decimal (n div 10) @ [char_of (48 + n mod 10)]" by (subst decimal.simps) simp
    have "c \<in> set (decimal (n div 10)) \<or> c = char_of (48 + n mod 10)" using "1.prems" unfolding step by auto
    moreover have "n mod 10 < 10" by simp
    ultimately show ?thesis using "1.IH"[OF False] by blast
  qed
qed

lemma underscore_free: "CHR ''_'' \<notin> set (decimal n)"
proof
  assume "CHR ''_'' \<in> set (decimal n)"
  then obtain k :: nat where k: "k < 10" "CHR ''_'' = char_of (48 + k)" using decimal_digits by blast
  have "(of_char CHR ''_'' :: nat) = 95" by (simp add: of_char_def)
  moreover have "of_char (char_of (48 + k)) = (48 + k) mod 256" by (simp add: of_char_of)
  ultimately show False using k by simp
qed

definition decimal_value :: "string \<Rightarrow> nat" where
  "decimal_value s = foldl (\<lambda>v c. v * 10 + (of_char c - 48)) 0 s"

lemma decimal_value: "decimal_value (decimal n) = n"
proof (induction n rule: decimal.induct)
  case (1 n)
  have digit: "of_char (char_of (48 + k :: nat)) - 48 = k" if "k < 10" for k using that by (simp add: of_char_of)
  show ?case
  proof (cases "n < 10")
    case True
    then show ?thesis by (subst decimal.simps) (simp add: decimal_value_def digit)
  next
    case False
    then have "decimal_value (decimal n) = decimal_value (decimal (n div 10)) * 10 + n mod 10"
      by (subst decimal.simps) (simp add: decimal_value_def digit)
    then show ?thesis using 1 False by simp
  qed
qed

lemma decimal_inj [simp]: "decimal m = decimal n \<longleftrightarrow> m = n"
  using decimal_value by metis

lemma blockKey_inj [simp]: "blockKey k a = blockKey l b \<longleftrightarrow> k = l \<and> a = b"
  by (simp add: blockKey_def split_at_last underscore_free word_unat_eq_iff)

lemma taskKey_inj [simp]: "taskKey k a m = taskKey l b n \<longleftrightarrow> k = l \<and> a = b \<and> m = n"
proof -
  have t: "taskKey k a m = blockKey k a @ CHR ''_'' # decimal (unat m)" for k a m
    by (simp add: taskKey_def blockKey_def)
  show ?thesis unfolding t split_at_last[OF underscore_free underscore_free] by (auto simp: word_unat_eq_iff)
qed

section \<open>No request is lost\<close>

definition waiters :: "(string \<rightharpoonup> request list) \<Rightarrow> request multiset" where
  "waiters p = (\<Sum>t \<in> dom p. mset (the (p t)))"

lemma waiters_upd:
  "finite (dom p) \<Longrightarrow> waiters (p(t \<mapsto> l)) + mset (case p t of None \<Rightarrow> [] | Some m \<Rightarrow> m) = waiters p + mset l"
proof -
  assume fin: "finite (dom p)"
  have rest: "(\<Sum>x \<in> dom p - {t}. mset (the ((p(t \<mapsto> l)) x))) = (\<Sum>x \<in> dom p - {t}. mset (the (p x)))"
    by (rule sum.cong) auto
  have "waiters (p(t \<mapsto> l)) = (\<Sum>x \<in> insert t (dom p - {t}). mset (the ((p(t \<mapsto> l)) x)))"
    unfolding waiters_def by (rule sum.cong) auto
  also have "\<dots> = mset (the ((p(t \<mapsto> l)) t)) + (\<Sum>x \<in> dom p - {t}. mset (the ((p(t \<mapsto> l)) x)))"
    by (rule sum.insert) (use fin in auto)
  finally have new: "waiters (p(t \<mapsto> l)) = mset l + (\<Sum>x \<in> dom p - {t}. mset (the (p x)))"
    unfolding rest by simp
  show ?thesis
  proof (cases "p t")
    case None
    then have "dom p - {t} = dom p" by auto
    then show ?thesis using new None by (simp add: waiters_def)
  next
    case (Some m)
    then have "waiters p = mset m + (\<Sum>x \<in> dom p - {t}. mset (the (p x)))"
      unfolding waiters_def using fin by (subst sum.remove[of _ t]) auto
    then show ?thesis using new Some by simp
  qed
qed

lemma waiters_del:
  "finite (dom p) \<Longrightarrow> waiters (p(t := None)) + mset (case p t of None \<Rightarrow> [] | Some m \<Rightarrow> m) = waiters p"
proof (cases "p t")
  case None
  then show ?thesis by (simp add: fun_upd_idem)
next
  case (Some m)
  assume fin: "finite (dom p)"
  have "waiters (p(t := None)) = (\<Sum>x \<in> dom p - {t}. mset (the (p x)))"
    unfolding waiters_def by (rule sum.cong) auto
  moreover have "waiters p = mset m + (\<Sum>x \<in> dom p - {t}. mset (the (p x)))"
    unfolding waiters_def using fin Some by (subst sum.remove[of _ t]) auto
  ultimately show ?thesis using Some by simp
qed

lemma first_of_pairs [simp]: "image_mset fst (image_mset (\<lambda>c. (c, x)) M) = M"
  by (induction M) auto

definition io_waiters :: "io_write list \<Rightarrow> request multiset" where
  "io_waiters ws = (\<Sum>w \<leftarrow> ws. mset (case waiting w of None \<Rightarrow> [] | Some cs \<Rightarrow> cs))"

text \<open>Every request made is in exactly one place.\<close>

definition conserved :: "request multiset \<Rightarrow> router \<Rightarrow> bool" where
  "conserved R s \<longleftrightarrow> finite (dom (pendingCallbacks s))
     \<and> R = mset (retries s) + waiters (pendingCallbacks s) + io_waiters (io s) + mset (map fst (answers s))"

lemma conserved_get:
  assumes "conserved R s"
  shows "conserved (add_mset r R) (getDataForKey e valid r s)"
proof -
  have fin: "finite (dom (pendingCallbacks s))" using assms by (simp add: conserved_def)
  show ?thesis
    using assms waiters_upd[OF fin, of "task r" "[r]"] waiters_upd[OF fin, of "task r" "the (pendingCallbacks s (task r)) @ [r]"]
    by (auto simp: conserved_def getDataForKey_def getData_block_def Let_def split_beta split: option.splits)
qed

lemma conserved_reply: "conserved R s \<Longrightarrow> conserved R (download_done r data s)"
proof -
  assume a: "conserved R s"
  then have fin: "finite (dom (pendingCallbacks s))" by (simp add: conserved_def)
  have fin': "finite (dom ((pendingCallbacks s)(task r := None)))" using fin by simp
  have io: "io_waiters (io s @ [w]) = io_waiters (io s) + mset (case waiting w of None \<Rightarrow> [] | Some cs \<Rightarrow> cs)" for w
    by (simp add: io_waiters_def)
  show ?thesis
    using a fin' waiters_del[OF fin, of "task r"]
    by (simp add: conserved_def download_done_def Let_def io ac_simps)
qed

lemma conserved_disk: "conserved R s \<Longrightarrow> conserved R (disk_done sha s)"
  by (cases "io s") (auto simp: conserved_def disk_done_def Let_def io_waiters_def split: option.splits)

lemma conserved_plan: "conserved R s \<Longrightarrow> conserved R (plan_preload e s)"
  by (cases "checks s") (auto simp: conserved_def plan_preload_def Let_def)

lemma conserved_preload: "conserved R s \<Longrightarrow> conserved R (preload_done p data s)"
  by (auto simp: conserved_def preload_done_def Let_def io_waiters_def split: prod.splits)

lemma conserved_late: "conserved R s \<Longrightarrow> conserved R (preload_memory x s)" "conserved R s \<Longrightarrow> conserved R (preload_index x s)"
  by (auto simp: conserved_def preload_memory_def preload_index_def split: prod.splits)

lemma runs_conserved: "runs e d F R s \<Longrightarrow> conserved R s"
proof (induction rule: runs.induct)
  case start
  then show ?case by (simp add: conserved_def router_init_def waiters_def io_waiters_def)
next
  case (retry F R s r)
  then have "conserved (R - {#r#}) (s\<lparr>retries := remove1 r (retries s)\<rparr>)" "r \<in># R"
    by (auto simp: conserved_def)
  then show ?case using conserved_get[of "R - {#r#}" "s\<lparr>retries := remove1 r (retries s)\<rparr>" r e True] by simp
next
  case (evicted F R s b)
  then show ?case by (simp add: conserved_def)
next
  case (removed F R s k)
  then show ?case by (simp add: conserved_def)
next
  case (cleared F R s)
  then show ?case by (simp add: conserved_def)
next
  case (sized F R s n key)
  then show ?case by (simp add: conserved_def)
qed (simp_all add: conserved_get conserved_reply conserved_disk conserved_plan conserved_preload conserved_late)

section \<open>Downloads\<close>

text \<open>Waiting callbacks belong to a download, whose range is marked; so these downloads do not overlap.
  Preloads take no mark.\<close>

definition late_ok :: "string \<times> u64 \<times> bytes \<Rightarrow> bool" where
  "late_ok x \<longleftrightarrow> (case x of (k, off, d) \<Rightarrow> k \<noteq> [] \<and> fits off (of_nat (length d)))"

definition tracked :: "router \<Rightarrow> bool" where
  "tracked s \<longleftrightarrow> index_inv (rindex s) \<and> distinct (map task (downloads s))
     \<and> dom (pendingCallbacks s) = set (map task (downloads s))
     \<and> (\<forall>r \<in> set (downloads s). legal_request (Some (rkey r)) (roff r) (rlen r))
     \<and> (\<forall>r \<in> set (retries s). request_ok r)
     \<and> [] \<notin> wkey ` set (io s) \<and> [] \<notin> set (checks s) \<and> [] \<notin> fst ` set (preloads s)
     \<and> (\<forall>x \<in> set (for_memory s) \<union> set (for_index s). late_ok x)
     \<and> (\<forall>k. held_claims (rindex s) (Some k) = {(roff r, rlen r) | r. r \<in> set (downloads s) \<and> rkey r = k})
     \<and> sorted_wrt (\<lambda>r q. rkey r = rkey q \<longrightarrow> span (roff r) (rlen r) \<inter> span (roff q) (rlen q) = {}) (downloads s)"

lemma index_inv_add_any:
  "index_inv i \<Longrightarrow> k \<noteq> [] \<Longrightarrow> fits off (of_nat n) \<Longrightarrow> index_inv (addRangeForKey (Some k) off (of_nat n) i)"
proof (cases "(of_nat n :: u64) = 0")
  case True
  assume "index_inv i"
  then show ?thesis using True by (simp add: addRangeForKey_def)
next
  case False
  assume "index_inv i" "k \<noteq> []" "fits off (of_nat n)"
  then show ?thesis using False by (intro index_inv_add) (auto simp: legal_request_def)
qed

lemma add_keeps_loading [simp]: "loading (addRangeForKey k off n i) = loading i"
  by (simp add: addRangeForKey_def Let_def)

lemma held_add [simp]: "held_claims (addRangeForKey k off n i) = held_claims i"
  by (rule ext) (simp add: held_claims_def split: option.split)

lemma fits_less: "fits off len \<Longrightarrow> n \<le> unat len \<Longrightarrow> fits off (of_nat n)"
proof -
  assume a: "fits off len" "n \<le> unat len"
  have "unat len < 2 ^ LENGTH(64)" by (rule unsigned_less)
  then have "n < 2 ^ 64" using a by simp
  then have "unat (of_nat n :: u64) = n" by (simp add: unsigned_of_nat take_bit_nat_eq_self)
  then show ?thesis using a by (simp add: fits_def)
qed

lemma tracked_block:
  assumes "tracked s" "request_ok r"
  shows "tracked (getData_block e r s)"
proof -
  let ?mem = "memory_read (rkey r) (roff r) (memory s)" and ?disk = "disk_read (sha256String e) (rkey r) (roff r) (rlen r) (disk s)"
  obtain can i where mark: "markRangeLoadingForKey (Some (rkey r)) (roff r) (rlen r) (rindex s) = (can, i)" by (rule prod.exhaust)
  have r: "rkey r \<noteq> []" "fits (roff r) (rlen r)" using assms(2) by (auto simp: request_ok_def)
  have inv: "index_inv (rindex s)" using assms(1) by (simp add: tracked_def)
  consider "data_length ?mem = unat (rlen r)" | "data_length ?mem \<noteq> unat (rlen r)" "data_length ?disk = unat (rlen r)"
    | callbacks where "data_length ?mem \<noteq> unat (rlen r)" "data_length ?disk \<noteq> unat (rlen r)" "pendingCallbacks s (task r) = Some callbacks"
    | "data_length ?mem \<noteq> unat (rlen r)" "data_length ?disk \<noteq> unat (rlen r)" "pendingCallbacks s (task r) = None"
    by (cases "pendingCallbacks s (task r)") auto
  then show ?thesis
  proof cases
    case 1
    then show ?thesis using assms(1) by (simp add: getData_block_def tracked_def)
  next
    case 2
    have "index_inv (addRangeForKey (Some (rkey r)) (roff r) (of_nat (data_length ?disk)) (rindex s))"
      by (intro index_inv_add_any inv r(1) fits_less[OF r(2)]) (simp add: 2)
    then show ?thesis using 2 assms(1) by (simp add: getData_block_def tracked_def Let_def)
  next
    case 3
    then have "insert (task r) (dom (pendingCallbacks s)) = dom (pendingCallbacks s)" by auto
    then show ?thesis using 3 assms(1) by (simp add: getData_block_def tracked_def)
  next
    case 4
    have "rlen r \<noteq> 0"
    proof
      assume "rlen r = 0"
      then show False using 4(2) by (simp add: disk_read_def data_length_def split: option.splits)
    qed
    then have legal: "legal_request (Some (rkey r)) (roff r) (rlen r)" using r by (simp add: legal_request_def)
    note marks = mark_iff[OF inv legal, unfolded mark fst_conv] index_inv_mark[OF inv legal, unfolded mark snd_conv]
      held_mark[OF legal, of "rindex s", unfolded mark fst_conv snd_conv]
    show ?thesis
    proof (cases can)
      case False
      then have "held_claims i = held_claims (rindex s)" using marks(3) by auto
      then show ?thesis using False 4 assms marks(2) by (simp add: getData_block_def tracked_def mark)
    next
      case True
      have "span (roff q) (rlen q) \<inter> span (roff r) (rlen r) = {}" if "q \<in> set (downloads s)" "rkey q = rkey r" for q
        using marks(1) True assms(1) that by (fastforce simp: tracked_def)
      moreover have "task r \<notin> set (map task (downloads s))" proof -
        have "dom (pendingCallbacks s) = set (map task (downloads s))" using assms(1) by (simp add: tracked_def)
        then show ?thesis using 4(3) by (metis domIff)
      qed
      moreover have "held_claims i (Some k) = {(roff q, rlen q) |q. q \<in> set (downloads s @ [r]) \<and> rkey q = k}" for k
      proof -
        have "held_claims (rindex s) (Some k) = {(roff q, rlen q) |q. q \<in> set (downloads s) \<and> rkey q = k}"
          using assms(1) by (simp add: tracked_def)
        then show ?thesis using marks(3)[of "Some k"] True by (cases "k = rkey r") auto
      qed
      moreover have "getData_block e r s = s\<lparr>rindex := i, pendingCallbacks := (pendingCallbacks s)(task r \<mapsto> [r]),
          downloads := downloads s @ [r]\<rparr>"
        using True 4 by (simp add: getData_block_def mark)
      ultimately show ?thesis
        using assms legal marks(2) unfolding tracked_def by (simp add: sorted_wrt_append)
    qed
  qed
qed

lemma tracked_get: "tracked s \<Longrightarrow> request_ok r \<Longrightarrow> tracked (getDataForKey e valid r s)"
  by (cases valid) (simp_all add: getDataForKey_def tracked_block, simp add: tracked_def)

lemma sorted_wrt_remove1: "sorted_wrt P xs \<Longrightarrow> sorted_wrt P (remove1 x xs)"
  by (induction xs) (auto dest: notin_set_remove1 in_set_remove1[THEN iffD1, rotated] set_remove1_subset[THEN subsetD])

lemma reply_fits: "reply_ok off data \<Longrightarrow> fits off (of_nat (data_length data))"
proof (cases data)
  case (Some d)
  assume "reply_ok off data"
  then show ?thesis using Some by (simp add: reply_ok_def fits_def data_length_def unsigned_of_nat take_bit_nat_eq_self)
qed (use unsigned_less[of off] in \<open>simp add: data_length_def fits_def\<close>)

lemma tracked_reply:
  assumes "tracked s" "r \<in> set (downloads s)" "reply_ok (roff r) data"
  shows "tracked (download_done r data s)"
proof -
  have legal: "legal_request (Some (rkey r)) (roff r) (rlen r)" using assms(1,2) by (simp add: tracked_def)
  have d: "distinct (map task (downloads s))" using assms(1) by (simp add: tracked_def)
  then have set: "set (remove1 r (downloads s)) = set (downloads s) - {r}" by (simp add: distinct_map)
  have tasks: "task ` (set (downloads s) - {r}) = task ` set (downloads s) - {task r}"
    using d assms(2) by (auto simp: distinct_map inj_on_def)
  have inv: "index_inv (unmarkRangeLoadingForKey (Some (rkey r)) (roff r) (rlen r) (rindex s))"
    using assms(1) by (simp add: tracked_def index_inv_unmark)
  have inv': "index_inv (addRangeForKey (Some (rkey r)) (roff r) (of_nat (data_length data))
      (unmarkRangeLoadingForKey (Some (rkey r)) (roff r) (rlen r) (rindex s)))"
    using legal reply_fits[OF assms(3)] by (intro index_inv_add_any inv) (auto simp: legal_request_def)
  have claims: "{(roff q, rlen q) |q. q \<in> set (downloads s) \<and> rkey q = k} - (if k = rkey r then {(roff r, rlen r)} else {})
      = {(roff q, rlen q) |q. (q \<in> set (downloads s) \<and> q \<noteq> r) \<and> rkey q = k}" for k
  proof -
    have "q = r" if "q \<in> set (downloads s)" "rkey q = rkey r" "roff q = roff r" "rlen q = rlen r" for q
    proof -
      have "inj_on task (set (downloads s))" using d by (simp add: distinct_map)
      moreover have "task q = task r" using that by simp
      ultimately show ?thesis using that(1) assms(2) by (rule inj_onD)
    qed
    then show ?thesis by auto
  qed
  have held: "held_claims (unmarkRangeLoadingForKey (Some (rkey r)) (roff r) (rlen r) (rindex s)) (Some k)
      = {(roff q, rlen q) |q. (q \<in> set (downloads s) \<and> q \<noteq> r) \<and> rkey q = k}" for k
  proof -
    have "held_claims (rindex s) (Some k) = {(roff q, rlen q) |q. q \<in> set (downloads s) \<and> rkey q = k}"
      using assms(1) by (simp add: tracked_def)
    then show ?thesis using claims[of k] unfolding held_unmark[OF legal] by (cases "k = rkey r") simp_all
  qed
  have "tracked (s\<lparr>downloads := remove1 r (downloads s), pendingCallbacks := (pendingCallbacks s)(task r := None),
      memory := m, rindex := i, io := w, answers := a\<rparr>)"
    if "[] \<notin> wkey ` set w" "index_inv i" "held_claims i = held_claims (unmarkRangeLoadingForKey (Some (rkey r)) (roff r) (rlen r) (rindex s))" for i m w a
    using assms(1) that held tasks sorted_wrt_remove1
    by (auto simp: tracked_def set distinct_map intro: distinct_remove1 inj_on_subset)
  note t = this
  have keys: "[] \<notin> wkey ` set (io s)" "rkey r \<noteq> []" using assms(1) legal by (auto simp: tracked_def legal_request_def)
  show ?thesis
  proof (cases "data_length data > 0")
    case True
    show ?thesis
      using t[OF _ inv' held_add, where w = "io s @ [\<lparr>wdata = the data, woff = roff r, wkey = rkey r,
          waiting = Some (case pendingCallbacks s (task r) of None \<Rightarrow> [] | Some cs \<Rightarrow> cs)\<rparr>]"
          and m = "memory_write data (roff r) (rkey r) (memory s)" and a = "answers s"] keys True
      by (simp add: download_done_def Let_def)
  next
    case False
    then show ?thesis
      using t[OF keys(1) inv refl, where m = "memory s"] by (simp add: download_done_def Let_def)
  qed
qed

lemma tracked_disk: "tracked s \<Longrightarrow> tracked (disk_done sha s)"
  by (cases "io s") (auto simp: tracked_def disk_done_def Let_def split: option.splits)

lemma tracked_plan: "tracked s \<Longrightarrow> tracked (plan_preload e s)"
  by (cases "checks s") (auto simp: tracked_def plan_preload_def Let_def)

lemma tracked_preload:
  assumes "tracked s" "(k, off, len) \<in> set (preloads s)" "reply_ok off data"
  shows "tracked (preload_done (k, off, len) data s)"
proof -
  have keys: "[] \<notin> fst ` set (preloads s)" using assms(1) by (simp add: tracked_def)
  moreover have "k \<in> fst ` set (preloads s)" using imageI[OF assms(2), of fst] by simp
  ultimately have k: "k \<noteq> []" by metis
  have pre: "[] \<notin> fst ` set (remove1 p (preloads s))" for p
    using keys image_mono[OF set_remove1_subset, of fst p "preloads s"] by (rule contra_subsetD[rotated])
  show ?thesis
  proof (cases "data_length data > 0")
    case True
    then obtain d where d: "data = Some d" by (cases data) (auto simp: data_length_def)
    have "late_ok (k, off, d)" using reply_fits[OF assms(3)] k by (simp add: late_ok_def d data_length_def)
    then show ?thesis
      using assms(1) k pre True by (simp add: preload_done_def tracked_def Let_def d ball_Un)
  next
    case False
    then show ?thesis using assms(1) pre by (simp add: preload_done_def tracked_def Let_def)
  qed
qed

lemma tracked_late:
  assumes "tracked s"
  shows "x \<in> set (for_memory s) \<Longrightarrow> tracked (preload_memory x s)"
    and "x \<in> set (for_index s) \<Longrightarrow> tracked (preload_index x s)"
proof -
  have ok: "\<forall>y \<in> set (for_memory s). late_ok y" "\<forall>y \<in> set (for_index s). late_ok y"
    using assms by (simp_all add: tracked_def ball_Un)
  have rest: "\<forall>y \<in> set (remove1 x ys). late_ok y" if "\<forall>y \<in> set ys. late_ok y" for ys
    using that by (meson notin_set_remove1)
  obtain k off d where x: "x = (k, off, d)" by (cases x)
  show "tracked (preload_memory x s)" if "x \<in> set (for_memory s)"
    using assms ok rest[OF ok(1)] that by (simp add: tracked_def preload_memory_def x ball_Un)
  show "tracked (preload_index x s)" if "x \<in> set (for_index s)"
  proof -
    have "k \<noteq> []" "fits off (of_nat (length d))" using ok(2) that by (auto simp: late_ok_def x)
    moreover have "index_inv (rindex s)" using assms by (simp add: tracked_def)
    ultimately have "index_inv (addRangeForKey (Some k) off (of_nat (length d)) (rindex s))"
      by (intro index_inv_add_any)
    then show ?thesis
      using assms ok rest[OF ok(2)] by (simp add: tracked_def preload_index_def x ball_Un)
  qed
qed

text \<open>A preload is planned beside the downloads that go on at that time.\<close>

lemma loading_iff:
  assumes "index_inv s" "k \<noteq> []" "fits st n" "n \<noteq> 0"
  shows "isRangeLoadingForKey (Some k) st n s \<longleftrightarrow> (\<exists>(a, m) \<in> held_claims s (Some k). span st n \<inter> span a m \<noteq> {})"
proof -
  have "isRangeLoadingForKey (Some k) st n s \<longleftrightarrow> \<not> fst (markRangeLoadingForKey (Some k) st n s)"
    using assms(2,4) by (auto simp: isRangeLoadingForKey_def markRangeLoadingForKey_def Let_def split: option.split)
  then show ?thesis using mark_iff[OF assms(1), of "Some k" st n] assms by (auto simp: legal_request_def)
qed

lemma plan_beside_downloads:
  assumes "tracked s"
  shows "preloads (plan_preload e s) = preloads s
    \<or> (\<exists>k off len. preloads (plan_preload e s) = preloads s @ [(k, off, len)]
        \<and> (fits off len \<longrightarrow> (\<forall>q \<in> set (downloads s). rkey q = k \<longrightarrow> span off len \<inter> span (roff q) (rlen q) = {})))"
proof (cases "checks s")
  case Nil
  then show ?thesis by (simp add: plan_preload_def)
next
  case (Cons k ks)
  let ?off = "nextMissingOffsetForKey (Some k) (rindex s)" and ?len = "256 * 1024 :: u64"
  have k: "k \<noteq> []" "index_inv (rindex s)" using assms Cons by (auto simp: tracked_def)
  have held: "held_claims (rindex s) (Some k) = {(roff r, rlen r) | r. r \<in> set (downloads s) \<and> rkey r = k}"
    using assms by (simp add: tracked_def)
  have len: "?len \<noteq> 0" by simp
  have "span ?off ?len \<inter> span (roff q) (rlen q) = {}"
    if "\<not> isRangeLoadingForKey (Some k) ?off ?len (rindex s)" "fits ?off ?len" "q \<in> set (downloads s)" "rkey q = k" for q
    using that loading_iff[OF k(2,1) that(2) len] unfolding held by blast
  then show ?thesis by (auto simp: plan_preload_def Cons Let_def)
qed

lemma runs_tracked: "runs e d F R s \<Longrightarrow> tracked s"
proof (induction rule: runs.induct)
  case start
  then show ?case
    using index_inv_empty by (simp add: tracked_def router_init_def held_claims_def empty_index_def)
next
  case (retry F R s r)
  then have "tracked (s\<lparr>retries := remove1 r (retries s)\<rparr>)" "request_ok r"
    using set_remove1_subset[of r "retries s"] by (auto simp: tracked_def)
  then show ?case by (rule tracked_get)
next
  case (evicted F R s b)
  then show ?case by (simp add: tracked_def)
next
  case (removed F R s k)
  then show ?case by (simp add: tracked_def)
next
  case (cleared F R s)
  then show ?case by (simp add: tracked_def)
next
  case (sized F R s n key)
  have "held_claims (setTotalLength n key i) = held_claims i" for i
    by (rule ext) (simp add: held_claims_def setTotalLength_def split: option.split)
  then show ?case using sized by (simp add: tracked_def index_inv_setTotal)
next
  case (preloaded F R s k off len data)
  then show ?case by (intro tracked_preload)
qed (auto intro: tracked_get tracked_reply tracked_disk tracked_plan tracked_late)

section \<open>Bytes\<close>

text \<open>Where a byte may come from that the router has for position \<open>p\<close> of the song \<open>k\<close>: it is zero, or it was
  delivered for this position of a song with the same file name (this song, unless names clash), or it is at
  this position of the file of an earlier run.\<close>

definition sourced :: "app \<Rightarrow> lz_disk \<Rightarrow> deliveries \<Rightarrow> string \<Rightarrow> nat \<Rightarrow> u8 \<Rightarrow> bool" where
  "sourced e d F k p b \<longleftrightarrow> b = 0
     \<or> (\<exists>k' off x. (k', off, x) \<in> F \<and> sha256String e k' = sha256String e k
          \<and> unat off \<le> p \<and> p < unat off + length x \<and> b = x ! (p - unat off))
     \<or> (\<exists>f. d (sha256String e k) = Some f \<and> p < length f \<and> b = f ! p)"

definition genuine :: "app \<Rightarrow> lz_disk \<Rightarrow> deliveries \<Rightarrow> string \<Rightarrow> nat \<Rightarrow> bytes \<Rightarrow> bool" where
  "genuine e d F k off x \<longleftrightarrow> (\<forall>i < length x. sourced e d F k (off + i) (x ! i))"

lemma genuine_Nil [simp]: "genuine e d F k off []"
  by (simp add: genuine_def)

lemma genuine_mono: "genuine e d F k off x \<Longrightarrow> F \<subseteq> G \<Longrightarrow> genuine e d G k off x"
  unfolding genuine_def sourced_def by blast

lemma genuine_name: "genuine e d F k off x \<Longrightarrow> sha256String e k = sha256String e l \<Longrightarrow> genuine e d F l off x"
  unfolding genuine_def sourced_def by simp

lemma genuine_delivered: "(k, off, x) \<in> F \<Longrightarrow> genuine e d F k (unat off) x"
  unfolding genuine_def sourced_def by (metis add_diff_cancel_left' le_add1 nat_add_left_cancel_less)

lemma genuine_file: "d (sha256String e k) = Some f \<Longrightarrow> genuine e d F k 0 f"
  unfolding genuine_def sourced_def by simp

lemma genuine_read: "genuine e d F k 0 f \<Longrightarrow> genuine e d F k off (take n (drop off f))"
  by (simp add: genuine_def add.commute less_diff_conv)

lemma genuine_write:
  assumes "genuine e d F k 0 f" "genuine e d F k off x"
  shows "genuine e d F k 0 (write_at 0 off x f)"
  unfolding genuine_def
proof (intro allI impI)
  fix i assume i: "i < length (write_at 0 off x f)"
  have "sourced e d F k i (x ! (i - off))" if "off \<le> i" "i < off + length x"
  proof -
    have "i - off < length x" using that by linarith
    then have "sourced e d F k (off + (i - off)) (x ! (i - off))" using assms(2) unfolding genuine_def by blast
    then show ?thesis using that(1) by simp
  qed
  moreover have "sourced e d F k i (f ! i)" if "i < length f" using assms(1) that by (simp add: genuine_def)
  moreover have "sourced e d F k i 0" by (simp add: sourced_def)
  ultimately show "sourced e d F k (0 + i) (write_at 0 off x f ! i)"
    unfolding nth_write_at[OF i] by (auto simp: not_less)
qed

definition content :: "app \<Rightarrow> lz_disk \<Rightarrow> deliveries \<Rightarrow> router \<Rightarrow> bool" where
  "content e d F s \<longleftrightarrow>
     (\<forall>k off x. cache (memory s) (blockKey k off) = Some x \<longrightarrow> genuine e d F k (unat off) x)
     \<and> (\<forall>k f. disk s (sha256String e k) = Some f \<longrightarrow> genuine e d F k 0 f)
     \<and> (\<forall>t cs. pendingCallbacks s t = Some cs \<longrightarrow> (\<forall>c \<in> set cs. task c = t))
     \<and> (\<forall>w \<in> set (io s). genuine e d F (wkey w) (unat (woff w)) (wdata w)
          \<and> (\<forall>cs. waiting w = Some cs \<longrightarrow> (wkey w, woff w, wdata w) \<in> F
              \<and> (\<forall>c \<in> set cs. rkey c = wkey w \<and> roff c = woff w)))
     \<and> (\<forall>(k, off, x) \<in> set (for_memory s). genuine e d F k (unat off) x)
     \<and> (\<forall>r x. (r, Some x) \<in> set (answers s) \<longrightarrow> genuine e d F (rkey r) (unat (roff r)) x
          \<and> (length x = unat (rlen r) \<or> (rkey r, roff r, x) \<in> F))"

lemma content_sync [simp]: "content e d F (syncCacheInfoToDBForKey g k s) = content e d F s"
  by (simp add: content_def)

lemma content_mono: "content e d F s \<Longrightarrow> F \<subseteq> G \<Longrightarrow> content e d G s"
proof -
  assume c: "content e d F s" and F: "F \<subseteq> G"
  have g: "genuine e d F k off x \<Longrightarrow> genuine e d G k off x" for k off x
    using F by (rule genuine_mono[rotated])
  show ?thesis using c F g unfolding content_def by (simp add: split_beta) blast
qed

lemma content_other [simp]:
  "content e d F (s\<lparr>rindex := i\<rparr>) = content e d F s"
  "content e d F (s\<lparr>downloads := rs\<rparr>) = content e d F s"
  "content e d F (s\<lparr>preloads := ps\<rparr>) = content e d F s"
  "content e d F (s\<lparr>for_index := xs\<rparr>) = content e d F s"
  "content e d F (s\<lparr>retries := rs\<rparr>) = content e d F s"
  "content e d F (s\<lparr>checks := ks\<rparr>) = content e d F s"
  by (simp_all add: content_def)

lemma content_del: "content e d F s \<Longrightarrow> content e d F (s\<lparr>pendingCallbacks := (pendingCallbacks s)(t := None)\<rparr>)"
  by (simp add: content_def)

lemma content_pending: "content e d F s \<Longrightarrow> pendingCallbacks s t = Some cs \<Longrightarrow> c \<in> set cs \<Longrightarrow> task c = t"
  unfolding content_def by blast

lemma content_ask:
  "content e d F s \<Longrightarrow> (\<And>c. c \<in> set cs \<Longrightarrow> task c = t) \<Longrightarrow>
   content e d F (s\<lparr>pendingCallbacks := (pendingCallbacks s)(t \<mapsto> cs)\<rparr>)"
  unfolding content_def by simp

lemma content_io:
  "(wkey w, woff w, wdata w) \<in> F \<Longrightarrow>
   (\<And>cs c. waiting w = Some cs \<Longrightarrow> c \<in> set cs \<Longrightarrow> rkey c = wkey w \<and> roff c = woff w) \<Longrightarrow>
   content e d F s \<Longrightarrow> content e d F (s\<lparr>io := io s @ [w]\<rparr>)"
  unfolding content_def by (simp add: ball_Un genuine_delivered)

lemma content_late:
  "(k, off, x) \<in> F \<Longrightarrow> content e d F s \<Longrightarrow> content e d F (s\<lparr>for_memory := for_memory s @ [(k, off, x)]\<rparr>)"
  unfolding content_def by (simp add: ball_Un genuine_delivered)

lemma content_errors: "content e d F s \<Longrightarrow> content e d F (s\<lparr>answers := answers s @ map (\<lambda>c. (c, None)) cs\<rparr>)"
  unfolding content_def by auto

lemma content_memory:
  "(\<And>x. data = Some x \<Longrightarrow> genuine e d F k (unat off) x) \<Longrightarrow> content e d F s \<Longrightarrow>
   content e d F (s\<lparr>memory := memory_write data off k (memory s)\<rparr>)"
  by (cases data) (simp_all add: content_def memory_write_def)

lemma content_answer:
  "(\<And>x. data = Some x \<Longrightarrow> genuine e d F (rkey r) (unat (roff r)) x \<and> length x = unat (rlen r)) \<Longrightarrow>
   content e d F s \<Longrightarrow> content e d F (s\<lparr>answers := answers s @ [(r, data)]\<rparr>)"
  by (auto simp: content_def)

lemma content_block:
  assumes "content e d F s"
  shows "content e d F (getData_block e r s)"
proof -
  let ?mem = "memory_read (rkey r) (roff r) (memory s)" and ?disk = "disk_read (sha256String e) (rkey r) (roff r) (rlen r) (disk s)"
  have mem: "genuine e d F (rkey r) (unat (roff r)) x" if "?mem = Some x" for x
    using assms that by (simp add: content_def memory_read_def)
  have disk: "genuine e d F (rkey r) (unat (roff r)) x" if "?disk = Some x" for x
  proof -
    obtain f where "disk s (sha256String e (rkey r)) = Some f" "x = take (unat (rlen r)) (drop (unat (roff r)) f)"
      using \<open>?disk = Some x\<close> by (auto simp: disk_read_def)
    then show ?thesis using assms by (auto simp: content_def intro: genuine_read)
  qed
  consider "data_length ?mem = unat (rlen r)" | "data_length ?mem \<noteq> unat (rlen r)" "data_length ?disk = unat (rlen r)"
    | "data_length ?mem \<noteq> unat (rlen r)" "data_length ?disk \<noteq> unat (rlen r)" by blast
  then show ?thesis
  proof cases
    case 1
    then have "content e d F (s\<lparr>answers := answers s @ [(r, ?mem)]\<rparr>)"
      by (intro content_answer assms) (simp add: mem data_length_def)
    then show ?thesis using 1 by (simp add: getData_block_def)
  next
    case 2
    let ?s = "syncCacheInfoToDBForKey e (rkey r) (s\<lparr>memory := memory_write ?disk (roff r) (rkey r) (memory s),
      rindex := addRangeForKey (Some (rkey r)) (roff r) (of_nat (data_length ?disk)) (rindex s)\<rparr>)"
    have "content e d F (s\<lparr>memory := memory_write ?disk (roff r) (rkey r) (memory s)\<rparr>)"
      by (rule content_memory[OF disk assms])
    then have "content e d F ?s" by simp
    then have "content e d F (?s\<lparr>answers := answers ?s @ [(r, ?disk)]\<rparr>)"
      using 2(2) by (intro content_answer) (simp_all add: disk data_length_def)
    then show ?thesis using 2 by (simp add: getData_block_def Let_def)
  next
    case 3
    have "content e d F (s\<lparr>pendingCallbacks := (pendingCallbacks s)(task r \<mapsto> cs @ [r])\<rparr>)"
      if "pendingCallbacks s (task r) = Some cs" for cs
    proof (rule content_ask[OF assms])
      fix c assume "c \<in> set (cs @ [r])"
      then show "task c = task r" using that content_pending[OF assms, of "task r" cs c] by fastforce
    qed
    note ask = this
    show ?thesis
    proof (cases "pendingCallbacks s (task r)")
      case None
      have "content e d F (s\<lparr>rindex := i, pendingCallbacks := (pendingCallbacks s)(task r \<mapsto> [r]), downloads := downloads s @ [r]\<rparr>)" for i
        using content_ask[of e d F "s\<lparr>rindex := i\<rparr>" "[r]" "task r"] assms by simp
      then show ?thesis using None 3 assms by (simp add: getData_block_def split_beta Let_def)
    next
      case (Some cs)
      then show ?thesis using ask[of cs] 3 by (simp add: getData_block_def)
    qed
  qed
qed

lemma content_get: "content e d F s \<Longrightarrow> content e d F (getDataForKey e valid r s)"
  by (cases valid) (simp_all add: getDataForKey_def content_block content_errors[where cs = "[r]", simplified])

lemma deliver_more: "F \<subseteq> deliver k off data F" "data = Some x \<Longrightarrow> (k, off, x) \<in> deliver k off data F"
  by (auto simp: deliver_def split: option.split)

lemma content_reply:
  assumes "content e d F s"
  shows "content e d (deliver (rkey r) (roff r) data F) (download_done r data s)"
proof -
  let ?F = "deliver (rkey r) (roff r) data F"
  have a: "content e d ?F s" by (rule content_mono[OF assms deliver_more(1)])
  let ?cs = "case pendingCallbacks s (task r) of None \<Rightarrow> [] | Some cs \<Rightarrow> cs"
  have waiting: "rkey c = rkey r \<and> roff c = roff r" if "c \<in> set ?cs" for c
  proof -
    obtain cs' where "pendingCallbacks s (task r) = Some cs'" "c \<in> set cs'"
      using \<open>c \<in> set ?cs\<close> by (cases "pendingCallbacks s (task r)") simp_all
    then have "task c = task r" using a by (intro content_pending)
    then show ?thesis by simp
  qed
  let ?s = "s\<lparr>downloads := remove1 r (downloads s), pendingCallbacks := (pendingCallbacks s)(task r := None),
    rindex := unmarkRangeLoadingForKey (Some (rkey r)) (roff r) (rlen r) (rindex s)\<rparr>"
  have s: "content e d ?F ?s" using content_del[of e d ?F "s\<lparr>downloads := remove1 r (downloads s)\<rparr>" "task r"] a by simp
  show ?thesis
  proof (cases "data_length data > 0")
    case True
    then obtain x where x: "data = Some x" by (cases data) (auto simp: data_length_def)
    have F: "(rkey r, roff r, x) \<in> ?F" by (rule deliver_more(2)[OF x])
    have "content e d ?F (?s\<lparr>memory := memory_write data (roff r) (rkey r) (memory ?s)\<rparr>)"
      by (rule content_memory[OF _ s]) (use F in \<open>simp add: x genuine_delivered\<close>)
    then have t: "content e d ?F (?s\<lparr>memory := memory_write data (roff r) (rkey r) (memory ?s),
      rindex := addRangeForKey (Some (rkey r)) (roff r) (of_nat (data_length data)) (rindex ?s)\<rparr>)" (is "content e d _ ?t")
      using content_other(1) by blast
    have "content e d ?F (?t\<lparr>io := io ?t @ [\<lparr>wdata = the data, woff = roff r, wkey = rkey r, waiting = Some ?cs\<rparr>]\<rparr>)"
    proof (rule content_io[OF _ _ t])
      fix cs c
      assume "waiting \<lparr>wdata = the data, woff = roff r, wkey = rkey r, waiting = Some ?cs\<rparr> = Some cs" "c \<in> set cs"
      then have "c \<in> set ?cs" by simp
      from waiting[OF this] show "rkey c = wkey \<lparr>wdata = the data, woff = roff r, wkey = rkey r, waiting = Some ?cs\<rparr> \<and>
          roff c = woff \<lparr>wdata = the data, woff = roff r, wkey = rkey r, waiting = Some ?cs\<rparr>" by simp
    qed (use F in \<open>simp add: x\<close>)
    then show ?thesis using True by (simp add: download_done_def Let_def)
  next
    case False
    then show ?thesis using content_errors[OF s, of ?cs] by (simp add: download_done_def Let_def)
  qed
qed

lemma content_preload:
  assumes "content e d F s"
  shows "content e d (deliver k off data F) (preload_done (k, off, len) data s)"
proof -
  let ?F = "deliver k off data F" and ?s = "s\<lparr>preloads := remove1 (k, off, len) (preloads s)\<rparr>"
  have s: "content e d ?F ?s" using content_mono[OF assms deliver_more(1)] by simp
  show ?thesis
  proof (cases "data_length data > 0")
    case True
    obtain x where x: "data = Some x" using True by (cases data) (auto simp: data_length_def)
    have F: "(k, off, x) \<in> ?F" by (rule deliver_more(2)[OF x])
    have t: "content e d ?F (?s\<lparr>io := io ?s @ [\<lparr>wdata = the data, woff = off, wkey = k, waiting = None\<rparr>]\<rparr>)" (is "content e d _ ?t")
      by (rule content_io[OF _ _ s]) (use F in \<open>simp_all add: x\<close>)
    show ?thesis using True content_late[OF F t] by (simp add: preload_done_def Let_def x)
  next
    case False
    then show ?thesis using s by (simp add: preload_done_def Let_def)
  qed
qed

lemma content_late_steps:
  assumes "content e d F s"
  shows "x \<in> set (for_memory s) \<Longrightarrow> content e d F (preload_memory x s)" and "content e d F (preload_index x s)"
proof -
  obtain k off y where x: "x = (k, off, y)" by (cases x)
  have less: "content e d F (q\<lparr>for_memory := remove1 x (for_memory q)\<rparr>)" if "content e d F q" for q
  proof -
    have rest: "\<forall>y \<in> set (remove1 x (for_memory q)). P y" if "\<forall>y \<in> set (for_memory q). P y" for P
      using that set_remove1_subset[of x "for_memory q"] by blast
    show ?thesis
      using that rest[of "\<lambda>(k, off, y). genuine e d F k (unat off) y"] unfolding content_def by simp
  qed
  show "content e d F (preload_memory x s)" if "x \<in> set (for_memory s)"
  proof -
    have "genuine e d F k (unat off) y" using assms that by (auto simp: content_def x)
    then have "content e d F (s\<lparr>memory := memory_write (Some y) off k (memory s)\<rparr>)"
      by (intro content_memory assms) simp
    from less[OF this] have "content e d F (s\<lparr>memory := memory_write (Some y) off k (memory s),
        for_memory := remove1 x (for_memory s), for_index := for_index s @ [x]\<rparr>)" by simp
    then show ?thesis by (simp add: preload_memory_def x)
  qed
  show "content e d F (preload_index x s)" using assms by (simp add: preload_index_def x)
qed

lemma content_disk:
  assumes "content e d F s"
  shows "content e d F (disk_done (sha256String e) s)"
proof (cases "io s")
  case Nil
  then show ?thesis using assms by (simp add: disk_done_def)
next
  case (Cons w ws)
  have g: "genuine e d F (wkey w) (unat (woff w)) (wdata w)"
    "\<And>cs. waiting w = Some cs \<Longrightarrow> (wkey w, woff w, wdata w) \<in> F"
    "\<And>cs c. waiting w = Some cs \<Longrightarrow> c \<in> set cs \<Longrightarrow> rkey c = wkey w \<and> roff c = woff w"
    using assms Cons by (simp_all add: content_def)
  have old: "genuine e d F k 0 f" if "disk s (sha256String e k) = Some f" for k f
    using assms that by (simp add: content_def)
  let ?disk = "disk_write (sha256String e) (wdata w) (woff w) (wkey w) (disk s)"
  have disk: "genuine e d F k 0 f" if f: "?disk (sha256String e k) = Some f" for k f
  proof (cases "sha256String e k = sha256String e (wkey w)")
    case True
    then have "f = write_at 0 (unat (woff w)) (wdata w) (case disk s (sha256String e (wkey w)) of None \<Rightarrow> [] | Some f \<Rightarrow> f)"
      using f by (simp add: disk_write_def)
    moreover have "genuine e d F (wkey w) 0 (case disk s (sha256String e (wkey w)) of None \<Rightarrow> [] | Some f \<Rightarrow> f)"
      using old by (simp split: option.split)
    ultimately have "genuine e d F (wkey w) 0 f" using g(1) by (simp add: genuine_write)
    then show ?thesis using True by (simp add: genuine_name)
  next
    case False
    then show ?thesis using f old by (simp add: disk_write_def)
  qed
  show ?thesis
  proof (cases "waiting w")
    case None
    then show ?thesis using assms disk Cons by (simp add: content_def disk_done_def Let_def)
  next
    case (Some cs)
    have "genuine e d F (rkey c) (unat (roff c)) (wdata w) \<and> (rkey c, roff c, wdata w) \<in> F" if "c \<in> set cs" for c
      using g(1,2) g(3)[OF Some that] Some by simp
    then show ?thesis using assms disk Cons Some by (auto simp: content_def disk_done_def Let_def)
  qed
qed

lemma content_plan: "content e d F s \<Longrightarrow> content e d F (plan_preload e s)"
  by (cases "checks s") (simp_all add: content_def plan_preload_def Let_def)

lemma runs_content: "runs e d F R s \<Longrightarrow> content e d F s"
proof (induction rule: runs.induct)
  case start
  then show ?case by (simp add: content_def router_init_def genuine_file)
next
  case (retry F R s r)
  then have "content e d F (s\<lparr>retries := remove1 r (retries s)\<rparr>)" by simp
  then show ?case by (rule content_get)
next
  case (evicted F R s b)
  then show ?case by (simp add: content_def)
next
  case (removed F R s k)
  then show ?case by (simp add: content_def removeAllBlocksForKey_def Let_def)
next
  case (cleared F R s)
  then show ?case by (simp add: content_def memory_clear_def)
qed (simp_all add: content_get content_reply content_disk content_plan content_preload content_late_steps)

section \<open>Every request can be answered\<close>

text \<open>Writes end, downloads may fail, and a retry finds no mark of another request.\<close>

lemma drain_io:
  "runs e d F R s \<Longrightarrow> \<exists>s'. runs e d F R s' \<and> io s' = [] \<and> downloads s' = downloads s \<and> retries s' = retries s"
proof (induction "io s" arbitrary: s)
  case Nil
  then show ?case by (intro exI[of _ s]) simp
next
  case (Cons w ws)
  let ?s = "disk_done (sha256String e) s"
  have "io ?s = ws" "downloads ?s = downloads s" "retries ?s = retries s"
    using Cons.hyps(2)[symmetric] by (simp_all add: disk_done_def Let_def split: option.split)
  then show ?case using Cons.hyps(1)[of ?s] runs.written[OF Cons.prems] by simp
qed

lemma failed_reply:
  "io (download_done r None s) = io s" "downloads (download_done r None s) = remove1 r (downloads s)"
  "retries (download_done r None s) = retries s"
  by (simp_all add: download_done_def Let_def data_length_def)

lemma drain_downloads:
  "runs e d F R s \<Longrightarrow> \<exists>s'. runs e d F R s' \<and> io s' = io s \<and> downloads s' = [] \<and> retries s' = retries s"
proof (induction "downloads s" arbitrary: s)
  case Nil
  then show ?case by (intro exI[of _ s]) simp
next
  case (Cons r rs)
  let ?s = "download_done r None s"
  have "runs e d F R ?s"
    using runs.reply[OF Cons.prems, of r None] Cons.hyps(2)[symmetric] by (simp add: reply_ok_def deliver_def)
  moreover have "downloads ?s = rs" using Cons.hyps(2)[symmetric] by (simp add: failed_reply)
  ultimately show ?case using Cons.hyps(1)[of ?s] by (simp add: failed_reply)
qed

lemma idle_get:
  assumes "tracked s" "downloads s = []" "request_ok r"
  shows "io (getData_block e r s) = io s \<and> retries (getData_block e r s) = retries s \<and> downloads (getData_block e r s) \<in> {[], [r]}"
proof -
  have pending: "pendingCallbacks s = Map.empty" using assms(1,2) by (simp add: tracked_def)
  have "fst (markRangeLoadingForKey (Some (rkey r)) (roff r) (rlen r) (rindex s))" if "rlen r \<noteq> 0"
  proof -
    have "legal_request (Some (rkey r)) (roff r) (rlen r)" using assms(3) that by (simp add: request_ok_def legal_request_def)
    moreover have "held_claims (rindex s) (Some (rkey r)) = {}" "index_inv (rindex s)" using assms(1,2) by (simp_all add: tracked_def)
    ultimately show ?thesis by (simp add: mark_iff)
  qed
  moreover have "data_length (disk_read h k off n d) = 0" if "n = 0" for h k off n d
    using that by (simp add: disk_read_def data_length_def split: option.split)
  ultimately show ?thesis
    using assms(2) by (cases "rlen r = 0") (simp_all add: getData_block_def Let_def split_beta pending)
qed

lemma drain_retries:
  "runs e d F R s \<Longrightarrow> downloads s = [] \<Longrightarrow> io s = [] \<Longrightarrow>
    \<exists>s'. runs e d F R s' \<and> io s' = [] \<and> downloads s' = [] \<and> retries s' = []"
proof (induction "retries s" arbitrary: s)
  case Nil
  then show ?case by (intro exI[of _ s]) simp
next
  case (Cons r rs)
  let ?s = "s\<lparr>retries := rs\<rparr>"
  let ?g = "getData_block e r ?s"
  have tr: "tracked s" using runs_tracked[OF Cons.prems(1)] .
  then have r: "request_ok r" using Cons.hyps(2)[symmetric] by (simp add: tracked_def)
  have "tracked ?s" using tr Cons.hyps(2)[symmetric] by (simp add: tracked_def)
  note g = idle_get[OF this _ r, of e]
  have run: "runs e d F R ?g"
    using runs.retry[OF Cons.prems(1), of r] Cons.hyps(2)[symmetric] by (simp add: getDataForKey_def)
  obtain s' where "runs e d F R s'" "io s' = io ?g" "downloads s' = []" "retries s' = retries ?g"
    using drain_downloads[OF run] by blast
  then show ?case using Cons.hyps(1)[of s'] g Cons.prems(2,3) by simp
qed

lemma drain:
  assumes "runs e d F R s"
  shows "\<exists>s'. runs e d F R s' \<and> io s' = [] \<and> downloads s' = [] \<and> retries s' = []"
proof -
  obtain s1 where 1: "runs e d F R s1" "downloads s1 = []" using drain_downloads[OF assms] by blast
  obtain s2 where "runs e d F R s2" "io s2 = []" "downloads s2 = []" using drain_io[OF 1(1)] 1(2) by auto
  then show ?thesis using drain_retries by blast
qed

lemma quiet_answers:
  assumes "tracked s" "conserved R s" "io s = []" "downloads s = []" "retries s = []"
  shows "R = mset (map fst (answers s))"
proof -
  have "pendingCallbacks s = Map.empty" using assms(1,4) by (simp add: tracked_def)
  then show ?thesis using assms(2,3,5) by (simp add: conserved_def waiters_def io_waiters_def)
qed

section \<open>A hole\<close>

definition hole_app :: app where
  "hole_app = \<lparr>sha256String = id, querySong = \<lambda>_. None\<rparr>"

definition hole_first :: request where "hole_first = \<lparr>rid = 0, rkey = ''7'', roff = 4, rlen = 2\<rparr>"

definition hole_second :: request where "hole_second = \<lparr>rid = 1, rkey = ''7'', roff = 0, rlen = 4\<rparr>"

lemmas hole_defs = hole_app_def hole_first_def hole_second_def

definition hole_state :: router where
  "hole_state = disk_done id (download_done hole_first (Some [5, 6]) (getData_block hole_app hole_first (router_init Map.empty)))"

lemma hole_request: "request_ok hole_first" "request_ok hole_second"
  by (simp_all add: hole_defs request_ok_def fits_def)

lemma hole_run: "runs hole_app Map.empty {(''7'', 4, [5, 6])} {#hole_first#} hole_state"
proof -
  let ?s = "getData_block hole_app hole_first (router_init Map.empty)"
  have 1: "runs hole_app Map.empty {} {#hole_first#} ?s"
    using runs.get_data[OF runs.start hole_request(1), of hole_app Map.empty True] by (simp add: getDataForKey_def)
  have 2: "hole_first \<in> set (downloads ?s)"
    by (simp add: getData_block_def router_init_def hole_defs memory_read_def disk_read_def data_length_def
        markRangeLoadingForKey_def empty_index_def isValidKey_def)
  have "reply_ok (roff hole_first) (Some [5, 6])" by (simp add: reply_ok_def hole_defs)
  from runs.reply[OF 1 2 this]
  have "runs hole_app Map.empty {(''7'', 4, [5, 6])} {#hole_first#} (download_done hole_first (Some [5, 6]) ?s)"
    by (simp add: deliver_def hole_defs)
  then show ?thesis using runs.written unfolding hole_state_def by (fastforce simp: hole_app_def)
qed

lemma hole_gap: "replicate 4 (x :: 8 word) = [x, x, x, x]"
  by (simp add: numeral_eq_Suc)

lemma hole_stores:
  "disk hole_state ''7'' = Some [0, 0, 0, 0, 5, 6]" "memory_read ''7'' 0 (memory hole_state) = None"
  by (simp_all add: hole_state_def getData_block_def router_init_def hole_defs memory_read_def memory_write_def disk_read_def
      data_length_def markRangeLoadingForKey_def empty_index_def isValidKey_def download_done_def disk_done_def
      disk_write_def write_at_def hole_gap)

lemma hole_answer:
  "(hole_second, Some [0, 0, 0, 0]) \<in> set (answers (getData_block hole_app hole_second hole_state))"
  using hole_stores by (simp add: getData_block_def hole_app_def hole_second_def disk_read_def data_length_def Let_def)

section \<open>Properties\<close>

text \<open>C34. Requests are neither lost nor answered twice: in every state the router reaches, each request made is
  waiting for a retry, for a download or for a write, or was answered, in exactly one of these ways; and from
  every such state the router can go on until each request was answered exactly once.\<close>

theorem router_answers_each_request_once:
  assumes "runs e d F R s"
  shows "R = mset (retries s) + waiters (pendingCallbacks s) + io_waiters (io s) + mset (map fst (answers s))
    \<and> (\<exists>s'. runs e d F R s' \<and> R = mset (map fst (answers s')))"
proof -
  obtain s' where s': "runs e d F R s'" "io s' = []" "downloads s' = []" "retries s' = []" using drain[OF assms] by blast
  have "R = mset (map fst (answers s'))"
    by (rule quiet_answers[OF runs_tracked[OF s'(1)] runs_conserved[OF s'(1)] s'(2-4)])
  then show ?thesis using s'(1) runs_conserved[OF assms] by (auto simp: conserved_def)
qed

theorem router_answers_each_request_once_witness:
  "\<exists>s'. runs hole_app Map.empty {(''7'', 4, [5, 6])} {#hole_first#} s' \<and> {#hole_first#} = mset (map fst (answers s'))"
  by (rule router_answers_each_request_once[OF hole_run, THEN conjunct2])

text \<open>C35. Single flight of the downloads the router starts for requests: no two of them overlap in a song, one is
  going on exactly for the ranges callbacks wait for, and the marks in the index are theirs. Preloads are not
  among them: a preload takes no mark and may overlap other preloads and later downloads; it is only planned
  for a range that overlaps none of the downloads that go on when it is planned.\<close>

theorem router_downloads_disjoint:
  assumes "runs e d F R s"
  shows "sorted_wrt (\<lambda>r q. rkey r = rkey q \<longrightarrow> span (roff r) (rlen r) \<inter> span (roff q) (rlen q) = {}) (downloads s)
    \<and> dom (pendingCallbacks s) = task ` set (downloads s)
    \<and> (\<forall>k. held_claims (rindex s) (Some k) = {(roff r, rlen r) | r. r \<in> set (downloads s) \<and> rkey r = k})
    \<and> (preloads (plan_preload e s) = preloads s
       \<or> (\<exists>k off len. preloads (plan_preload e s) = preloads s @ [(k, off, len)]
            \<and> (fits off len \<longrightarrow> (\<forall>q \<in> set (downloads s). rkey q = k \<longrightarrow> span off len \<inter> span (roff q) (rlen q) = {}))))"
  using runs_tracked[OF assms] plan_beside_downloads[OF runs_tracked[OF assms], of e] by (simp add: tracked_def)

lemma router_downloads_disjoint_witness: "dom (pendingCallbacks hole_state) = task ` set (downloads hole_state)"
  using router_downloads_disjoint[OF hole_run] by simp

text \<open>C36. Where the bytes of an answer come from, whatever the server sends and whatever order replies, writes,
  evictions and retries come in. An answer is as long as what was asked for, or it is, whole, a body the
  downloader handed over for the song and offset asked for, however long the server made it. Each of its bytes
  was delivered for just this position of a song with the same file name, or is at this position of the file of
  an earlier run, or is zero: bytes of other positions, or of songs whose file has another name, are never mixed
  in. Zeros in place of bytes are possible: when the end of a song was written first, the router takes the hole
  before it for data.\<close>

theorem router_answers_are_sourced:
  assumes "runs e d F R s" "(r, Some a) \<in> set (answers s)"
  shows "(length a = unat (rlen r) \<or> (rkey r, roff r, a) \<in> F)
    \<and> (\<forall>i < length a. sourced e d F (rkey r) (unat (roff r) + i) (a ! i))"
  using runs_content[OF assms(1)] assms(2) by (simp add: content_def genuine_def)

lemma hole_second_run:
  "runs hole_app Map.empty {(''7'', 4, [5, 6])} (add_mset hole_second {#hole_first#}) (getDataForKey hole_app True hole_second hole_state)"
  by (rule runs.get_data[OF hole_run hole_request(2)])

lemma router_answers_are_sourced_witness:
  "length [0, 0, 0, 0 :: 8 word] = unat (rlen hole_second)
   \<and> sourced hole_app Map.empty {(''7'', 4, [5, 6])} (rkey hole_second) (unat (roff hole_second) + 0) ([0, 0, 0, 0] ! 0)"
proof -
  have "(hole_second, Some [0, 0, 0, 0]) \<in> set (answers (getDataForKey hole_app True hole_second hole_state))"
    using hole_answer by (simp add: getDataForKey_def)
  from router_answers_are_sourced[OF hole_second_run this] show ?thesis
    by (elim conjE allE[of _ 0]) (simp add: hole_second_def)
qed

end
