(* ===== verification/Sqlite_Double.thy ===== *)
theory Sqlite_Double
  imports Prelude "HOL-Library.Log_Nat"
begin

text \<open>
  Floating point numbers as the sources use them in comparisons (\<open>sqlite3IntFloatCompare\<close> of
  \<open>src/vdbeaux.c\<close>): a \<open>double\<close> is its 64 bits, read as IEEE 754 says. The infinities are given the
  values next to the largest numbers, which keeps the order. \<open>(double)i\<close> rounds to the nearest
  number, to the even one in the middle; \<open>(i64)r\<close> drops the fraction.
\<close>

section \<open>The format\<close>

type_synonym double = u64

definition d_exp :: "double \<Rightarrow> nat" where
  "d_exp r = unat (take_bit 11 (drop_bit 52 r))"

definition d_man :: "double \<Rightarrow> nat" where
  "d_man r = unat (take_bit 52 r)"

definition ieee_mag :: "double \<Rightarrow> rat" where
  "ieee_mag r =
     (if d_exp r = 0 then of_nat (d_man r) / 2 ^ 1074 else of_nat (2 ^ 52 + d_man r) * 2 ^ d_exp r / 2 ^ 1075)"

definition ieee_value :: "double \<Rightarrow> rat" where
  "ieee_value r = (if bit r 63 then - ieee_mag r else ieee_mag r)"

definition is_nan :: "double \<Rightarrow> bool" where
  "is_nan r \<longleftrightarrow> d_exp r = 2047 \<and> d_man r \<noteq> 0"

definition d_less :: "double \<Rightarrow> double \<Rightarrow> bool" where
  "d_less x y \<longleftrightarrow> \<not> is_nan x \<and> \<not> is_nan y \<and> ieee_value x < ieee_value y"

definition d_le :: "double \<Rightarrow> double \<Rightarrow> bool" where
  "d_le x y \<longleftrightarrow> \<not> is_nan x \<and> \<not> is_nan y \<and> ieee_value x \<le> ieee_value y"

definition trunc :: "rat \<Rightarrow> int" where
  "trunc q = (if q \<ge> 0 then \<lfloor>q\<rfloor> else \<lceil>q\<rceil>)"

definition i64_of_double :: "double \<Rightarrow> 64 word" where
  "i64_of_double r = word_of_int (trunc (ieee_value r))"

definition round_53 :: "nat \<Rightarrow> nat \<times> nat" where
  "round_53 n =
     (let b = floorlog 2 n
      in if b \<le> 53 then (n * 2 ^ (53 - b), b)
         else let k = b - 53; q = n div 2 ^ k; r = n mod 2 ^ k;
                  q' = (if 2 * r > 2 ^ k \<or> 2 * r = 2 ^ k \<and> odd q then q + 1 else q)
              in if q' = 2 ^ 53 then (2 ^ 52, b + 1) else (q', b))"

definition double_of_i64 :: "64 word \<Rightarrow> double" where
  "double_of_i64 i =
     (if i = 0 then 0
      else let (m, b) = round_53 (nat \<bar>sint i\<bar>)
           in (if sint i < 0 then push_bit 63 1 else 0) OR push_bit 52 (of_nat (b + 1022)) OR of_nat (m - 2 ^ 52))"

section \<open>An integer and a floating point number\<close>

text \<open>The branch for machines whose \<open>long double\<close> has 8 bytes, as on the devices the application is built for.\<close>

definition sqlite3IntFloatCompare :: "64 word \<Rightarrow> double \<Rightarrow> int" where
  "sqlite3IntFloatCompare i r =
     (if d_less r 0xC3E0000000000000 then 1
      else if d_le 0x43E0000000000000 r then -1
      else let y = i64_of_double r
           in if sint i < sint y then -1
              else if sint i > sint y then 1
              else let s = double_of_i64 i
                   in if d_less s r then -1 else if d_less r s then 1 else 0)"

section \<open>Values\<close>

lemma d_man_less: "d_man r < 2 ^ 52"
proof -
  have "take_bit 52 (unat r) < 2 ^ 52" by (rule take_bit_nat_less_exp)
  then show ?thesis unfolding d_man_def by (simp add: unsigned_take_bit_eq)
qed

lemma mag_shape: "\<exists>M e. M < 2 ^ 53 \<and> ieee_mag r = of_nat M * 2 ^ e / 2 ^ 1075"
proof (cases "d_exp r = 0")
  case True
  have "ieee_mag r = of_nat (d_man r) * 2 ^ 1 / (2 ^ 1074 * 2)" using True by (simp add: ieee_mag_def)
  also have "(2 :: rat) ^ 1074 * 2 = 2 ^ 1075" by (simp add: power_add[of 2 1074 1, simplified])
  finally show ?thesis using d_man_less[of r] by (intro exI[of _ "d_man r"] exI[of _ 1]) simp
next
  case False
  then show ?thesis using d_man_less[of r] by (intro exI[of _ "2 ^ 52 + d_man r"] exI[of _ "d_exp r"]) (simp add: ieee_mag_def)
qed

lemma mag_nonneg: "0 \<le> ieee_mag r"
  by (simp add: ieee_mag_def)

lemma mag_integral_or_small: "ieee_mag r \<in> \<int> \<or> ieee_mag r < 2 ^ 53"
proof -
  obtain M e where M: "M < 2 ^ 53" "ieee_mag r = of_nat M * 2 ^ e / 2 ^ 1075" using mag_shape by blast
  show ?thesis
  proof (cases "e \<ge> 1075")
    case True
    then obtain d where "e = d + 1075" by (metis add.commute le_Suc_ex)
    then have "ieee_mag r = of_nat (M * 2 ^ d)" by (simp only: M power_add) (simp del: power_numeral)
    then show ?thesis by simp
  next
    case False
    then have "(2 :: rat) ^ e \<le> 2 ^ 1075" by (intro power_increasing) simp_all
    then have "ieee_mag r \<le> of_nat M" unfolding M
      by (simp only: pos_divide_le_eq zero_less_power zero_less_numeral) (intro mult_left_mono; simp)
    moreover have "(of_nat M :: rat) < of_nat (2 ^ 53)" using M(1) by (simp only: of_nat_less_iff)
    ultimately show ?thesis by simp
  qed
qed

lemma value_integral_or_small: "ieee_value r \<in> \<int> \<or> \<bar>ieee_value r\<bar> < 2 ^ 53"
  using mag_integral_or_small[of r] mag_nonneg[of r] by (auto simp: ieee_value_def)

section \<open>Integers as floating point numbers\<close>

lemma fields:
  fixes r :: double
  assumes r: "r = (if s then push_bit 63 1 else 0) OR push_bit 52 (of_nat e) OR of_nat m" and e: "e < 2048" and m: "m < 2 ^ 52"
  shows "bit r 63 = s" "d_exp r = e" "d_man r = m"
proof -
  have be: "bit e n \<Longrightarrow> n < 11" for n using e bit_take_bit_iff[of 11 e n] by (simp add: take_bit_nat_eq_self)
  have bm: "bit m n \<Longrightarrow> n < 52" for n using m bit_take_bit_iff[of 52 m n] by (simp add: take_bit_nat_eq_self)
  have w: "bit (of_nat x :: u64) n \<longleftrightarrow> n < 64 \<and> bit x n" for x n by (simp add: bit_simps)
  have br: "bit r n \<longleftrightarrow> n < 64 \<and> (n = 63 \<and> s \<or> 52 \<le> n \<and> bit e (n - 52) \<or> bit m n)" for n
  proof -
    have top: "bit (if s then push_bit 63 1 else 0 :: u64) n \<longleftrightarrow> s \<and> n = 63"
      by (cases s) (simp_all only: if_True if_False bit_push_bit_iff bit_1_iff, auto)
    show ?thesis unfolding r bit_or_iff top by (auto simp: bit_push_bit_iff w)
  qed
  show "bit r 63 = s" using be[of 11] bm[of 63] by (auto simp: br)
  have "take_bit 11 (drop_bit 52 r) = of_nat e"
    by (rule bit_word_eqI) (use be bm in \<open>fastforce simp: bit_take_bit_iff bit_drop_bit_eq br w\<close>)
  then show "d_exp r = e" using e by (simp add: d_exp_def unsigned_of_nat take_bit_nat_eq_self)
  have "take_bit 52 r = of_nat m"
    by (rule bit_word_eqI) (use bm in \<open>fastforce simp: bit_take_bit_iff br w\<close>)
  then show "d_man r = m" using m by (simp add: d_man_def unsigned_of_nat take_bit_nat_eq_self)
qed

lemma round_53_exact:
  assumes "0 < n" "n < 2 ^ 64" "n < 2 ^ 53 \<or> (\<exists>M e. M < 2 ^ 53 \<and> (of_nat n :: rat) = of_nat M * 2 ^ e / 2 ^ 1075)"
  obtains m b where "round_53 n = (m, b)" "2 ^ 52 \<le> m" "m < 2 ^ 53" "b \<le> 64" "(of_nat m * 2 ^ (b + 1022) / 2 ^ 1075 :: rat) = of_nat n"
proof -
  let ?b = "floorlog 2 n"
  have b: "2 ^ (?b - 1) \<le> n" "n < 2 ^ ?b" "0 < ?b" using floorlog_bounds[of n 2] assms(1) by (simp_all add: floorlog_def)
  have le: "?b \<le> 64"
  proof (rule ccontr)
    assume "\<not> ?b \<le> 64"
    then have "(2 :: nat) ^ 64 \<le> 2 ^ (?b - 1)" by (intro power_increasing) simp_all
    then show False using b(1) assms(2) by linarith
  qed
  show thesis
  proof (cases "?b \<le> 53")
    case True
    let ?m = "n * 2 ^ (53 - ?b)"
    have r: "round_53 n = (?m, ?b)" using True by (simp add: round_53_def Let_def)
    have "2 ^ (?b - 1) * 2 ^ (53 - ?b) \<le> ?m" "?m < 2 ^ ?b * 2 ^ (53 - ?b)" using b by simp_all
    then have "2 ^ 52 \<le> ?m" "?m < 2 ^ 53" using True b(3) by (simp_all only: power_add[symmetric]) simp_all
    moreover have "(of_nat ?m * 2 ^ (?b + 1022) / 2 ^ 1075 :: rat) = of_nat n"
    proof -
      have "(of_nat ?m * 2 ^ (?b + 1022) :: rat) = of_nat n * (2 ^ (53 - ?b) * 2 ^ (?b + 1022))" by simp
      also have "(2 ^ (53 - ?b) * 2 ^ (?b + 1022) :: rat) = 2 ^ 1075" using True by (simp only: power_add[symmetric]) simp
      finally show ?thesis by simp
    qed
    ultimately show ?thesis using that[OF r] le by blast
  next
    case False
    obtain k where k: "?b = k + 53" using False by (metis add.commute le_Suc_ex nat_le_linear)
    have "2 ^ k dvd n"
    proof -
      have "(2 :: nat) ^ 53 \<le> 2 ^ (?b - 1)" using False by (intro power_increasing) simp_all
      then have "\<not> n < 2 ^ 53" using b(1) by linarith
      then obtain M e where M: "M < 2 ^ 53" "(of_nat n :: rat) = of_nat M * 2 ^ e / 2 ^ 1075" using assms(3) by blast
      then have "(of_nat (n * 2 ^ 1075) :: rat) = of_nat (M * 2 ^ e)" by (simp add: field_simps)
      then have eq: "n * 2 ^ 1075 = M * 2 ^ e" by (simp only: of_nat_eq_iff)
      have "2 ^ (?b - 1) * 2 ^ 1075 \<le> n * 2 ^ 1075" using b(1) by (intro mult_right_mono) simp_all
      also have "\<dots> < 2 ^ 53 * 2 ^ e" unfolding eq by (intro mult_strict_right_mono M(1)) simp
      finally have "(2 :: nat) ^ (?b - 1 + 1075) < 2 ^ (53 + e)" by (simp only: power_add)
      then have "?b - 1 + 1075 < 53 + e" by (rule power_less_imp_less_exp[rotated]) simp
      then have "1075 + k \<le> e" using False k by linarith
      then obtain d where d: "e = 1075 + k + d" using le_Suc_ex by blast
      have "n * 2 ^ 1075 = (2 ^ k * (M * 2 ^ d)) * 2 ^ 1075" unfolding eq d power_add by (simp only: ac_simps)
      then have "n = 2 ^ k * (M * 2 ^ d)" by (rule mult_right_cancel[THEN iffD1, rotated]) simp
      then show ?thesis by (rule dvdI)
    qed
    then obtain q where q: "n = 2 ^ k * q" by (elim dvdE)
    have div: "n div 2 ^ k = q" "n mod 2 ^ k = 0" unfolding q by simp_all
    have split: "(2 :: nat) ^ (?b - 1) = 2 ^ k * 2 ^ 52" "(2 :: nat) ^ ?b = 2 ^ k * 2 ^ 53"
      by (simp_all only: k power_add[symmetric]) simp_all
    have "2 ^ k * 2 ^ 52 \<le> 2 ^ k * q" "2 ^ k * q < 2 ^ k * 2 ^ 53" using b(1,2) q split by metis+
    then have bounds: "2 ^ 52 \<le> q" "q < 2 ^ 53" by (simp_all only: mult_le_cancel1 mult_less_cancel1)
    have r: "round_53 n = (q, ?b)" using bounds False by (simp add: round_53_def Let_def k div)
    have "(of_nat q * 2 ^ (?b + 1022) / 2 ^ 1075 :: rat) = of_nat n"
    proof -
      have "?b + 1022 = k + 1075" by (simp add: k)
      then have "(of_nat q * 2 ^ (?b + 1022) :: rat) = of_nat (2 ^ k * q) * 2 ^ 1075" by (simp only: power_add) simp
      then show ?thesis unfolding q[symmetric] by simp
    qed
    then show ?thesis using that[OF r bounds le] by blast
  qed
qed

lemma double_of_i64_exact:
  assumes "\<bar>sint i\<bar> < 2 ^ 53 \<or> (\<exists>r. ieee_value r = of_int (sint i))"
  shows "ieee_value (double_of_i64 i) = of_int (sint i) \<and> \<not> is_nan (double_of_i64 i)"
proof (cases "i = 0")
  case True
  then show ?thesis by (simp add: double_of_i64_def ieee_value_def ieee_mag_def d_exp_def d_man_def is_nan_def)
next
  case False
  let ?n = "nat \<bar>sint i\<bar>"
  have nz: "sint i \<noteq> 0" using False signed_eq_0_iff by blast
  have "\<bar>sint i\<bar> \<le> 2 ^ 63" using sint_ge[of i] sint_lt[of i] by simp
  then have n: "0 < ?n" "?n < 2 ^ 64" using nz by simp_all
  have "?n < 2 ^ 53 \<or> (\<exists>M e. M < 2 ^ 53 \<and> (of_nat ?n :: rat) = of_nat M * 2 ^ e / 2 ^ 1075)"
  proof -
    have "(of_nat ?n :: rat) = ieee_mag r" if "ieee_value r = of_int (sint i)" for r
    proof -
      have "\<bar>ieee_value r\<bar> = ieee_mag r" using mag_nonneg[of r] by (simp add: ieee_value_def)
      moreover have "\<bar>ieee_value r\<bar> = of_int \<bar>sint i\<bar>" unfolding that by simp
      ultimately show ?thesis by simp
    qed
    then show ?thesis using assms mag_shape by (metis nat_less_numeral_power_cancel_iff)
  qed
  from round_53_exact[OF n this] obtain m b where r: "round_53 ?n = (m, b)" "2 ^ 52 \<le> m" "m < 2 ^ 53" "b \<le> 64"
    "(of_nat m * 2 ^ (b + 1022) / 2 ^ 1075 :: rat) = of_nat ?n" by blast
  let ?r = "double_of_i64 i"
  have "?r = (if sint i < 0 then push_bit 63 1 else 0) OR push_bit 52 (of_nat (b + 1022)) OR of_nat (m - 2 ^ 52)"
    using False r(1) by (simp only: double_of_i64_def if_False Let_def split)
  from fields[OF this] have f: "bit ?r 63 = (sint i < 0)" "d_exp ?r = b + 1022" "d_man ?r = m - 2 ^ 52"
    using r(2-4) by simp_all
  have "ieee_mag ?r = of_nat ?n"
    unfolding r(5)[symmetric] ieee_mag_def f(2,3) using r(2) by simp
  moreover have "(of_nat ?n :: rat) = of_int \<bar>sint i\<bar>" by (rule of_nat_nat) simp
  ultimately have "ieee_value ?r = of_int (sint i)"
    using f(1) by (simp only: ieee_value_def of_int_abs abs_if of_int_less_0_iff split: if_split) simp
  moreover have "\<not> is_nan ?r" using f(2) r(4) by (simp add: is_nan_def)
  ultimately show ?thesis by simp
qed

section \<open>The comparison is exact\<close>

lemma limits: "ieee_value 0xC3E0000000000000 = - (2 ^ 63)" "ieee_value 0x43E0000000000000 = 2 ^ 63"
  "\<not> is_nan 0xC3E0000000000000" "\<not> is_nan 0x43E0000000000000"
proof -
  note f = fields[of _ True "1086" 0, simplified] fields[of _ False "1086" 0, simplified]
  have e: "d_exp 0xC3E0000000000000 = 1086" "d_exp 0x43E0000000000000 = 1086" "d_man 0xC3E0000000000000 = 0" "d_man 0x43E0000000000000 = 0"
    by (simp_all add: d_exp_def d_man_def)
  show "\<not> is_nan 0xC3E0000000000000" "\<not> is_nan 0x43E0000000000000" by (simp_all add: is_nan_def e)
  show "ieee_value 0xC3E0000000000000 = - (2 ^ 63)" "ieee_value 0x43E0000000000000 = 2 ^ 63"
    by (simp_all add: ieee_value_def ieee_mag_def e)
qed

lemma trunc_between: "q \<le> 0 \<Longrightarrow> of_int (trunc q) \<ge> q" "0 \<le> q \<Longrightarrow> of_int (trunc q) \<le> q"
  "0 \<le> q \<Longrightarrow> q < of_int (trunc q) + 1" "q \<le> 0 \<Longrightarrow> of_int (trunc q) - 1 < q"
  by (cases "q = 0"; simp add: trunc_def; linarith)+

lemma trunc_abs: "\<bar>of_int (trunc q)\<bar> \<le> \<bar>q\<bar>"
proof (cases "q \<ge> 0")
  case True
  then have "0 \<le> \<lfloor>q\<rfloor>" by simp
  then have "(0 :: rat) \<le> of_int \<lfloor>q\<rfloor>" by simp
  then show ?thesis using True by (simp add: trunc_def)
next
  case False
  then have "\<lceil>q\<rceil> \<le> 0" by simp
  then have "(of_int \<lceil>q\<rceil> :: rat) \<le> 0" by simp
  then show ?thesis using False by (simp add: trunc_def)
qed

lemma i64_of_double_trunc:
  assumes "- (2 ^ 63) \<le> ieee_value r" "ieee_value r < 2 ^ 63"
  shows "sint (i64_of_double r) = trunc (ieee_value r)"
proof -
  have "- (2 ^ 63) \<le> trunc (ieee_value r)" "trunc (ieee_value r) < 2 ^ 63"
    using assms by (simp_all add: trunc_def le_floor_iff floor_less_iff le_ceiling_iff ceiling_less_iff split: if_split)
  then show ?thesis by (simp add: i64_of_double_def signed_of_int signed_take_bit_int_eq_self)
qed

lemma IntFloatCompare_exact:
  assumes "\<not> is_nan r"
  shows "sgn (of_int (sqlite3IntFloatCompare i r)) = sgn (of_int (sint i) - ieee_value r)"
proof -
  let ?v = "ieee_value r"
  have lo: "of_int (sint i) \<ge> (- (2 ^ 63) :: rat)" and hi: "of_int (sint i) < (2 ^ 63 :: rat)"
  proof -
    have "- (2 ^ 63) \<le> sint i" "sint i < 2 ^ 63" using sint_ge[of i] sint_lt[of i] by simp_all
    then have "(of_int (- (2 ^ 63)) :: rat) \<le> of_int (sint i)" "(of_int (sint i) :: rat) < of_int (2 ^ 63)"
      by (simp_all only: of_int_le_iff of_int_less_iff)
    then show "of_int (sint i) \<ge> (- (2 ^ 63) :: rat)" "of_int (sint i) < (2 ^ 63 :: rat)" by simp_all
  qed
  consider "?v < - (2 ^ 63)" | "2 ^ 63 \<le> ?v" | "- (2 ^ 63) \<le> ?v" "?v < 2 ^ 63" by linarith
  then show ?thesis
  proof cases
    case 1
    then have "0 < of_int (sint i) - ?v" using lo by linarith
    then show ?thesis using 1 assms by (simp add: sqlite3IntFloatCompare_def d_less_def limits)
  next
    case 2
    then have "of_int (sint i) - ?v < 0" "\<not> ?v < - (2 ^ 63)" using hi by simp_all
    then show ?thesis using 2 assms by (simp add: sqlite3IntFloatCompare_def d_less_def d_le_def limits)
  next
    case 3
    have y: "sint (i64_of_double r) = trunc ?v" using 3 by (rule i64_of_double_trunc)
    have step: "sqlite3IntFloatCompare i r =
        (if sint i < trunc ?v then -1 else if sint i > trunc ?v then 1
         else if d_less (double_of_i64 i) r then -1 else if d_less r (double_of_i64 i) then 1 else 0)"
      using 3 assms by (simp add: sqlite3IntFloatCompare_def d_less_def d_le_def limits y Let_def)
    have near: "of_int (trunc ?v) - 1 < ?v" "?v < of_int (trunc ?v) + 1"
      using trunc_between[of ?v] by linarith+
    show ?thesis
    proof (cases "sint i = trunc ?v")
      case True
      have "\<bar>sint i\<bar> < 2 ^ 53 \<or> (\<exists>r. ieee_value r = of_int (sint i))"
      proof (cases "?v \<in> \<int>")
        case True
        then obtain z where "?v = of_int z" by (rule Ints_cases)
        then show ?thesis using \<open>sint i = trunc ?v\<close> by (metis ceiling_of_int floor_of_int trunc_def)
      next
        case False
        then have "\<bar>?v\<bar> < 2 ^ 53" using value_integral_or_small by blast
        moreover have "\<bar>of_int (sint i)\<bar> \<le> \<bar>?v\<bar>" unfolding True by (rule trunc_abs)
        ultimately have "(of_int \<bar>sint i\<bar> :: rat) < of_int (2 ^ 53)" by (simp del: of_int_sint)
        then have "\<bar>sint i\<bar> < 2 ^ 53" by (simp only: of_int_less_iff)
        then show ?thesis ..
      qed
      from double_of_i64_exact[OF this] show ?thesis using True assms by (simp add: step d_less_def)
    next
      case False
      then consider "sint i \<le> trunc ?v - 1" | "trunc ?v + 1 \<le> sint i" by linarith
      then show ?thesis
      proof cases
        case 1
        then have "(of_int (sint i) :: rat) \<le> of_int (trunc ?v - 1)" by (simp only: of_int_le_iff)
        then have "of_int (sint i) - ?v < 0" using near by simp
        moreover have "sint i < trunc ?v" using 1 by simp
        ultimately show ?thesis by (simp add: step)
      next
        case 2
        then have "(of_int (trunc ?v + 1) :: rat) \<le> of_int (sint i)" by (simp only: of_int_le_iff)
        then have "of_int (sint i) - ?v > 0" using near by simp
        moreover have "\<not> sint i < trunc ?v" "sint i > trunc ?v" using 2 by simp_all
        ultimately show ?thesis by (simp add: step)
      qed
    qed
  qed
qed

end
