(* ===== verification/Sqlite_Record.thy ===== *)
theory Sqlite_Record
  imports Sqlite_Varint Sqlite_Double
begin

text \<open>
  The format of rows and index entries: serial types, \<open>sqlite3VdbeSerialPut\<close>, \<open>sqlite3VdbeSerialGet\<close>,
  \<open>sqlite3VdbeRecordUnpack\<close> and \<open>sqlite3VdbeIdxRowid\<close> of \<open>src/vdbeaux.c\<close>, and the instruction
  \<open>OP_MakeRecord\<close> of \<open>src/vdbe.c\<close>.

  A cell \<open>Mem\<close> is a value; the flag \<open>MEM_Zero\<close> is there where the code sets it. A record lies in a buffer
  that goes on behind it: the code may read bytes of the padding behind a damaged record, a read
  behind the buffer is \<open>None\<close>. Offsets are natural numbers, since records are shorter than \<open>2 ^ 31\<close>.
\<close>

section \<open>Values\<close>

type_synonym i64 = "64 word"

text \<open>\<open>MemNull True\<close> is the mark for an unchanged column, \<open>MemBlob z (Some n)\<close> has \<open>n\<close> more bytes that are zero.\<close>

datatype Mem = MemNull bool | MemInt i64 | MemReal double | MemStr bytes | MemBlob bytes "nat option"

definition sqlite3VdbeSerialType :: "Mem \<Rightarrow> nat \<Rightarrow> u32 \<times> u32" where
  "sqlite3VdbeSerialType pMem file_format =
     (case pMem of
        MemNull _ \<Rightarrow> (0, 0)
      | MemInt i \<Rightarrow>
          (let u = (if sint i < 0 then NOT i else i)
           in if u \<le> 127 then (if i AND 1 = i \<and> file_format \<ge> 4 then (8 + ucast u, 0) else (1, 1))
              else if u \<le> 32767 then (2, 2)
              else if u \<le> 8388607 then (3, 3)
              else if u \<le> 2147483647 then (4, 4)
              else if u \<le> 0x7fffffffffff then (5, 6)
              else (6, 8))
      | MemReal _ \<Rightarrow> (7, 8)
      | MemStr z \<Rightarrow> (let n = of_nat (length z) in (n * 2 + 12 + 1, n))
      | MemBlob z nZero \<Rightarrow>
          (let n = of_nat (length z) + (case nZero of None \<Rightarrow> 0 | Some k \<Rightarrow> of_nat k) in (n * 2 + 12, n)))"

definition sqlite3SmallTypeSizes :: "nat list" where
  "sqlite3SmallTypeSizes =
     [0, 1, 2, 3, 4, 6, 8, 8, 0, 0,
      0, 0, 0, 0, 1, 1, 2, 2, 3, 3,
      4, 4, 5, 5, 6, 6, 7, 7, 8, 8,
      9, 9, 10, 10, 11, 11, 12, 12, 13, 13,
      14, 14, 15, 15, 16, 16, 17, 17, 18, 18,
      19, 19, 20, 20, 21, 21, 22, 22, 23, 23,
      24, 24, 25, 25, 26, 26, 27, 27, 28, 28,
      29, 29, 30, 30, 31, 31, 32, 32, 33, 33,
      34, 34, 35, 35, 36, 36, 37, 37, 38, 38,
      39, 39, 40, 40, 41, 41, 42, 42, 43, 43,
      44, 44, 45, 45, 46, 46, 47, 47, 48, 48,
      49, 49, 50, 50, 51, 51, 52, 52, 53, 53,
      54, 54, 55, 55, 56, 56, 57, 57]"

definition sqlite3VdbeSerialTypeLen :: "u32 \<Rightarrow> nat" where
  "sqlite3VdbeSerialTypeLen serial_type =
     (if serial_type \<ge> 128 then unat (serial_type - 12) div 2 else sqlite3SmallTypeSizes ! unat serial_type)"

definition sqlite3VdbeOneByteSerialTypeLen :: "u8 \<Rightarrow> nat" where
  "sqlite3VdbeOneByteSerialTypeLen serial_type = sqlite3SmallTypeSizes ! unat serial_type"

section \<open>Writing a value\<close>

text \<open>The loop \<open>do{ buf[--i] = (u8)(v&0xFF); v >>= 8; }while( i )\<close>.\<close>

fun put_be :: "nat \<Rightarrow> u64 \<Rightarrow> bytes" where
  "put_be 0 v = []"
| "put_be (Suc i) v = put_be i (drop_bit 8 v) @ [ucast (v AND 0xFF)]"

definition sqlite3VdbeSerialPut :: "Mem \<Rightarrow> u32 \<Rightarrow> bytes" where
  "sqlite3VdbeSerialPut pMem serial_type =
     (if serial_type \<le> 7 \<and> serial_type > 0 then
        put_be (sqlite3SmallTypeSizes ! unat serial_type)
          (case pMem of MemInt i \<Rightarrow> i | MemReal r \<Rightarrow> r | _ \<Rightarrow> 0)
      else if serial_type \<ge> 12 then (case pMem of MemStr z \<Rightarrow> z | MemBlob z _ \<Rightarrow> z | _ \<Rightarrow> [])
      else [])"

section \<open>Reading a value\<close>

definition ONE_BYTE_INT :: "bytes \<Rightarrow> 32 word option" where
  "ONE_BYTE_INT x = do { x0 \<leftarrow> rd x 0; Some (scast x0) }"

definition TWO_BYTE_INT :: "bytes \<Rightarrow> 32 word option" where
  "TWO_BYTE_INT x = do { x0 \<leftarrow> rd x 0; x1 \<leftarrow> rd x 1; Some (256 * scast x0 OR ucast x1) }"

definition THREE_BYTE_INT :: "bytes \<Rightarrow> 32 word option" where
  "THREE_BYTE_INT x = do {
     x0 \<leftarrow> rd x 0; x1 \<leftarrow> rd x 1; x2 \<leftarrow> rd x 2;
     Some (65536 * scast x0 OR push_bit 8 (ucast x1) OR ucast x2) }"

definition FOUR_BYTE_UINT :: "bytes \<Rightarrow> u32 option" where
  "FOUR_BYTE_UINT x = do {
     x0 \<leftarrow> rd x 0; x1 \<leftarrow> rd x 1; x2 \<leftarrow> rd x 2; x3 \<leftarrow> rd x 3;
     Some (push_bit 24 (ucast x0) OR push_bit 16 (ucast x1) OR push_bit 8 (ucast x2) OR ucast x3) }"

definition FOUR_BYTE_INT :: "bytes \<Rightarrow> 32 word option" where
  "FOUR_BYTE_INT x = do {
     x0 \<leftarrow> rd x 0; x1 \<leftarrow> rd x 1; x2 \<leftarrow> rd x 2; x3 \<leftarrow> rd x 3;
     Some (16777216 * scast x0 OR push_bit 16 (ucast x1) OR push_bit 8 (ucast x2) OR ucast x3) }"

definition SIX_BYTE_INT :: "bytes \<Rightarrow> i64 option" where
  "SIX_BYTE_INT x = do { lo \<leftarrow> FOUR_BYTE_UINT (drop 2 x); hi \<leftarrow> TWO_BYTE_INT x; Some (ucast lo + push_bit 32 1 * scast hi) }"

definition serialGet :: "bytes \<Rightarrow> u32 \<Rightarrow> (nat \<times> Mem) option" where
  "serialGet buf serial_type = do {
     x \<leftarrow> FOUR_BYTE_UINT buf;
     y \<leftarrow> FOUR_BYTE_UINT (drop 4 buf);
     let v = push_bit 32 (ucast x) + ucast y;
     Some (8, if serial_type = 6 then MemInt v else if is_nan v then MemNull False else MemReal v) }"

text \<open>A text or blob is only pointed to. When it goes on behind the buffer, it is cut here, and
  the callers replace it.\<close>

definition sqlite3VdbeSerialGet :: "bytes \<Rightarrow> u32 \<Rightarrow> (nat \<times> Mem) option" where
  "sqlite3VdbeSerialGet buf serial_type =
     (if serial_type = 10 then Some (0, MemNull True)
      else if serial_type = 11 \<or> serial_type = 0 then Some (0, MemNull False)
      else if serial_type = 1 then do { v \<leftarrow> ONE_BYTE_INT buf; Some (1, MemInt (scast v)) }
      else if serial_type = 2 then do { v \<leftarrow> TWO_BYTE_INT buf; Some (2, MemInt (scast v)) }
      else if serial_type = 3 then do { v \<leftarrow> THREE_BYTE_INT buf; Some (3, MemInt (scast v)) }
      else if serial_type = 4 then do { v \<leftarrow> FOUR_BYTE_INT buf; Some (4, MemInt (scast v)) }
      else if serial_type = 5 then do { v \<leftarrow> SIX_BYTE_INT buf; Some (6, MemInt v) }
      else if serial_type = 6 \<or> serial_type = 7 then serialGet buf serial_type
      else if serial_type = 8 \<or> serial_type = 9 then Some (0, MemInt (ucast (serial_type - 8)))
      else let n = unat (serial_type - 12) div 2
           in Some (n, if serial_type AND 1 = 0 then MemBlob (take n buf) None else MemStr (take n buf)))"

definition getVarint32 :: "bytes \<Rightarrow> (nat \<times> u32) option" where
  "getVarint32 A = do { a \<leftarrow> rd A 0; if a < 0x80 then Some (1, ucast a) else sqlite3GetVarint32 A }"

definition putVarint32 :: "u32 \<Rightarrow> bytes" where
  "putVarint32 B = (if B < 0x80 then [ucast B] else sqlite3PutVarint (ucast B))"

section \<open>Making a record\<close>

text \<open>
  The first loop of \<open>OP_MakeRecord\<close>, from the last field to the first: serial types, the fields as they
  are written, and the counts \<open>nData\<close>, \<open>nHdr\<close>, \<open>nZero\<close>. Zeros are left to the end of the record where they
  are its end, and written out otherwise, which may fail for want of memory (\<open>fails\<close>, asked with the
  number of fields to the right).
\<close>

fun plan_fields :: "(nat \<Rightarrow> bool) \<Rightarrow> nat \<Rightarrow> Mem list \<Rightarrow> ((u32 \<times> Mem) list \<times> nat \<times> nat \<times> nat) option" where
  "plan_fields fails file_format [] = Some ([], 0, 0, 0)"
| "plan_fields fails file_format (pRec # recs) = do {
     (done, nData, nHdr, nZero) \<leftarrow> plan_fields fails file_format recs;
     let (serial_type, len) = sqlite3VdbeSerialType pRec file_format;
     (serial_type, pRec, len, nZero) \<leftarrow>
       (case pRec of
          MemNull True \<Rightarrow> Some (10, pRec, len, nZero)
        | MemBlob z (Some k) \<Rightarrow>
            if nData \<noteq> 0 then
              if fails (length recs) then None else Some (serial_type, MemBlob (z @ replicate k 0) None, len, nZero)
            else Some (serial_type, pRec, len - of_nat k, nZero + k)
        | _ \<Rightarrow> Some (serial_type, pRec, len, nZero));
     Some ((serial_type, pRec) # done, nData + unat len,
       nHdr + (if serial_type \<le> 127 then 1 else sqlite3VarintLen (ucast serial_type)), nZero) }"

definition header_size :: "nat \<Rightarrow> nat" where
  "header_size nHdr =
     (if nHdr \<le> 126 then nHdr + 1
      else let nVarint = sqlite3VarintLen (of_nat nHdr);
               nHdr = nHdr + nVarint
           in if nVarint < sqlite3VarintLen (of_nat nHdr) then nHdr + 1 else nHdr)"

text \<open>The second loop: types go to offset \<open>i\<close>, contents to offset \<open>j\<close>. The bytes between must not remain.\<close>

definition write_record :: "nat \<Rightarrow> (u32 \<times> Mem) list \<Rightarrow> bytes" where
  "write_record nHdr fields =
     (let hdr = putVarint32 (of_nat nHdr) @ concat (map (\<lambda>(t, _). putVarint32 t) fields)
      in write_at 0 nHdr (concat (map (\<lambda>(t, v). sqlite3VdbeSerialPut v t) fields)) hdr)"

datatype made = Too_big | No_mem | Made bytes nat

definition OP_MakeRecord :: "(nat \<Rightarrow> bool) \<Rightarrow> bool \<Rightarrow> nat \<Rightarrow> nat \<Rightarrow> nat \<Rightarrow> Mem list \<Rightarrow> made" where
  "OP_MakeRecord fails resize_fails szMalloc limit file_format fields =
     (case plan_fields fails file_format fields of
        None \<Rightarrow> No_mem
      | Some (fields, nData, nHdr, nZero) \<Rightarrow>
          (let nHdr = header_size nHdr; nByte = nHdr + nData
           in if \<not> nByte + nZero \<le> szMalloc \<and> nByte + nZero > limit then Too_big
              else if \<not> nByte + nZero \<le> szMalloc \<and> resize_fails then No_mem
              else Made (write_record nHdr fields) nZero))"

section \<open>Unpacking a record\<close>

fun unpack_loop :: "nat \<Rightarrow> bytes \<Rightarrow> nat \<Rightarrow> nat \<Rightarrow> nat \<Rightarrow> nat \<Rightarrow> (Mem list \<times> nat) option" where
  "unpack_loop 0 aKey nKey szHdr idx d = Some ([], d)"
| "unpack_loop (Suc u) aKey nKey szHdr idx d =
     (if idx < szHdr \<and> d \<le> nKey then do {
        (n, serial_type) \<leftarrow> getVarint32 (drop idx aKey);
        (k, v) \<leftarrow> sqlite3VdbeSerialGet (drop d aKey) serial_type;
        (vs, d') \<leftarrow> unpack_loop u aKey nKey szHdr (idx + n) (d + k);
        Some (v # vs, d') }
      else Some ([], d))"

text \<open>\<open>nField\<close> is not zero; it is one more than the number of columns of the key.\<close>

definition sqlite3VdbeRecordUnpack :: "nat \<Rightarrow> bytes \<Rightarrow> nat \<Rightarrow> Mem list option" where
  "sqlite3VdbeRecordUnpack nField aKey nKey = do {
     (idx, szHdr) \<leftarrow> getVarint32 aKey;
     (vs, d) \<leftarrow> unpack_loop nField aKey nKey (unat szHdr) idx (unat szHdr);
     Some (if d > nKey \<and> vs \<noteq> [] then butlast vs @ [MemNull False] else vs) }"

text \<open>\<open>sqlite3VdbeIdxRowid\<close> on the bytes of the entry: the row id at the end, or \<open>None\<close> for \<open>SQLITE_CORRUPT\<close>.
  The outer \<open>None\<close> is a read behind the buffer.\<close>

definition sqlite3VdbeIdxRowid :: "bytes \<Rightarrow> nat \<Rightarrow> i64 option option" where
  "sqlite3VdbeIdxRowid z n = do {
     (_, szHdr) \<leftarrow> getVarint32 z;
     if szHdr < 3 \<or> unat szHdr > n then Some None
     else do {
       (_, typeRowid) \<leftarrow> getVarint32 (drop (unat szHdr - 1) z);
       if typeRowid < 1 \<or> typeRowid > 9 \<or> typeRowid = 7 then Some None
       else let lenRowid = sqlite3SmallTypeSizes ! unat typeRowid
            in if n < unat szHdr + lenRowid then Some None
               else do {
                 (_, v) \<leftarrow> sqlite3VdbeSerialGet (drop (n - lenRowid) z) typeRowid;
                 Some (case v of MemInt i \<Rightarrow> Some i | _ \<Rightarrow> None) } } }"

section \<open>Integers come back\<close>

definition extends :: "nat \<Rightarrow> i64 \<Rightarrow> bool" where
  "extends k i \<longleftrightarrow> (\<forall>n \<in> {k..<64}. bit i n = bit i 63)"

lemma not_bit_if_le: "unat (u :: u64) < 2 ^ k \<Longrightarrow> k \<le> n \<Longrightarrow> \<not> bit u n"
proof -
  assume u: "unat u < 2 ^ k" and k: "k \<le> n"
  have "take_bit k u = u" using u by (simp add: word_unat_eq_iff unsigned_take_bit_eq take_bit_nat_eq_self)
  then show ?thesis using k by (metis bit_take_bit_iff not_less)
qed

lemma extends_if: "unat (if sint i < 0 then NOT i else i) < 2 ^ k \<Longrightarrow> k < 64 \<Longrightarrow> extends k i"
proof -
  assume u: "unat (if sint i < 0 then NOT i else i) < 2 ^ k" and k: "k < 64"
  have sign: "sint i < 0 \<longleftrightarrow> bit i 63" using bit_last_iff[of i] by simp
  show ?thesis
  proof (cases "sint i < 0")
    case True
    then show ?thesis using not_bit_if_le[of "NOT i" k] u k by (auto simp: extends_def sign bit_not_iff)
  next
    case False
    then show ?thesis using not_bit_if_le[of i k] u k by (auto simp: extends_def sign)
  qed
qed

lemma put_be_numeral [simp]: "put_be (numeral w) v = put_be (pred_numeral w) (drop_bit 8 v) @ [ucast (v AND 0xFF)]"
  by (simp add: numeral_eq_Suc)

lemma shifts: "256 * x = push_bit 8 x" "65536 * x = push_bit 16 x" "16777216 * x = push_bit 24 x" for x :: "32 word"
  by (subst push_bit_eq_mult, simp)+

lemma extendsD: "extends k i \<Longrightarrow> k \<le> n \<Longrightarrow> n < 63 \<Longrightarrow> bit i n = bit i 63"
  unfolding extends_def by (erule bspec) simp

lemma one_byte: "extends 7 i \<Longrightarrow> ONE_BYTE_INT (put_be 1 i @ rest) = Some (scast i) \<and> scast (scast i :: 32 word) = i"
  apply (simp add: ONE_BYTE_INT_def)
  apply (intro conjI)
   apply (rule u32_eqI, simp add: bit_eval extendsD[of 7 i])
  apply (rule u64_eqI, simp add: bit_eval extendsD[of 7 i])
  done

lemma two_bytes: "extends 15 i \<Longrightarrow> TWO_BYTE_INT (put_be 2 i @ rest) = Some (scast i) \<and> scast (scast i :: 32 word) = i"
  apply (simp add: TWO_BYTE_INT_def shifts)
  apply (intro conjI)
   apply (rule u32_eqI, simp add: bit_eval extendsD[of 15 i])
  apply (rule u64_eqI, simp add: bit_eval extendsD[of 15 i])
  done

lemma three_bytes: "extends 23 i \<Longrightarrow> THREE_BYTE_INT (put_be 3 i @ rest) = Some (scast i) \<and> scast (scast i :: 32 word) = i"
  apply (simp add: THREE_BYTE_INT_def shifts)
  apply (intro conjI)
   apply (rule u32_eqI, simp add: bit_eval extendsD[of 23 i])
  apply (rule u64_eqI, simp add: bit_eval extendsD[of 23 i])
  done

lemma four_bytes: "extends 31 i \<Longrightarrow> FOUR_BYTE_INT (put_be 4 i @ rest) = Some (scast i) \<and> scast (scast i :: 32 word) = i"
  apply (simp add: FOUR_BYTE_INT_def shifts)
  apply (intro conjI)
   apply (rule u32_eqI, simp add: bit_eval extendsD[of 31 i])
  apply (rule u64_eqI, simp add: bit_eval extendsD[of 31 i])
  done

lemma four_uint: "FOUR_BYTE_UINT (put_be 4 i @ rest) = Some (ucast i)"
  apply (simp add: FOUR_BYTE_UINT_def)
  apply (rule u32_eqI, simp add: bit_eval)
  done

lemma low_and_high: "ucast (ucast i :: u32) + push_bit 32 1 * j = (ucast (ucast i :: u32) OR push_bit 32 j)" for j :: i64
proof -
  have "push_bit 32 1 * j = push_bit 32 j" unfolding push_bit_eq_mult by (simp add: mult.commute)
  moreover have "ucast (ucast i :: u32) AND push_bit 32 j = 0" by (rule u64_eqI) (simp add: bit_eval)
  ultimately show ?thesis by (metis disjunctive_add_eq_or)
qed

lemma length_put_be [simp]: "length (put_be n v) = n"
  by (induction n arbitrary: v) simp_all

lemma put_be_split: "put_be (m + n) v = put_be m (drop_bit (8 * n) v) @ put_be n v"
  by (induction n arbitrary: v) (simp_all add: ac_simps)

lemma two_value: "TWO_BYTE_INT (put_be 2 v @ rest) = Some (push_bit 8 (scast (ucast (drop_bit 8 v) :: u8)) OR ucast (ucast v :: u8))"
  apply (simp add: TWO_BYTE_INT_def shifts)
  apply (rule u32_eqI, simp add: bit_eval)
  done

lemma six_bytes: "extends 47 i \<Longrightarrow> SIX_BYTE_INT (put_be 6 i @ rest) = Some i"
  using put_be_split[of 2 4 i]
  apply (simp add: SIX_BYTE_INT_def four_uint two_value low_and_high[simplified] del: put_be_numeral)
  apply (rule u64_eqI, simp add: bit_eval extendsD[of 47 i])
  done

lemma eight_bytes:
  "serialGet (put_be 8 v @ rest) t = Some (8, if t = 6 then MemInt v else if is_nan v then MemNull False else MemReal v)"
proof -
  have "push_bit 32 (ucast (ucast (drop_bit 32 v) :: u32)) + ucast (ucast v :: u32) = v"
  proof -
    have "ucast (ucast v :: u32) + push_bit 32 1 * ucast (ucast (drop_bit 32 v) :: u32) = v" unfolding low_and_high
      by (rule u64_eqI) (simp add: bit_eval)
    then show ?thesis by (simp add: push_bit_eq_mult ac_simps)
  qed
  then show ?thesis
    using put_be_split[of 4 4 v] by (simp add: serialGet_def four_uint Let_def del: put_be_numeral)
qed

section \<open>A value comes back\<close>

text \<open>The limit of the length is \<open>SQLITE_MAX_LENGTH\<close>.\<close>

definition storable :: "Mem \<Rightarrow> bool" where
  "storable v \<longleftrightarrow>
     (case v of MemReal r \<Rightarrow> \<not> is_nan r | MemStr z \<Rightarrow> length z \<le> 1000000000
      | MemBlob z nZero \<Rightarrow> length z + (case nZero of None \<Rightarrow> 0 | Some k \<Rightarrow> k) \<le> 1000000000 | _ \<Rightarrow> True)"

definition expand :: "Mem \<Rightarrow> Mem" where
  "expand v = (case v of MemBlob z (Some k) \<Rightarrow> MemBlob (z @ replicate k 0) None | _ \<Rightarrow> v)"

definition type_of :: "nat \<Rightarrow> Mem \<Rightarrow> u32" where
  "type_of fmt v = (if v = MemNull True then 10 else fst (sqlite3VdbeSerialType v fmt))"

definition stored :: "nat \<Rightarrow> Mem \<Rightarrow> bytes" where
  "stored fmt v = sqlite3VdbeSerialPut (expand v) (type_of fmt v)"

lemma small_sizes: "list_all (\<lambda>t. sqlite3SmallTypeSizes ! t = (t - 12) div 2) [12..<128]"
  by code_simp

lemma unat_sub_12: "12 \<le> t \<Longrightarrow> unat (t - 12) = unat t - 12" for t :: u32
  by (simp add: unat_sub)

lemma SerialTypeLen_large: "serial_type \<ge> 12 \<Longrightarrow> sqlite3VdbeSerialTypeLen serial_type = (unat serial_type - 12) div 2"
proof -
  assume t: "serial_type \<ge> 12"
  then have sub: "unat (serial_type - 12) = unat serial_type - 12" by (simp add: unat_sub)
  show ?thesis
  proof (cases "serial_type \<ge> 128")
    case True
    then show ?thesis by (simp add: sqlite3VdbeSerialTypeLen_def sub)
  next
    case False
    then have "12 \<le> unat serial_type \<and> unat serial_type < 128" using t by (simp add: word_le_nat_alt)
    then have "unat serial_type \<in> set [12..<128]" by (simp only: set_upt atLeastLessThan_iff)
    then have "sqlite3SmallTypeSizes ! unat serial_type = (unat serial_type - 12) div 2"
      using small_sizes unfolding list_all_iff by blast
    then show ?thesis using False by (simp add: sqlite3VdbeSerialTypeLen_def)
  qed
qed

lemma even_unat: "even t \<longleftrightarrow> even (unat t)" for t :: u32
  using bit_unsigned_iff[where 'a = nat, of t 0] by (simp add: bit_0)

lemma large_type:
  assumes "n < 2 ^ 30" "b < 2"
  shows "unat (of_nat (2 * n + 12 + b) :: u32) = 2 * n + 12 + b" "(of_nat (2 * n + 12 + b) :: u32) \<ge> 12"
    "(of_nat (2 * n + 12 + b) :: u32) AND 1 = 0 \<longleftrightarrow> b = 0"
    "unat ((of_nat (2 * n + 12 + b) :: u32) - 12) div 2 = n" "sqlite3VdbeSerialTypeLen (of_nat (2 * n + 12 + b)) = n"
proof -
  let ?t = "of_nat (2 * n + 12 + b) :: u32"
  have "2 * n + 12 + b < 2 ^ LENGTH(32)" using assms by simp
  then show u: "unat ?t = 2 * n + 12 + b" by (simp only: unsigned_of_nat take_bit_nat_eq_self of_nat_id)
  then show ge: "?t \<ge> 12" by (simp add: word_le_nat_alt)
  have "?t AND 1 = 0 \<longleftrightarrow> even ?t" by (simp only: and_one_eq even_iff_mod_2_eq_zero)
  also have "\<dots> \<longleftrightarrow> even (2 * n + 12 + b)" by (simp only: even_unat u)
  also have "\<dots> \<longleftrightarrow> b = 0" using assms(2) by (cases b) auto
  finally show "?t AND 1 = 0 \<longleftrightarrow> b = 0" .
  show "sqlite3VdbeSerialTypeLen ?t = n" using SerialTypeLen_large[OF ge] u assms(2) by simp
  have "unat (?t - 12) = unat ?t - 12" using ge by (rule unat_sub_12)
  then show "unat (?t - 12) div 2 = n" using u assms(2) by simp
qed

lemma serial_int:
  assumes "t = type_of fmt (MemInt i)"
  shows "sqlite3VdbeSerialGet (sqlite3VdbeSerialPut (MemInt i) t @ rest) t
      = Some (length (sqlite3VdbeSerialPut (MemInt i) t), MemInt i)
    \<and> length (sqlite3VdbeSerialPut (MemInt i) t) = sqlite3VdbeSerialTypeLen t
    \<and> snd (sqlite3VdbeSerialType (MemInt i) fmt) = of_nat (sqlite3VdbeSerialTypeLen t)"
proof -
  obtain u where u: "u = (if sint i < 0 then NOT i else i)" by blast
  have type: "sqlite3VdbeSerialType (MemInt i) fmt =
      (if u \<le> 127 then if i AND 1 = i \<and> fmt \<ge> 4 then (8 + ucast u, 0) else (1, 1)
       else if u \<le> 32767 then (2, 2) else if u \<le> 8388607 then (3, 3) else if u \<le> 2147483647 then (4, 4)
       else if u \<le> 0x7fffffffffff then (5, 6) else (6, 8))"
    by (simp add: sqlite3VdbeSerialType_def u Let_def)
  have type_of: "type_of fmt (MemInt i) = fst (sqlite3VdbeSerialType (MemInt i) fmt)" by (simp add: type_of_def)
  note defs = sqlite3VdbeSerialPut_def sqlite3VdbeSerialGet_def sqlite3VdbeSerialTypeLen_def sqlite3SmallTypeSizes_def
  consider "u \<le> 127" "i AND 1 = i" "fmt \<ge> 4" | "u \<le> 127" "\<not> (i AND 1 = i \<and> fmt \<ge> 4)"
    | "\<not> u \<le> 127" "u \<le> 32767" | "\<not> u \<le> 127" "\<not> u \<le> 32767" "u \<le> 8388607"
    | "\<not> u \<le> 127" "\<not> u \<le> 32767" "\<not> u \<le> 8388607" "u \<le> 2147483647"
    | "\<not> u \<le> 127" "\<not> u \<le> 32767" "\<not> u \<le> 8388607" "\<not> u \<le> 2147483647" "u \<le> 0x7fffffffffff"
    | "\<not> u \<le> 127" "\<not> u \<le> 32767" "\<not> u \<le> 8388607" "\<not> u \<le> 2147483647" "\<not> u \<le> 0x7fffffffffff" by blast
  then show ?thesis
  proof cases
    case 1
    then have "i = 0 \<or> i = 1" by (metis and_one_eq mod2_eq_if)
    then show ?thesis
    proof
      assume i: "i = 0"
      then have "u = 0" by (simp add: u)
      then have t: "t = 8" "snd (sqlite3VdbeSerialType (MemInt i) fmt) = 0" using 1 unfolding assms type_of by (simp_all add: type)
      show ?thesis by (simp add: t(2)) (simp add: defs t(1) i)
    next
      assume i: "i = 1"
      then have "u = 1" by (simp add: u)
      then have t: "t = 9" "snd (sqlite3VdbeSerialType (MemInt i) fmt) = 0" using 1 unfolding assms type_of by (simp_all add: type)
      show ?thesis by (simp add: t(2)) (simp add: defs t(1) i)
    qed
  next
    case 2
    then have t: "t = 1" "snd (sqlite3VdbeSerialType (MemInt i) fmt) = 1" unfolding assms type_of by (auto simp: type)
    have "extends 7 i" using 2(1) by (intro extends_if) (simp_all only: u[symmetric] word_le_nat_alt, auto)
    then show ?thesis using one_byte[of i rest] by (simp add: t(2)) (simp add: defs t(1) word_le_nat_alt)
  next
    case 3
    then have t: "t = 2" "snd (sqlite3VdbeSerialType (MemInt i) fmt) = 2" unfolding assms type_of by (auto simp: type)
    have "extends 15 i" using 3(2) by (intro extends_if) (simp_all only: u[symmetric] word_le_nat_alt, auto)
    then show ?thesis using two_bytes[of i rest] by (simp add: t(2)) (simp add: defs t(1))
  next
    case 4
    then have t: "t = 3" "snd (sqlite3VdbeSerialType (MemInt i) fmt) = 3" unfolding assms type_of by (auto simp: type)
    have "extends 23 i" using 4(3) by (intro extends_if) (simp_all only: u[symmetric] word_le_nat_alt, auto)
    then show ?thesis using three_bytes[of i rest] by (simp add: t(2)) (simp add: defs t(1))
  next
    case 5
    then have t: "t = 4" "snd (sqlite3VdbeSerialType (MemInt i) fmt) = 4" unfolding assms type_of by (auto simp: type)
    have "extends 31 i" using 5(4) by (intro extends_if) (simp_all only: u[symmetric] word_le_nat_alt, auto)
    then show ?thesis using four_bytes[of i rest] by (simp add: t(2)) (simp add: defs t(1))
  next
    case 6
    then have t: "t = 5" "snd (sqlite3VdbeSerialType (MemInt i) fmt) = 6" unfolding assms type_of by (auto simp: type)
    have "extends 47 i" using 6(5) by (intro extends_if) (simp_all only: u[symmetric] word_le_nat_alt, auto)
    then show ?thesis using six_bytes[of i rest] by (simp add: t(2)) (simp add: defs t(1))
  next
    case 7
    then have t: "t = 6" "snd (sqlite3VdbeSerialType (MemInt i) fmt) = 8" unfolding assms type_of by (auto simp: type)
    then show ?thesis using eight_bytes[of i rest 6] by (simp add: t(2)) (simp add: defs t(1))
  qed
qed

lemma SerialPut_large: "12 \<le> t \<Longrightarrow> sqlite3VdbeSerialPut v t = (case v of MemStr z \<Rightarrow> z | MemBlob z _ \<Rightarrow> z | _ \<Rightarrow> [])"
  by (auto simp: sqlite3VdbeSerialPut_def word_le_nat_alt)

lemma SerialGet_large:
  "12 \<le> t \<Longrightarrow> sqlite3VdbeSerialGet buf t =
    Some (unat (t - 12) div 2, if t AND 1 = 0 then MemBlob (take (unat (t - 12) div 2) buf) None
      else MemStr (take (unat (t - 12) div 2) buf))"
  by (auto simp: sqlite3VdbeSerialGet_def Let_def word_le_nat_alt)

lemma SerialTypeLen_less: "sqlite3VdbeSerialTypeLen t < 2 ^ 31"
proof (cases "t \<ge> 128")
  case True
  have "unat (t - 12) < 2 ^ LENGTH(32)" by (rule unsigned_less)
  then show ?thesis using True by (simp add: sqlite3VdbeSerialTypeLen_def)
next
  case False
  then have "unat t < length sqlite3SmallTypeSizes" by (simp add: word_le_nat_alt sqlite3SmallTypeSizes_def)
  then have "sqlite3SmallTypeSizes ! unat t \<in> set sqlite3SmallTypeSizes" by (rule nth_mem)
  moreover have "list_all (\<lambda>n. n < 58) sqlite3SmallTypeSizes" by (simp add: sqlite3SmallTypeSizes_def)
  ultimately have "sqlite3SmallTypeSizes ! unat t < 58" by (simp only: list_all_iff)
  then show ?thesis using False by (simp add: sqlite3VdbeSerialTypeLen_def)
qed

lemma str_facts:
  assumes "storable (MemStr z)" "t = type_of fmt (MemStr z)"
  shows "12 \<le> t" "t AND 1 \<noteq> 0" "unat (t - 12) div 2 = length z" "sqlite3VdbeSerialTypeLen t = length z"
    "stored fmt (MemStr z) = z" "snd (sqlite3VdbeSerialType (MemStr z) fmt) = of_nat (length z)"
proof -
  have "length z < 2 ^ 30" using assms(1) by (simp add: storable_def)
  note l = large_type[OF this, of 1, simplified]
  have t: "t = of_nat (2 * length z + 12 + 1)"
    unfolding assms(2) by (simp add: type_of_def sqlite3VdbeSerialType_def Let_def)
  show l': "12 \<le> t" "t AND 1 \<noteq> 0" "unat (t - 12) div 2 = length z" "sqlite3VdbeSerialTypeLen t = length z"
    using l unfolding t by simp_all
  show "stored fmt (MemStr z) = z"
    unfolding stored_def assms(2)[symmetric] by (subst SerialPut_large[OF l'(1)]) (simp add: expand_def)
  show "snd (sqlite3VdbeSerialType (MemStr z) fmt) = of_nat (length z)" by (simp add: sqlite3VdbeSerialType_def Let_def)
qed

definition full_blob :: "bytes \<Rightarrow> nat option \<Rightarrow> bytes" where
  "full_blob z zero = z @ (case zero of None \<Rightarrow> [] | Some k \<Rightarrow> replicate k 0)"

lemma expand_blob: "expand (MemBlob z zero) = MemBlob (full_blob z zero) None"
  by (cases zero) (simp_all add: expand_def full_blob_def)

lemma blob_facts:
  assumes "storable (MemBlob z zero)" "t = type_of fmt (MemBlob z zero)"
  shows "12 \<le> t" "t AND 1 = 0" "unat (t - 12) div 2 = length (full_blob z zero)" "sqlite3VdbeSerialTypeLen t = length (full_blob z zero)"
    "stored fmt (MemBlob z zero) = full_blob z zero" "snd (sqlite3VdbeSerialType (MemBlob z zero) fmt) = of_nat (length (full_blob z zero))"
proof -
  have n: "length (full_blob z zero) = length z + (case zero of None \<Rightarrow> 0 | Some k \<Rightarrow> k)" by (cases zero) (simp_all add: full_blob_def)
  then have "length (full_blob z zero) < 2 ^ 30" using assms(1) by (simp add: storable_def)
  note l = large_type[OF this, of 0, simplified]
  have t: "t = of_nat (2 * length (full_blob z zero) + 12)"
    "snd (sqlite3VdbeSerialType (MemBlob z zero) fmt) = of_nat (length (full_blob z zero))"
    unfolding assms(2) n by (cases zero; simp add: type_of_def sqlite3VdbeSerialType_def Let_def algebra_simps)+
  show l': "12 \<le> t" "t AND 1 = 0" "unat (t - 12) div 2 = length (full_blob z zero)"
    "sqlite3VdbeSerialTypeLen t = length (full_blob z zero)"
    using l unfolding t(1) by simp_all
  show "stored fmt (MemBlob z zero) = full_blob z zero"
    unfolding stored_def assms(2)[symmetric] expand_blob by (subst SerialPut_large[OF l'(1)]) simp
  show "snd (sqlite3VdbeSerialType (MemBlob z zero) fmt) = of_nat (length (full_blob z zero))" by (rule t(2))
qed

lemma serial_field:
  assumes "storable v" "t = type_of fmt v"
  shows "sqlite3VdbeSerialGet (stored fmt v @ rest) t = Some (length (stored fmt v), expand v)
    \<and> length (stored fmt v) = sqlite3VdbeSerialTypeLen t
    \<and> snd (sqlite3VdbeSerialType v fmt) = of_nat (sqlite3VdbeSerialTypeLen t)"
proof (cases v)
  case (MemNull b)
  then show ?thesis unfolding assms(2)
    by (cases b) (simp_all add: stored_def expand_def type_of_def sqlite3VdbeSerialType_def sqlite3VdbeSerialPut_def
        sqlite3VdbeSerialGet_def sqlite3VdbeSerialTypeLen_def sqlite3SmallTypeSizes_def)
next
  case (MemInt i)
  then show ?thesis using serial_int[of t fmt i rest] assms(2) by (simp add: stored_def expand_def)
next
  case (MemReal r)
  then have t: "t = 7" "\<not> is_nan r" using assms by (simp_all add: type_of_def sqlite3VdbeSerialType_def storable_def)
  have "type_of fmt v = 7" using assms(2) t(1) by simp
  then have "stored fmt v = put_be 8 r"
    by (simp add: stored_def) (simp add: MemReal expand_def sqlite3VdbeSerialPut_def sqlite3SmallTypeSizes_def)
  then show ?thesis using eight_bytes[of r rest 7] t(2)
    by (simp add: t(1) MemReal expand_def sqlite3VdbeSerialGet_def sqlite3VdbeSerialTypeLen_def sqlite3SmallTypeSizes_def
        sqlite3VdbeSerialType_def del: put_be_numeral)
next
  case (MemStr z)
  note f = str_facts[OF assms(1)[unfolded MemStr] assms(2)[unfolded MemStr]]
  then show ?thesis unfolding MemStr by (simp add: SerialGet_large[OF f(1)]) (simp add: expand_def)
next
  case (MemBlob z nZero)
  note f = blob_facts[OF assms(1)[unfolded MemBlob] assms(2)[unfolded MemBlob]]
  then show ?thesis unfolding MemBlob by (simp add: SerialGet_large[OF f(1)] expand_blob)
qed

section \<open>Varints of 32 bits\<close>

lemma PutVarint_first: "v > 0x7f \<Longrightarrow> \<exists>p0 p. sqlite3PutVarint v = p0 # p \<and> bit p0 7"
proof -
  assume v: "v > 0x7f"
  obtain p0 p where p: "sqlite3PutVarint v = p0 # p" using length_PutVarint_le(1)[of v] by (cases "sqlite3PutVarint v") auto
  have "bit p0 7"
  proof (rule ccontr)
    assume b: "\<not> bit p0 7"
    have "varint_ref 0 0 (sqlite3PutVarint v @ []) = Some (length (sqlite3PutVarint v), v)"
      using PutVarint_reads[of v "[]"] by (simp only: getVarint_ref)
    then have "v = group7 0 p0" using b by (simp add: p)
    also have "group7 0 p0 = ucast p0 AND 0x7f" by (rule u64_eqI) (simp add: bit_eval)
    also have "\<dots> \<le> 0x7f" by (simp add: word_and_le1)
    finally show False using v by simp
  qed
  then show ?thesis using p by blast
qed

lemma u8_small: "t < 0x80 \<Longrightarrow> ucast (ucast t :: u8) = t \<and> (ucast t :: u8) < 0x80" for t :: u32
proof -
  assume "t < 0x80"
  then have t: "unat t < 128" by (simp add: word_less_nat_alt)
  then have u: "unat (ucast t :: u8) = unat t" by (simp add: unsigned_ucast_eq unsigned_take_bit_eq take_bit_nat_eq_self)
  then have "unat (ucast (ucast t :: u8) :: u32) = unat t" using t by (simp add: unsigned_ucast_eq unsigned_take_bit_eq take_bit_nat_eq_self)
  then show ?thesis using t u by (simp add: word_unat_eq_iff word_less_nat_alt)
qed

lemma unat_ucast_u64: "unat (ucast t :: u64) = unat t" for t :: u32
proof -
  have "unat t < 2 ^ LENGTH(32)" by (rule unsigned_less)
  then have "take_bit 64 (unat t) = unat t" by (intro take_bit_nat_eq_self) simp
  then show ?thesis by (simp add: unsigned_ucast_eq unsigned_take_bit_eq)
qed

lemma putVarint32_reads: "getVarint32 (putVarint32 t @ rest) = Some (length (putVarint32 t), t)"
proof (cases "t < 0x80")
  case True
  then show ?thesis using u8_small[of t] by (simp add: getVarint32_def putVarint32_def)
next
  case False
  then have "unat t > 127" by (simp add: word_less_nat_alt)
  then have "(ucast t :: u64) > 0x7f" by (simp add: word_less_nat_alt unat_ucast_u64)
  then obtain p0 p where p: "sqlite3PutVarint (ucast t) = p0 # p" "bit p0 7" using PutVarint_first by blast
  have "unat t < 2 ^ 32" using unsigned_less[of t] by simp
  moreover have "ucast (ucast t :: u64) = t" by (rule u32_eqI) (simp add: bit_eval)
  ultimately have "sqlite3GetVarint32 (p0 # p @ rest) = Some (length (sqlite3PutVarint (ucast t)), t)"
    using GetVarint32_saturates[OF p(2), of "p @ rest"] PutVarint_reads[of "ucast t" rest] by (simp add: p(1) unat_ucast_u64)
  then show ?thesis using False p u8_high_bit[of p0] by (simp add: getVarint32_def putVarint32_def)
qed

lemma VarintLen_eq: "unat v < 2 ^ 63 \<Longrightarrow> sqlite3VarintLen v = length (sqlite3PutVarint v)"
proof -
  assume "unat v < 2 ^ 63"
  then have "\<not> bit v 63" by (rule not_bit_if_le) simp
  then show ?thesis by (simp add: VarintLen_vs_PutVarint)
qed

lemma length_putVarint32:
  "length (putVarint32 t) = (if t \<le> 127 then 1 else sqlite3VarintLen (ucast t))" "length (putVarint32 t) = sqlite3VarintLen (ucast t)"
proof -
  have le: "t \<le> 127 \<longleftrightarrow> t < 0x80" by (simp add: word_le_nat_alt word_less_nat_alt less_Suc_eq_le[of _ 127, simplified])
  have "unat t < 2 ^ 32" using unsigned_less[of t] by simp
  then have len: "sqlite3VarintLen (ucast t) = length (sqlite3PutVarint (ucast t))" by (intro VarintLen_eq) (simp add: unat_ucast_u64)
  have one: "length (sqlite3PutVarint (ucast t)) = 1" if "t < 0x80"
  proof -
    have "(ucast t :: u64) \<le> 0x7f" using that by (simp add: word_less_nat_alt word_le_nat_alt unat_ucast_u64)
    then show ?thesis by (simp add: sqlite3PutVarint_def)
  qed
  show "length (putVarint32 t) = (if t \<le> 127 then 1 else sqlite3VarintLen (ucast t))" by (simp add: putVarint32_def le len)
  show "length (putVarint32 t) = sqlite3VarintLen (ucast t)" by (simp add: putVarint32_def len one)
qed

lemma VarintLen_values:
  assumes "n < 2 ^ 21"
  shows "sqlite3VarintLen (of_nat n) = (if n < 2 ^ 7 then 1 else if n < 2 ^ 14 then 2 else 3)"
proof -
  have u: "unat (of_nat n :: u64) = n" using assms by (simp add: unsigned_of_nat take_bit_nat_eq_self)
  have z: "drop_bit k (of_nat n :: u64) = 0 \<longleftrightarrow> n < 2 ^ k" for k
  proof -
    have "unat (drop_bit k (of_nat n :: u64)) = drop_bit k (unat (of_nat n :: u64))" by (rule unat_drop_bit_eq)
    also have "\<dots> = n div 2 ^ k" unfolding u by (rule drop_bit_eq_div)
    finally have "drop_bit k (of_nat n :: u64) = 0 \<longleftrightarrow> n div 2 ^ k = 0" by (metis unat_0_iff)
    then show ?thesis by (simp add: div_eq_0_iff)
  qed
  show ?thesis
    using length_put_groups_le[of 1 "of_nat n"] length_put_groups_le[of 2 "of_nat n"] length_put_groups_le[of 3 "of_nat n"]
      length_put_groups_ge[of 1 "of_nat n"] length_put_groups_ge[of 2 "of_nat n"] put_groups_nonempty[of "of_nat n"] assms
    unfolding z VarintLen_groups by (cases "put_groups (of_nat n)") auto
qed

lemma header_size:
  assumes "n < 2 ^ 20"
  shows "length (putVarint32 (of_nat (header_size n))) + n = header_size n" "header_size n < 2 ^ 21"
proof -
  have L: "length (putVarint32 (of_nat h)) = sqlite3VarintLen (of_nat h)" if "h < 2 ^ 21" for h
  proof -
    have "ucast (of_nat h :: u32) = (of_nat h :: u64)" using that
      by (simp add: word_unat_eq_iff unat_ucast_u64 unsigned_of_nat take_bit_nat_eq_self)
    then show ?thesis by (simp add: length_putVarint32(2))
  qed
  have "sqlite3VarintLen (of_nat (header_size n)) + n = header_size n \<and> header_size n < 2 ^ 21"
    using assms by (auto simp: header_size_def Let_def VarintLen_values simp del: of_nat_add of_nat_Suc)
  then show "length (putVarint32 (of_nat (header_size n))) + n = header_size n" "header_size n < 2 ^ 21" using L by simp_all
qed

section \<open>A record\<close>

abbreviation types :: "nat \<Rightarrow> Mem list \<Rightarrow> bytes" where
  "types fmt fs \<equiv> concat (map (\<lambda>f. putVarint32 (type_of fmt f)) fs)"

abbreviation contents :: "nat \<Rightarrow> Mem list \<Rightarrow> bytes" where
  "contents fmt fs \<equiv> concat (map (stored fmt) fs)"

definition record_bytes :: "nat \<Rightarrow> Mem list \<Rightarrow> bytes" where
  "record_bytes fmt fs = putVarint32 (of_nat (header_size (length (types fmt fs)))) @ types fmt fs @ contents fmt fs"

lemma length_putVarint32_le: "1 \<le> length (putVarint32 t)" "length (putVarint32 t) \<le> 5"
proof -
  have "unat t < 2 ^ LENGTH(32)" by (rule unsigned_less)
  then have "unat (ucast t :: u64) < 2 ^ (7 * 5)" by (simp add: unat_ucast_u64)
  then have "drop_bit (7 * 5) (ucast t :: u64) = 0" by (rule Sqlite_Varint.drop_bit_eq_0)
  then have "length (put_groups (ucast t)) \<le> 5" by (intro length_put_groups_le) simp_all
  then show "length (putVarint32 t) \<le> 5" by (simp add: length_putVarint32(2) VarintLen_groups)
  show "1 \<le> length (putVarint32 t)" using length_PutVarint_le(1)[of "ucast t"] by (simp add: putVarint32_def)
qed

lemma length_types: "length (types fmt fs) \<le> 5 * length fs"
  by (induction fs) (use length_putVarint32_le(2) in \<open>simp_all add: add_mono\<close>)

lemma written_cases:
  obtains "f = MemNull True" | z k where "f = MemBlob z (Some k)"
  | "f \<noteq> MemNull True" "expand f = f" "\<And>z k. f \<noteq> MemBlob z (Some k)"
proof (cases f)
  case (MemBlob z n)
  then show ?thesis using that by (cases n) (simp_all add: expand_def)
qed (use that in \<open>auto simp: expand_def\<close>)

lemma plan_fields:
  assumes "plan_fields fails fmt fs = Some (fields, nData, nHdr, nZero)" "\<forall>f \<in> set fs. storable f"
  shows "map fst fields = map (type_of fmt) fs
    \<and> concat (map (\<lambda>(t, v). sqlite3VdbeSerialPut v t) fields) @ replicate nZero 0 = contents fmt fs
    \<and> nData = length (concat (map (\<lambda>(t, v). sqlite3VdbeSerialPut v t) fields)) \<and> nHdr = length (types fmt fs)"
  using assms
proof (induction fs arbitrary: fields nData nHdr nZero)
  case Nil
  then show ?case by simp
next
  case (Cons f fs)
  obtain fields' nData' nHdr' nZero' where rest: "plan_fields fails fmt fs = Some (fields', nData', nHdr', nZero')"
    using Cons.prems(1) by (auto simp: bind_eq_Some_conv)
  have "\<forall>f \<in> set fs. storable f" using Cons.prems(2) by simp
  note IH = Cons.IH[OF rest this]
  let ?t = "type_of fmt f"
  have st: "storable f" using Cons.prems(2) by simp
  note field = serial_field[OF st refl, of fmt "[]"]
  have len: "unat (snd (sqlite3VdbeSerialType f fmt)) = length (stored fmt f)"
  proof -
    have "length (stored fmt f) < 2 ^ LENGTH(32)" using field SerialTypeLen_less[of ?t] by simp
    then have "unat (of_nat (length (stored fmt f)) :: u32) = length (stored fmt f)"
      by (simp only: unsigned_of_nat take_bit_nat_eq_self of_nat_id)
    then show ?thesis using field by metis
  qed
  have hdr: "(if ?t \<le> 127 then 1 else sqlite3VarintLen (ucast ?t)) = length (putVarint32 ?t)" by (simp only: length_putVarint32(1))
  consider "f = MemNull True" | z k where "f = MemBlob z (Some k)" | "f \<noteq> MemNull True" "expand f = f" "\<And>z k. f \<noteq> MemBlob z (Some k)"
    by (rule written_cases[of f]; blast)
  then show ?case
  proof cases
    case 1
    have "fields = (10, f) # fields' \<and> nData = nData' \<and> nHdr = nHdr' + 1 \<and> nZero = nZero'"
      using Cons.prems(1) rest by (auto simp: 1 sqlite3VdbeSerialType_def)
    moreover have "?t = 10" "stored fmt f = []" by (simp_all add: 1 type_of_def stored_def expand_def sqlite3VdbeSerialPut_def)
    moreover have "sqlite3VdbeSerialPut f 10 = []" by (simp add: sqlite3VdbeSerialPut_def 1)
    moreover have "length (putVarint32 10) = 1" by (simp add: putVarint32_def)
    ultimately show ?thesis using IH Cons.prems(2) by simp
  next
    case (2 z k)
    have n: "length z + k < 2 ^ 30" using st by (simp add: 2 storable_def)
    have t: "sqlite3VdbeSerialType f fmt = (?t, of_nat (length z + k))" "?t \<ge> 12"
      using large_type(2)[OF n, of 0] by (simp_all add: 2 type_of_def sqlite3VdbeSerialType_def Let_def algebra_simps)
    have st: "stored fmt f = z @ replicate k 0" by (simp add: stored_def SerialPut_large[OF t(2)]) (simp add: 2 expand_def)
    show ?thesis
    proof (cases "nData' = 0")
      case True
      have "fields = (?t, f) # fields' \<and> nData = nData' + unat (of_nat (length z + k) - of_nat k :: u32)
          \<and> nHdr = nHdr' + length (putVarint32 ?t) \<and> nZero = nZero' + k"
        using Cons.prems(1) rest True t(1) hdr by (auto simp: 2 bind_eq_Some_conv)
      moreover have "unat (of_nat (length z + k) - of_nat k :: u32) = length z"
        using n by (simp add: unsigned_of_nat take_bit_nat_eq_self)
      moreover have "concat (map (\<lambda>(t, v). sqlite3VdbeSerialPut v t) fields') = []" using IH True by (metis length_0_conv)
      then have "contents fmt fs = replicate nZero' 0" using IH by (metis append_Nil)
      ultimately show ?thesis using IH Cons.prems(2) True st SerialPut_large[OF t(2), of f]
        by (auto simp: 2 replicate_add add.commute)
    next
      case False
      have "fields = (?t, MemBlob (z @ replicate k 0) None) # fields' \<and> nData = nData' + unat (of_nat (length z + k) :: u32)
          \<and> nHdr = nHdr' + length (putVarint32 ?t) \<and> nZero = nZero'"
        using Cons.prems(1) rest False t(1) hdr by (auto simp: 2 bind_eq_Some_conv split: if_splits)
      moreover have "unat (of_nat (length z + k) :: u32) = length z + k"
        using n by (simp add: unsigned_of_nat take_bit_nat_eq_self del: of_nat_add)
      ultimately show ?thesis using IH Cons.prems(2) st SerialPut_large[OF t(2), of "MemBlob (z @ replicate k 0) None"]
        by auto
    qed
  next
    case 3
    obtain l where ty: "sqlite3VdbeSerialType f fmt = (?t, l)" using 3(1) by (cases "sqlite3VdbeSerialType f fmt") (simp add: type_of_def)
    then have "unat l = length (stored fmt f)" using len by simp
    with ty have "fields = (?t, f) # fields' \<and> nData = nData' + length (stored fmt f)
        \<and> nHdr = nHdr' + length (putVarint32 ?t) \<and> nZero = nZero'"
      using Cons.prems(1) rest 3(1,3) hdr
      by (cases f; auto simp: split_beta bind_eq_Some_conv split: bool.splits option.splits)
    then show ?thesis using IH Cons.prems(2) 3(2) by (auto simp: stored_def)
  qed
qed

lemma header_length:
  assumes "length fs \<le> 2 ^ 16"
  shows "header_size (length (types fmt fs)) < 2 ^ 21"
    "length (putVarint32 (of_nat (header_size (length (types fmt fs)))) @ types fmt fs) = header_size (length (types fmt fs))"
proof -
  have "length (types fmt fs) < 2 ^ 20" using length_types[of fmt fs] assms by simp
  from header_size[OF this] show "header_size (length (types fmt fs)) < 2 ^ 21"
    "length (putVarint32 (of_nat (header_size (length (types fmt fs)))) @ types fmt fs) = header_size (length (types fmt fs))" by simp_all
qed

lemma write_at_end: "length xs = off \<Longrightarrow> write_at z off d xs = xs @ d"
  by (auto simp: write_at_def)

lemma MakeRecord_bytes:
  assumes "OP_MakeRecord fails resize_fails szMalloc limit fmt fs = Made out nZero"
    and "\<forall>f \<in> set fs. storable f" "length fs \<le> 2 ^ 16"
  shows "out @ replicate nZero 0 = record_bytes fmt fs"
proof -
  obtain fields nData nHdr where plan: "plan_fields fails fmt fs = Some (fields, nData, nHdr, nZero)"
    and out: "out = write_record (header_size nHdr) fields"
    using assms(1) by (auto simp: OP_MakeRecord_def Let_def split: option.splits if_splits)
  note p = plan_fields[OF plan assms(2)]
  have "map (\<lambda>(t, _). putVarint32 t) fields = map putVarint32 (map fst fields)" by (simp add: split_def)
  also have "\<dots> = map (\<lambda>f. putVarint32 (type_of fmt f)) fs" using p by simp
  finally have hdr: "concat (map (\<lambda>(t, _). putVarint32 t) fields) = types fmt fs" by simp
  have "out = (putVarint32 (of_nat (header_size nHdr)) @ types fmt fs) @ concat (map (\<lambda>(t, v). sqlite3VdbeSerialPut v t) fields)"
    unfolding out write_record_def Let_def hdr by (rule write_at_end) (use p header_length[OF assms(3), of fmt] in simp)
  then show ?thesis using p by (simp add: record_bytes_def)
qed

lemma unpack_loop:
  assumes "\<forall>f \<in> set fs. storable f"
    and "drop idx aKey = types fmt fs @ X" "drop d aKey = contents fmt fs @ Y"
    and "szHdr = idx + length (types fmt fs)" "d + length (contents fmt fs) \<le> nKey"
  shows "unpack_loop u aKey nKey szHdr idx d = Some (map expand (take u fs), d + length (contents fmt (take u fs)))"
  using assms
proof (induction fs arbitrary: u idx d)
  case Nil
  then show ?case by (cases u) simp_all
next
  case (Cons f fs)
  show ?case
  proof (cases u)
    case 0
    then show ?thesis by simp
  next
    case (Suc u)
    let ?p = "putVarint32 (type_of fmt f)"
    have get: "getVarint32 (drop idx aKey) = Some (length ?p, type_of fmt f)"
      using Cons.prems(2) putVarint32_reads[of "type_of fmt f"] by simp
    have val: "sqlite3VdbeSerialGet (drop d aKey) (type_of fmt f) = Some (length (stored fmt f), expand f)"
      using Cons.prems(1,3) serial_field[of f "type_of fmt f" fmt] by simp
    have "drop (idx + length ?p) aKey = types fmt fs @ X" "drop (d + length (stored fmt f)) aKey = contents fmt fs @ Y"
      using Cons.prems(2,3) drop_drop[of "length ?p" idx aKey] drop_drop[of "length (stored fmt f)" d aKey]
      by (simp_all add: add.commute)
    from Cons.IH[OF _ this, of u] have "unpack_loop u aKey nKey szHdr (idx + length ?p) (d + length (stored fmt f)) =
        Some (map expand (take u fs), d + length (stored fmt f) + length (contents fmt (take u fs)))"
      using Cons.prems(1,4,5) by simp
    moreover have "idx < szHdr" "d \<le> nKey" using Cons.prems(4,5) length_putVarint32_le(1)[of "type_of fmt f"] by auto
    ultimately show ?thesis by (simp add: Suc get val)
  qed
qed

lemma record_parts:
  fixes fmt :: nat and fs :: "Mem list" and pad :: bytes
  assumes "length fs \<le> 2 ^ 16"
  defines "h \<equiv> header_size (length (types fmt fs))"
  defines "n \<equiv> length (putVarint32 (of_nat h))"
  shows "getVarint32 (record_bytes fmt fs @ pad) = Some (n, of_nat h)" "unat (of_nat h :: u32) = h"
    "drop n (record_bytes fmt fs @ pad) = types fmt fs @ contents fmt fs @ pad"
    "drop h (record_bytes fmt fs @ pad) = contents fmt fs @ pad"
    "h = n + length (types fmt fs)" "length (record_bytes fmt fs) = h + length (contents fmt fs)" "1 \<le> n"
proof -
  note l = header_length[OF assms(1), of fmt, folded h_def]
  show "getVarint32 (record_bytes fmt fs @ pad) = Some (n, of_nat h)"
    using putVarint32_reads[of "of_nat h"] by (simp add: record_bytes_def h_def[symmetric] n_def)
  show "unat (of_nat h :: u32) = h" using l(1) by (simp add: unsigned_of_nat take_bit_nat_eq_self)
  show "drop n (record_bytes fmt fs @ pad) = types fmt fs @ contents fmt fs @ pad"
    by (simp add: record_bytes_def h_def[symmetric] n_def)
  show h: "h = n + length (types fmt fs)" using l(2) by (simp add: n_def)
  show "drop h (record_bytes fmt fs @ pad) = contents fmt fs @ pad"
    unfolding h by (simp add: record_bytes_def h_def[symmetric] n_def)
  show "length (record_bytes fmt fs) = h + length (contents fmt fs)" using h by (simp add: record_bytes_def h_def[symmetric] n_def)
  show "1 \<le> n" by (simp only: n_def length_putVarint32_le)
qed

lemma unpack_record:
  assumes "\<forall>f \<in> set fs. storable f" "length fs \<le> 2 ^ 16"
  shows "sqlite3VdbeRecordUnpack nField (record_bytes fmt fs @ pad) (length (record_bytes fmt fs)) = Some (map expand (take nField fs))"
proof -
  note p = record_parts(1,3,4)[OF assms(2), of fmt pad] and q = record_parts(2,5,6)[OF assms(2), of fmt]
  have take: "length (contents fmt (take nField fs)) \<le> length (contents fmt fs)"
  proof -
    have "contents fmt fs = contents fmt (take nField fs) @ contents fmt (drop nField fs)"
      by (metis append_take_drop_id concat_append map_append)
    then show ?thesis by simp
  qed
  show ?thesis
    using unpack_loop[OF assms(1) p(2,3) q(2), of "length (record_bytes fmt fs)" nField] take
    by (simp add: sqlite3VdbeRecordUnpack_def p(1) q(1,3))
qed

lemma int_type: "type_of fmt (MemInt i) \<in> {1, 2, 3, 4, 5, 6, 8, 9}"
proof (cases "i AND 1 = i")
  case True
  then have "i = 0 \<or> i = 1" by (metis and_one_eq mod2_eq_if)
  then show ?thesis by (auto simp: type_of_def sqlite3VdbeSerialType_def)
qed (simp add: type_of_def sqlite3VdbeSerialType_def Let_def)

lemma idx_rowid:
  assumes "\<forall>f \<in> set fs. storable f" "length fs < 2 ^ 16" "fs \<noteq> []"
  shows "sqlite3VdbeIdxRowid (record_bytes fmt (fs @ [MemInt i]) @ pad) (length (record_bytes fmt (fs @ [MemInt i]))) = Some (Some i)"
proof -
  let ?fs = "fs @ [MemInt i]" and ?t = "type_of fmt (MemInt i)"
  let ?buf = "record_bytes fmt ?fs @ pad" and ?d = "stored fmt (MemInt i)"
  have n: "length ?fs \<le> 2 ^ 16" using assms(2) by simp
  note p = record_parts(1,3,4)[OF n, of fmt pad] and q = record_parts(2,5,6,7)[OF n, of fmt]
  obtain h where h: "h = header_size (length (types fmt ?fs))" by blast
  note p = p[folded h] and q = q[folded h]
  let ?n = "length (putVarint32 (of_nat h))"
  have t: "?t \<noteq> 0" "?t \<le> 9" "?t \<noteq> 7" "?t < 0x80" "\<not> ?t < 1" "\<not> ?t > 9" using int_type[of fmt i] by auto
  have one: "length (putVarint32 ?t) = 1" using t(4) by (simp add: putVarint32_def)
  have "1 \<le> length (types fmt fs)" using assms(3) length_putVarint32_le(1)[of "type_of fmt (hd fs)"] by (cases fs) auto
  then have h3: "3 \<le> h" using q(2,4) one by simp
  have small: "\<not> (of_nat h :: u32) < 3" using h3 q(1) by (simp add: word_less_nat_alt)
  have "h - 1 = length (types fmt fs) + ?n" using q(2) one by simp
  then have "drop (h - 1) ?buf = drop (length (types fmt fs)) (drop ?n ?buf)" by (simp only: drop_drop)
  also have "\<dots> = putVarint32 ?t @ contents fmt ?fs @ pad" unfolding p(2) by simp
  finally have last: "getVarint32 (drop (h - 1) ?buf) = Some (1, ?t)" using putVarint32_reads[of ?t] one by simp
  have field: "sqlite3VdbeSerialGet (?d @ pad) ?t = Some (length ?d, MemInt i)" "length ?d = sqlite3VdbeSerialTypeLen ?t"
    using serial_field[of "MemInt i" ?t fmt pad] by (simp_all add: storable_def expand_def)
  have "\<not> ?t \<ge> 128" using t(4) by (simp only: not_le)
  then have len: "sqlite3SmallTypeSizes ! unat ?t = length ?d" unfolding field(2) by (simp add: sqlite3VdbeSerialTypeLen_def)
  have "length (record_bytes fmt ?fs) - length ?d = length (contents fmt fs) + h" using q(3) by simp
  then have "drop (length (record_bytes fmt ?fs) - length ?d) ?buf = drop (length (contents fmt fs)) (drop h ?buf)"
    by (simp only: drop_drop)
  also have "\<dots> = ?d @ pad" unfolding p(3) by simp
  finally have data: "drop (length (record_bytes fmt ?fs) - length ?d) ?buf = ?d @ pad" .
  show ?thesis
    unfolding sqlite3VdbeIdxRowid_def p(1)
    using small q(1,3) t(3,5,6) last len data field(1) by simp
qed

section \<open>Damaged records\<close>

text \<open>Whatever the bytes are, no read goes further than nine bytes behind the record.\<close>

lemma varint_ref_total: "9 \<le> i + length p \<Longrightarrow> i \<le> 8 \<Longrightarrow> varint_ref i acc p \<noteq> None"
  by (induction i acc p rule: varint_ref.induct) auto

lemma getVarint32_total: "9 \<le> length p \<Longrightarrow> getVarint32 p \<noteq> None"
proof (cases p)
  case (Cons p0 q)
  assume "9 \<le> length p"
  then have "varint_ref 0 0 p \<noteq> None" by (intro varint_ref_total) simp_all
  then show ?thesis using GetVarint32_saturates[of p0 q] u8_high_bit[of p0]
    by (auto simp: getVarint32_def Cons getVarint_ref)
qed simp

lemma list_shape8:
  assumes "8 \<le> length xs"
  obtains a b c d e f g h ys where "xs = a # b # c # d # e # f # g # h # ys"
  using assms by (auto simp: numeral_eq_Suc Suc_le_length_iff)

lemma SerialGet_total: "8 \<le> length buf \<Longrightarrow> sqlite3VdbeSerialGet buf t \<noteq> None"
  by (elim list_shape8)
    (simp add: sqlite3VdbeSerialGet_def serialGet_def ONE_BYTE_INT_def TWO_BYTE_INT_def THREE_BYTE_INT_def
      FOUR_BYTE_INT_def FOUR_BYTE_UINT_def SIX_BYTE_INT_def Let_def)

lemma unpack_loop_total: "nKey + 9 \<le> length aKey \<Longrightarrow> szHdr \<le> d \<Longrightarrow> unpack_loop u aKey nKey szHdr idx d \<noteq> None"
proof (induction u arbitrary: idx d)
  case (Suc u)
  show ?case
  proof (cases "idx < szHdr \<and> d \<le> nKey")
    case True
    then have "9 \<le> length (drop idx aKey)" "8 \<le> length (drop d aKey)"
      using Suc.prems unfolding length_drop by linarith+
    then obtain n t k v where "getVarint32 (drop idx aKey) = Some (n, t)" "sqlite3VdbeSerialGet (drop d aKey) t = Some (k, v)"
      using getVarint32_total SerialGet_total by (metis not_None_eq surj_pair)
    then show ?thesis using True Suc.IH[of "d + k" "idx + n"] Suc.prems by auto
  next
    case False
    then have "unpack_loop (Suc u) aKey nKey szHdr idx d = Some ([], d)" by (simp only: unpack_loop.simps if_False)
    then show ?thesis by simp
  qed
qed simp

lemma unpack_total: "nKey + 9 \<le> length aKey \<Longrightarrow> sqlite3VdbeRecordUnpack nField aKey nKey \<noteq> None"
proof -
  assume a: "nKey + 9 \<le> length aKey"
  then obtain idx szHdr where "getVarint32 aKey = Some (idx, szHdr)" using getVarint32_total[of aKey] by fastforce
  then show ?thesis using unpack_loop_total[OF a, of "unat szHdr" "unat szHdr" nField idx] by (auto simp: sqlite3VdbeRecordUnpack_def)
qed

lemma idx_rowid_total: "n + 9 \<le> length z \<Longrightarrow> sqlite3VdbeIdxRowid z n \<noteq> None"
proof -
  assume a: "n + 9 \<le> length z"
  then obtain idx szHdr where h: "getVarint32 z = Some (idx, szHdr)" using getVarint32_total[of z] by fastforce
  show ?thesis
  proof (cases "szHdr < 3 \<or> unat szHdr > n")
    case False
    then have "9 \<le> length (drop (unat szHdr - 1) z)" using a unfolding length_drop by linarith
    then obtain k t where t: "getVarint32 (drop (unat szHdr - 1) z) = Some (k, t)" using getVarint32_total by fastforce
    show ?thesis
    proof (cases "t < 1 \<or> t > 9 \<or> t = 7 \<or> n < unat szHdr + sqlite3SmallTypeSizes ! unat t")
      case False
      have "8 \<le> length (drop (n - sqlite3SmallTypeSizes ! unat t) z)" using a by simp
      then have "sqlite3VdbeSerialGet (drop (n - sqlite3SmallTypeSizes ! unat t) z) t \<noteq> None" by (rule SerialGet_total)
      then show ?thesis using False h t by (auto simp: sqlite3VdbeIdxRowid_def Let_def)
    qed (use h t in \<open>auto simp: sqlite3VdbeIdxRowid_def Let_def\<close>)
  qed (use h in \<open>auto simp: sqlite3VdbeIdxRowid_def\<close>)
qed

section \<open>Properties\<close>

text \<open>C37. The format of rows: what the instruction MakeRecord writes, with the zeros it leaves away at the end and
  whatever lies behind it, is unpacked to the fields that were stored, as many as are asked for: integers
  in any of their seven lengths, floating point numbers, texts, blobs with their zeros written out, nulls,
  and the mark of an unchanged column. The row id at the end of an index entry is found.\<close>

theorem record_roundtrip:
  assumes "OP_MakeRecord fails resize_fails szMalloc limit fmt fs = Made out nZero"
    and "\<forall>f \<in> set fs. storable f" "length fs \<le> 2 ^ 16"
  shows "sqlite3VdbeRecordUnpack nField (out @ replicate nZero 0 @ pad) (length out + nZero) = Some (map expand (take nField fs))
    \<and> (butlast fs \<noteq> [] \<and> last fs = MemInt i \<longrightarrow>
        sqlite3VdbeIdxRowid (out @ replicate nZero 0 @ pad) (length out + nZero) = Some (Some i))"
proof -
  note b = MakeRecord_bytes[OF assms]
  then have len: "length out + nZero = length (record_bytes fmt fs)" by (metis length_append length_replicate)
  have buf: "out @ replicate nZero 0 @ pad = record_bytes fmt fs @ pad" using b by (metis append.assoc)
  have "sqlite3VdbeIdxRowid (record_bytes fmt fs @ pad) (length (record_bytes fmt fs)) = Some (Some i)"
    if "butlast fs \<noteq> []" "last fs = MemInt i"
  proof -
    have "fs \<noteq> []" using that(1) by auto
    then have fs: "fs = butlast fs @ [MemInt i]" using that(2) by (metis append_butlast_last_id)
    then have "length (butlast fs) < 2 ^ 16" using assms(3) \<open>fs \<noteq> []\<close> by (cases fs) simp_all
    moreover have "\<forall>f \<in> set (butlast fs). storable f" using assms(2) in_set_butlastD by fast
    ultimately show ?thesis using idx_rowid[OF _ _ that(1), of fmt i pad] fs by simp
  qed
  then show ?thesis unfolding buf len using unpack_record[OF assms(2,3)] by simp
qed

definition sample :: "Mem list" where
  "sample = [MemInt 0xFFFFFFFFFFFFFFC8, MemStr [97, 98], MemBlob [] (Some 3), MemNull False, MemInt 7]"

definition sample_record :: bytes where
  "sample_record = [6, 1, 17, 18, 0, 1, 200, 97, 98, 0, 0, 0, 7]"

lemma sample_made: "OP_MakeRecord (\<lambda>_. False) False 0 1000 4 sample = Made sample_record 0"
  by code_simp

lemma record_roundtrip_witness:
  "sqlite3VdbeRecordUnpack 9 (sample_record @ [42]) 13 = Some (map expand sample)
    \<and> sqlite3VdbeIdxRowid (sample_record @ [42]) 13 = Some (Some 7)"
proof -
  have len: "length sample_record = 13" by (simp add: sample_record_def)
  have ok: "\<forall>f \<in> set sample. storable f" "length sample \<le> 2 ^ 16" by (simp_all add: sample_def storable_def)
  show ?thesis using record_roundtrip[OF sample_made ok, of 9 "[42]" 7] unfolding len by (simp add: sample_def)
qed

text \<open>C38. Damaged records: whatever bytes a database file holds, unpacking a record and looking for the row id of
  an index entry read at most nine bytes behind the record, where the buffers of pages have padding, and
  end with a result.\<close>

theorem damaged_record_safe:
  assumes "nKey + 9 \<le> length aKey"
  shows "sqlite3VdbeRecordUnpack nField aKey nKey \<noteq> None \<and> sqlite3VdbeIdxRowid aKey nKey \<noteq> None"
  using unpack_total[OF assms] idx_rowid_total[OF assms] by blast

lemma damaged_record_safe_witness: "sqlite3VdbeRecordUnpack 3 ([255, 255, 7, 6] @ replicate 9 0) 4 \<noteq> None"
  using damaged_record_safe[of 4 "[255, 255, 7, 6] @ replicate 9 0"] by simp

end
