(* ===== verification/Sqlite_Compare.thy ===== *)
theory Sqlite_Compare
  imports Sqlite_Record "HOL-Library.List_Lexorder"
begin

text \<open>
  The order of values and index entries (\<open>src/vdbeaux.c\<close>): \<open>sqlite3MemCompare\<close>, the comparison of a record
  with an unpacked key, and its two fast versions for keys that start with an integer or a text.
  Collating functions are parameters, and so is the conversion of a text to the encoding a collation
  wants, which may fail for want of memory.
\<close>

section \<open>Blobs and texts\<close>

fun memcmp :: "bytes \<Rightarrow> bytes \<Rightarrow> int" where
  "memcmp (a # as) (b # bs) = (if a = b then memcmp as bs else int (unat a) - int (unat b))"
| "memcmp _ _ = 0"

definition isAllZero :: "bytes \<Rightarrow> bool" where
  "isAllZero z = list_all (\<lambda>b. b = 0) z"

text \<open>The bytes and the number of zeros of the flag \<open>MEM_Zero\<close>.\<close>

definition sqlite3BlobCompare :: "bytes \<times> nat option \<Rightarrow> bytes \<times> nat option \<Rightarrow> int" where
  "sqlite3BlobCompare pB1 pB2 =
     (case (pB1, pB2) of ((z1, zero1), (z2, zero2)) \<Rightarrow>
        let n1 = int (length z1); n2 = int (length z2)
        in case (zero1, zero2) of
             (Some nZero1, Some nZero2) \<Rightarrow> int nZero1 - int nZero2
           | (Some nZero1, None) \<Rightarrow> if \<not> isAllZero z2 then -1 else int nZero1 - n2
           | (None, Some nZero2) \<Rightarrow> if \<not> isAllZero z1 then 1 else n1 - int nZero2
           | (None, None) \<Rightarrow>
               let n = min (length z1) (length z2); c = memcmp (take n z1) (take n z2)
               in if c \<noteq> 0 then c else n1 - n2)"

record CollSeq =
  coll_enc :: nat
  xCmp :: "bytes \<Rightarrow> bytes \<Rightarrow> int"

record KeyInfo =
  enc :: nat
  nAllField :: nat
  aSortOrder :: "bool list"
  aColl :: "CollSeq option list"
  valueText :: "nat \<Rightarrow> nat \<Rightarrow> bytes \<Rightarrow> bytes option"

text \<open>The second part is whether \<open>SQLITE_NOMEM\<close> is to be reported.\<close>

definition vdbeCompareMemString :: "KeyInfo \<Rightarrow> bytes \<Rightarrow> bytes \<Rightarrow> CollSeq \<Rightarrow> int \<times> bool" where
  "vdbeCompareMemString pKeyInfo z1 z2 pColl =
     (if enc pKeyInfo = coll_enc pColl then (xCmp pColl z1 z2, False)
      else case (valueText pKeyInfo (enc pKeyInfo) (coll_enc pColl) z1, valueText pKeyInfo (enc pKeyInfo) (coll_enc pColl) z2) of
          (Some v1, Some v2) \<Rightarrow> (xCmp pColl v1 v2, False)
        | _ \<Rightarrow> (0, True))"

definition sqlite3MemCompare :: "KeyInfo \<Rightarrow> Mem \<Rightarrow> Mem \<Rightarrow> CollSeq option \<Rightarrow> int" where
  "sqlite3MemCompare pKeyInfo pMem1 pMem2 pColl =
     (case (pMem1, pMem2) of
        (MemNull _, MemNull _) \<Rightarrow> 0
      | (MemNull _, _) \<Rightarrow> -1
      | (_, MemNull _) \<Rightarrow> 1
      | (MemInt i1, MemInt i2) \<Rightarrow> if sint i1 < sint i2 then -1 else if sint i1 > sint i2 then 1 else 0
      | (MemReal r1, MemReal r2) \<Rightarrow> if d_less r1 r2 then -1 else if d_less r2 r1 then 1 else 0
      | (MemInt i1, MemReal r2) \<Rightarrow> sqlite3IntFloatCompare i1 r2
      | (MemInt _, _) \<Rightarrow> -1
      | (MemReal r1, MemInt i2) \<Rightarrow> - sqlite3IntFloatCompare i2 r1
      | (MemReal _, _) \<Rightarrow> -1
      | (_, MemInt _) \<Rightarrow> 1
      | (_, MemReal _) \<Rightarrow> 1
      | (MemBlob _ _, MemStr _) \<Rightarrow> 1
      | (MemStr _, MemBlob _ _) \<Rightarrow> -1
      | (MemStr z1, MemStr z2) \<Rightarrow>
          (case pColl of
             Some c \<Rightarrow> fst (vdbeCompareMemString pKeyInfo z1 z2 c)
           | None \<Rightarrow> sqlite3BlobCompare (z1, None) (z2, None))
      | (MemBlob z1 zero1, MemBlob z2 zero2) \<Rightarrow> sqlite3BlobCompare (z1, zero1) (z2, zero2))"

section \<open>A record and a key\<close>

record UnpackedRecord =
  pKeyInfo :: KeyInfo
  aMem :: "Mem list"
  default_rc :: int
  errCode :: nat
  r1 :: int
  r2 :: int
  eqSeen :: bool

abbreviation (input) SQLITE_NOMEM :: nat where "SQLITE_NOMEM \<equiv> 7"
abbreviation (input) SQLITE_CORRUPT :: nat where "SQLITE_CORRUPT \<equiv> 11"

definition vdbeRecordDecodeInt :: "u32 \<Rightarrow> bytes \<Rightarrow> i64 option" where
  "vdbeRecordDecodeInt serial_type aKey =
     (if serial_type = 0 \<or> serial_type = 1 then map_option scast (ONE_BYTE_INT aKey)
      else if serial_type = 2 then map_option scast (TWO_BYTE_INT aKey)
      else if serial_type = 3 then map_option scast (THREE_BYTE_INT aKey)
      else if serial_type = 4 then map_option scast (FOUR_BYTE_UINT aKey)
      else if serial_type = 5 then SIX_BYTE_INT aKey
      else if serial_type = 6 then do {
        x \<leftarrow> FOUR_BYTE_UINT aKey; y \<leftarrow> FOUR_BYTE_UINT (drop 4 aKey); Some (push_bit 32 (ucast x) OR ucast y) }
      else Some (ucast (serial_type - 8)))"

text \<open>
  The body of the loop for one field of the key: \<open>Corrupt\<close>, or the result with the serial type that was
  read and whether memory was missing. \<open>None\<close> is a read behind the buffer.
\<close>

datatype compared = Corrupt | Compared int u32 bool

definition rhs_int :: "bytes \<Rightarrow> nat \<Rightarrow> nat \<Rightarrow> i64 \<Rightarrow> compared option" where
  "rhs_int aKey1 idx1 d1 rhs = do {
     b \<leftarrow> rd aKey1 idx1;
     let serial_type = ucast b;
     if serial_type \<ge> 10 then Some (Compared 1 serial_type False)
     else if serial_type = 0 then Some (Compared (-1) serial_type False)
     else if serial_type = 7 then do {
       (_, mem1) \<leftarrow> sqlite3VdbeSerialGet (drop d1 aKey1) serial_type;
       Some (Compared (- sqlite3IntFloatCompare rhs (case mem1 of MemReal r \<Rightarrow> r | _ \<Rightarrow> 0)) serial_type False) }
     else do {
       lhs \<leftarrow> vdbeRecordDecodeInt serial_type (drop d1 aKey1);
       Some (Compared (if sint lhs < sint rhs then -1 else if sint lhs > sint rhs then 1 else 0) serial_type False) } }"

definition rhs_real :: "bytes \<Rightarrow> nat \<Rightarrow> nat \<Rightarrow> double \<Rightarrow> compared option" where
  "rhs_real aKey1 idx1 d1 rhs = do {
     b \<leftarrow> rd aKey1 idx1;
     let serial_type = ucast b;
     if serial_type \<ge> 10 then Some (Compared 1 serial_type False)
     else if serial_type = 0 then Some (Compared (-1) serial_type False)
     else do {
       (_, mem1) \<leftarrow> sqlite3VdbeSerialGet (drop d1 aKey1) serial_type;
       if serial_type = 7 then
         let r = (case mem1 of MemReal r \<Rightarrow> r | _ \<Rightarrow> 0)
         in Some (Compared (if d_less r rhs then -1 else if d_less rhs r then 1 else 0) serial_type False)
       else Some (Compared (sqlite3IntFloatCompare (case mem1 of MemInt i \<Rightarrow> i | _ \<Rightarrow> 0) rhs) serial_type False) } }"

definition rhs_str :: "KeyInfo \<Rightarrow> nat \<Rightarrow> bytes \<Rightarrow> nat \<Rightarrow> nat \<Rightarrow> nat \<Rightarrow> bytes \<Rightarrow> compared option" where
  "rhs_str ki nKey1 aKey1 i idx1 d1 rhs = do {
     (_, serial_type) \<leftarrow> getVarint32 (drop idx1 aKey1);
     if serial_type < 12 then Some (Compared (-1) serial_type False)
     else if serial_type AND 1 = 0 then Some (Compared 1 serial_type False)
     else let n = unat (serial_type - 12) div 2
          in if d1 + n > nKey1 \<or> nAllField ki \<le> i then Some Corrupt
             else let z = take n (drop d1 aKey1)
                  in case aColl ki ! i of
                       Some c \<Rightarrow> (let (rc, oom) = vdbeCompareMemString ki z rhs c in Some (Compared rc serial_type oom))
                     | None \<Rightarrow>
                         (let nCmp = min n (length rhs);
                              rc = memcmp (take nCmp z) (take nCmp rhs)
                          in Some (Compared (if rc = 0 then int n - int (length rhs) else rc) serial_type False)) }"

definition rhs_blob :: "nat \<Rightarrow> bytes \<Rightarrow> nat \<Rightarrow> nat \<Rightarrow> bytes \<Rightarrow> nat option \<Rightarrow> compared option" where
  "rhs_blob nKey1 aKey1 idx1 d1 rhs zero = do {
     (_, serial_type) \<leftarrow> getVarint32 (drop idx1 aKey1);
     if serial_type < 12 \<or> serial_type AND 1 \<noteq> 0 then Some (Compared (-1) serial_type False)
     else let nStr = unat (serial_type - 12) div 2
          in if d1 + nStr > nKey1 then Some Corrupt
             else let z = take nStr (drop d1 aKey1)
                  in case zero of
                       Some nZero \<Rightarrow>
                         Some (Compared (if \<not> isAllZero z then 1 else int nStr - int nZero) serial_type False)
                     | None \<Rightarrow>
                         (let nCmp = min nStr (length rhs);
                              rc = memcmp (take nCmp z) (take nCmp rhs)
                          in Some (Compared (if rc = 0 then int nStr - int (length rhs) else rc) serial_type False)) }"

definition compare_field :: "KeyInfo \<Rightarrow> nat \<Rightarrow> bytes \<Rightarrow> nat \<Rightarrow> nat \<Rightarrow> nat \<Rightarrow> Mem \<Rightarrow> compared option" where
  "compare_field ki nKey1 aKey1 i idx1 d1 pRhs =
     (case pRhs of
        MemInt rhs \<Rightarrow> rhs_int aKey1 idx1 d1 rhs
      | MemReal rhs \<Rightarrow> rhs_real aKey1 idx1 d1 rhs
      | MemStr rhs \<Rightarrow> rhs_str ki nKey1 aKey1 i idx1 d1 rhs
      | MemBlob rhs zero \<Rightarrow> rhs_blob nKey1 aKey1 idx1 d1 rhs zero
      | MemNull _ \<Rightarrow> do {
          b \<leftarrow> rd aKey1 idx1;
          Some (Compared (if b \<noteq> 0 then 1 else 0) (ucast b) False) })"

text \<open>The loop over the fields of the key from field \<open>i\<close> on.\<close>

fun field_loop :: "nat \<Rightarrow> bytes \<Rightarrow> nat \<Rightarrow> Mem list \<Rightarrow> nat \<Rightarrow> nat \<Rightarrow> nat \<Rightarrow> UnpackedRecord \<Rightarrow> (int \<times> UnpackedRecord) option" where
  "field_loop nKey1 aKey1 szHdr1 [] i idx1 d1 p = None"
| "field_loop nKey1 aKey1 szHdr1 (pRhs # rest) i idx1 d1 p = do {
     c \<leftarrow> compare_field (pKeyInfo p) nKey1 aKey1 i idx1 d1 pRhs;
     case c of
       Corrupt \<Rightarrow> Some (0, p\<lparr>errCode := SQLITE_CORRUPT\<rparr>)
     | Compared rc serial_type oom \<Rightarrow>
         (let p = (if oom then p\<lparr>errCode := SQLITE_NOMEM\<rparr> else p)
          in if rc \<noteq> 0 then Some (if aSortOrder (pKeyInfo p) ! i then - rc else rc, p)
             else if rest = [] then Some (default_rc p, p\<lparr>eqSeen := True\<rparr>)
             else let d1 = d1 + sqlite3VdbeSerialTypeLen serial_type;
                      idx1 = idx1 + sqlite3VarintLen (ucast serial_type)
                  in if idx1 < szHdr1 \<and> d1 \<le> nKey1 then field_loop nKey1 aKey1 szHdr1 rest (i + 1) idx1 d1 p
                     else Some (default_rc p, p\<lparr>eqSeen := True\<rparr>)) }"

definition sqlite3VdbeRecordCompareWithSkip :: "nat \<Rightarrow> bytes \<Rightarrow> UnpackedRecord \<Rightarrow> bool \<Rightarrow> (int \<times> UnpackedRecord) option" where
  "sqlite3VdbeRecordCompareWithSkip nKey1 aKey1 p bSkip = do {
     (idx1, szHdr1, d1, i) \<leftarrow>
       (if bSkip then do {
          (n, s1) \<leftarrow> getVarint32 (drop 1 aKey1);
          h \<leftarrow> rd aKey1 0;
          Some (1 + n, unat h, unat h + sqlite3VdbeSerialTypeLen s1, 1) }
        else do {
          (n, szHdr1) \<leftarrow> getVarint32 aKey1;
          Some (n, unat szHdr1, unat szHdr1, 0) });
     if d1 > nKey1 then Some (0, p\<lparr>errCode := SQLITE_CORRUPT\<rparr>)
     else field_loop nKey1 aKey1 szHdr1 (drop i (aMem p)) i idx1 d1 p }"

definition sqlite3VdbeRecordCompare :: "nat \<Rightarrow> bytes \<Rightarrow> UnpackedRecord \<Rightarrow> (int \<times> UnpackedRecord) option" where
  "sqlite3VdbeRecordCompare nKey1 aKey1 p = sqlite3VdbeRecordCompareWithSkip nKey1 aKey1 p False"

section \<open>The fast versions\<close>

definition vdbeRecordCompareInt :: "nat \<Rightarrow> bytes \<Rightarrow> UnpackedRecord \<Rightarrow> (int \<times> UnpackedRecord) option" where
  "vdbeRecordCompareInt nKey1 pKey1 p = do {
     h \<leftarrow> rd pKey1 0;
     b \<leftarrow> rd pKey1 1;
     let aKey = drop (unat (h AND 0x3F)) pKey1;
     let serial_type = (ucast b :: u32);
     if serial_type = 0 \<or> serial_type = 7 \<or> serial_type > 9 then sqlite3VdbeRecordCompare nKey1 pKey1 p
     else do {
       lhs \<leftarrow>
         (if serial_type = 1 then map_option scast (ONE_BYTE_INT aKey)
          else if serial_type = 2 then map_option scast (TWO_BYTE_INT aKey)
          else if serial_type = 3 then map_option scast (THREE_BYTE_INT aKey)
          else if serial_type = 4 then map_option scast (FOUR_BYTE_UINT aKey)
          else if serial_type = 5 then SIX_BYTE_INT aKey
          else if serial_type = 6 then do {
            x \<leftarrow> FOUR_BYTE_UINT aKey; y \<leftarrow> FOUR_BYTE_UINT (drop 4 aKey); Some (push_bit 32 (ucast x) OR ucast y) }
          else if serial_type = 8 then Some 0 else Some 1);
       let v = (case hd (aMem p) of MemInt i \<Rightarrow> i | _ \<Rightarrow> 0);
       if sint v > sint lhs then Some (r1 p, p)
       else if sint v < sint lhs then Some (r2 p, p)
       else if length (aMem p) > 1 then sqlite3VdbeRecordCompareWithSkip nKey1 pKey1 p True
       else Some (default_rc p, p\<lparr>eqSeen := True\<rparr>) } }"

definition vdbeRecordCompareString :: "nat \<Rightarrow> bytes \<Rightarrow> UnpackedRecord \<Rightarrow> (int \<times> UnpackedRecord) option" where
  "vdbeRecordCompareString nKey1 aKey1 p = do {
     (_, t) \<leftarrow> getVarint32 (drop 1 aKey1);
     if sint t < 12 then Some (r1 p, p)
     else if t AND 1 = 0 then Some (r2 p, p)
     else do {
       h \<leftarrow> rd aKey1 0;
       let szHdr = unat h;
       let nStr = unat (t - 12) div 2;
       let z = (case hd (aMem p) of MemStr z \<Rightarrow> z | _ \<Rightarrow> []);
       if szHdr + nStr > nKey1 then Some (0, p\<lparr>errCode := SQLITE_CORRUPT\<rparr>)
       else
         let nCmp = min (length z) nStr;
             res = memcmp (take nCmp (drop szHdr aKey1)) (take nCmp z)
         in if res = 0 then
              let res = int nStr - int (length z)
              in if res = 0 then
                   (if length (aMem p) > 1 then sqlite3VdbeRecordCompareWithSkip nKey1 aKey1 p True
                    else Some (default_rc p, p\<lparr>eqSeen := True\<rparr>))
                 else if res > 0 then Some (r2 p, p) else Some (r1 p, p)
            else if res > 0 then Some (r2 p, p) else Some (r1 p, p) } }"

text \<open>The comparison that is chosen for a key, and the key with the results \<open>r1\<close> and \<open>r2\<close> set.\<close>

datatype RecordCompare = CompareInt | CompareString | CompareAny

definition sqlite3VdbeFindCompare :: "UnpackedRecord \<Rightarrow> RecordCompare \<times> UnpackedRecord" where
  "sqlite3VdbeFindCompare p =
     (if nAllField (pKeyInfo p) \<le> 13 then
        let p = (if aSortOrder (pKeyInfo p) ! 0 then p\<lparr>r1 := 1, r2 := -1\<rparr> else p\<lparr>r1 := -1, r2 := 1\<rparr>)
        in case hd (aMem p) of
             MemInt _ \<Rightarrow> (CompareInt, p)
           | MemStr _ \<Rightarrow> (if aColl (pKeyInfo p) ! 0 = None then (CompareString, p) else (CompareAny, p))
           | _ \<Rightarrow> (CompareAny, p)
      else (CompareAny, p))"

definition xRecordCompare :: "RecordCompare \<Rightarrow> nat \<Rightarrow> bytes \<Rightarrow> UnpackedRecord \<Rightarrow> (int \<times> UnpackedRecord) option" where
  "xRecordCompare f =
     (case f of CompareInt \<Rightarrow> vdbeRecordCompareInt | CompareString \<Rightarrow> vdbeRecordCompareString
      | CompareAny \<Rightarrow> sqlite3VdbeRecordCompare)"

section \<open>The order of values\<close>

text \<open>What the comparison looks at: nulls first, then numbers by their value, texts, blobs.\<close>

datatype sort_key = KNull | KNumber rat | KText "nat list" | KBlob "nat list"

fun rank :: "sort_key \<Rightarrow> nat" where
  "rank KNull = 0" | "rank (KNumber _) = 1" | "rank (KText _) = 2" | "rank (KBlob _) = 3"

instantiation sort_key :: linorder
begin

fun less_eq_sort_key :: "sort_key \<Rightarrow> sort_key \<Rightarrow> bool" where
  "less_eq_sort_key (KNumber x) (KNumber y) = (x \<le> y)"
| "less_eq_sort_key (KText x) (KText y) = (x \<le> y)"
| "less_eq_sort_key (KBlob x) (KBlob y) = (x \<le> y)"
| "less_eq_sort_key a b = (rank a \<le> rank b)"

definition less_sort_key :: "sort_key \<Rightarrow> sort_key \<Rightarrow> bool" where
  "less_sort_key a b \<longleftrightarrow> a \<le> b \<and> \<not> b \<le> a"

instance
proof
  fix a b c :: sort_key
  show "a < b \<longleftrightarrow> a \<le> b \<and> \<not> b \<le> a" by (rule less_sort_key_def)
  show "a \<le> a" by (cases a) simp_all
  show "a \<le> b \<Longrightarrow> b \<le> c \<Longrightarrow> a \<le> c" by (cases a; cases b; cases c) auto
  show "a \<le> b \<Longrightarrow> b \<le> a \<Longrightarrow> a = b" by (cases a; cases b) auto
  show "a \<le> b \<or> b \<le> a" by (cases a; cases b) auto
qed

end

fun key_of :: "Mem \<Rightarrow> sort_key" where
  "key_of (MemNull _) = KNull"
| "key_of (MemInt i) = KNumber (of_int (sint i))"
| "key_of (MemReal r) = KNumber (ieee_value r)"
| "key_of (MemStr z) = KText (map unat z)"
| "key_of (MemBlob z zero) = KBlob (map unat (full_blob z zero))"

text \<open>No \<open>NaN\<close> is stored in a cell, and a blob that ends in zeros is written out before it is compared.\<close>

fun comparable :: "Mem \<Rightarrow> bool" where
  "comparable (MemReal r) = (\<not> is_nan r)"
| "comparable (MemBlob z (Some _)) = (z = [])"
| "comparable _ = True"

definition cmp3 :: "'a :: linorder \<Rightarrow> 'a \<Rightarrow> int" where
  "cmp3 a b = (if a < b then -1 else if b < a then 1 else 0)"

lemma sgn_minus_nat: "sgn (int a - int b) = cmp3 a b"
  by (simp add: cmp3_def)

lemma cmp3_rec [simp]:
  "cmp3 (x # xs) (y # ys) = (if x = y then cmp3 xs ys else cmp3 x y)" "cmp3 [] (y # ys) = -1" "cmp3 (x # xs) [] = 1"
  "cmp3 u u = 0" "cmp3 (Suc m) (Suc n) = cmp3 m n" "cmp3 0 (Suc n) = -1" "cmp3 (Suc n) 0 = 1"
  by (auto simp: cmp3_def)

lemma memcmp_order:
  "sgn (let n = min (length x) (length y); c = memcmp (take n x) (take n y) in if c \<noteq> 0 then c else int (length x) - int (length y))
    = cmp3 (map unat x) (map unat y)"
proof (induction x arbitrary: y)
  case Nil
  then show ?case by (cases y) (simp_all add: Let_def)
next
  case IH: (Cons a as)
  show ?case
  proof (cases y)
    case Nil
    then show ?thesis by (simp add: Let_def)
  next
    case (Cons b bs)
    show ?thesis
    proof (cases "a = b")
      case True
      then show ?thesis using IH.IH[of bs] Cons by (auto simp: Let_def split: if_splits)
    next
      case False
      then have "unat a \<noteq> unat b" by (simp add: word_unat_eq_iff)
      moreover have "uint a \<noteq> uint b" using False by (simp add: word_uint_eq_iff)
      ultimately show ?thesis using False sgn_minus_nat[of "unat a" "unat b"] Cons by (simp add: Let_def)
    qed
  qed
qed

lemma zeros_order:
  "cmp3 (replicate n (0 :: nat)) (map unat z) = (if isAllZero z then cmp3 n (length z) else -1)"
proof (induction z arbitrary: n)
  case Nil
  then show ?case by (cases n) (simp_all add: isAllZero_def)
next
  case (Cons b z)
  show ?case
  proof (cases n)
    case 0
    then show ?thesis by (simp add: cmp3_def)
  next
    case (Suc m)
    have "b \<noteq> 0 \<Longrightarrow> cmp3 0 (unat b) = -1" by (simp add: cmp3_def unat_gt_0)
    then show ?thesis using Cons.IH[of m] Suc by (cases "b = 0") (auto simp: isAllZero_def unat_eq_0)
  qed
qed

lemma cmp3_swap: "cmp3 b a = - cmp3 a b"
  by (auto simp: cmp3_def)

lemma BlobCompare_order:
  assumes "zero1 \<noteq> None \<longrightarrow> z1 = []" "zero2 \<noteq> None \<longrightarrow> z2 = []"
  shows "sgn (sqlite3BlobCompare (z1, zero1) (z2, zero2)) = cmp3 (map unat (full_blob z1 zero1)) (map unat (full_blob z2 zero2))"
proof (cases zero1)
  case None
  show ?thesis
  proof (cases zero2)
    case None
    then show ?thesis using \<open>zero1 = None\<close> memcmp_order[of z1 z2] by (simp add: sqlite3BlobCompare_def full_blob_def Let_def)
  next
    case (Some k)
    then have "cmp3 (map unat z1) (map unat (full_blob z2 zero2)) = (if isAllZero z1 then cmp3 (length z1) k else 1)"
      using assms(2) zeros_order[of k z1] cmp3_swap[of "map unat z1"] cmp3_swap[of "length z1" k]
      by (simp add: full_blob_def map_replicate_const[symmetric])
    then show ?thesis using Some \<open>zero1 = None\<close> by (simp add: sqlite3BlobCompare_def full_blob_def sgn_minus_nat)
  qed
next
  case (Some k)
  then have z1: "z1 = []" using assms(1) by simp
  show ?thesis
  proof (cases zero2)
    case None
    then show ?thesis using Some z1 zeros_order[of k z2] by (simp add: sqlite3BlobCompare_def full_blob_def sgn_minus_nat)
  next
    case (Some k2)
    then show ?thesis using \<open>zero1 = Some k\<close> z1 assms(2) zeros_order[of k "replicate k2 0"]
      by (simp add: sqlite3BlobCompare_def full_blob_def sgn_minus_nat isAllZero_def list_all_iff)
  qed
qed

lemma cmp3_key [simp]:
  "cmp3 (KNumber x) (KNumber y) = cmp3 x y" "cmp3 (KText s) (KText t) = cmp3 s t" "cmp3 (KBlob s) (KBlob t) = cmp3 s t"
  by (auto simp: cmp3_def less_sort_key_def)

lemma cmp3_rank: "rank a < rank b \<Longrightarrow> cmp3 a b = -1" "rank b < rank a \<Longrightarrow> cmp3 a b = 1"
  by (cases a; cases b; simp add: cmp3_def less_sort_key_def)+

lemma sgn_minus_rat: "sgn (x - y) = of_int (cmp3 x y)" for x y :: rat
  by (simp add: cmp3_def)

lemma sgn_of_cmp3: "sgn (of_int c :: rat) = of_int (cmp3 x y) \<Longrightarrow> sgn c = cmp3 x y"
  by (auto simp: cmp3_def sgn_if split: if_splits)

lemma cmp3_int: "cmp3 (of_int x :: rat) (of_int y) = cmp3 x y"
  by (simp add: cmp3_def)

lemma MemCompare_order:
  assumes "comparable a" "comparable b"
  shows "sgn (sqlite3MemCompare ki a b None) = cmp3 (key_of a) (key_of b)"
proof -
  have int_real: "sgn (sqlite3IntFloatCompare i r) = cmp3 (of_int (sint i)) (ieee_value r)" if "\<not> is_nan r" for i r
    using IntFloatCompare_exact[OF that, of i] unfolding sgn_minus_rat by (rule sgn_of_cmp3)
  consider "rank (key_of a) \<noteq> rank (key_of b)" | "rank (key_of a) = rank (key_of b)" by blast
  then show ?thesis
  proof cases
    case 1
    then consider "rank (key_of a) < rank (key_of b)" | "rank (key_of b) < rank (key_of a)" by linarith
    then show ?thesis
    proof cases
      case 1
      then show ?thesis unfolding cmp3_rank(1)[OF 1] by (cases a; cases b) (simp_all add: sqlite3MemCompare_def)
    next
      case 2
      then show ?thesis unfolding cmp3_rank(2)[OF 2] by (cases a; cases b) (simp_all add: sqlite3MemCompare_def)
    qed
  next
    case 2
    then show ?thesis
    proof (cases a)
      case (MemNull x)
      then show ?thesis using 2 by (cases b) (simp_all add: sqlite3MemCompare_def)
    next
      case (MemInt i)
      then show ?thesis using 2 assms(2)
        by (cases b) (simp_all only: sqlite3MemCompare_def int_real prod.case Mem.case key_of.simps cmp3_key cmp3_int rank.simps comparable.simps,
          simp_all add: cmp3_def int_real)
    next
      case (MemReal r)
      then show ?thesis using 2 assms
        by (cases b) (auto simp: sqlite3MemCompare_def int_real d_less_def cmp3_swap[of "ieee_value r"], simp_all add: cmp3_def)
    next
      case (MemStr z)
      then show ?thesis using 2 BlobCompare_order[of None z None]
        by (cases b) (simp_all add: sqlite3MemCompare_def full_blob_def)
    next
      case (MemBlob z zero)
      then show ?thesis using 2 assms BlobCompare_order[of zero z]
        by (cases b; cases zero; cases "case b of MemBlob _ n \<Rightarrow> n | _ \<Rightarrow> None") (auto simp: sqlite3MemCompare_def)
    qed
  qed
qed

section \<open>One field\<close>

definition field_oom :: "KeyInfo \<Rightarrow> Mem \<Rightarrow> Mem \<Rightarrow> CollSeq option \<Rightarrow> bool" where
  "field_oom ki a b coll =
     (case (a, b, coll) of (MemStr x, MemStr y, Some c) \<Rightarrow> snd (vdbeCompareMemString ki x y c) | _ \<Rightarrow> False)"

lemma FOUR_BYTE_same: "FOUR_BYTE_UINT x = FOUR_BYTE_INT x"
proof -
  have "push_bit 24 (ucast b) = push_bit 24 (scast b :: u32)" for b :: u8
    by (rule u32_eqI) (simp add: bit_eval)
  then show ?thesis by (simp add: FOUR_BYTE_INT_def FOUR_BYTE_UINT_def shifts)
qed

lemma DecodeInt_SerialGet:
  "t \<in> {1, 2, 3, 4, 5, 6, 8, 9} \<Longrightarrow> sqlite3VdbeSerialGet buf t = Some (n, MemInt i) \<Longrightarrow> vdbeRecordDecodeInt t buf = Some i"
proof -
  have eight: "push_bit 32 (ucast x) OR ucast y = push_bit 32 (ucast x) + (ucast y :: u64)" for x y :: u32
  proof -
    have "push_bit 32 (ucast x) AND (ucast y :: u64) = 0" by (rule u64_eqI) (simp add: bit_eval)
    then show ?thesis by (rule disjunctive_add_eq_or[symmetric])
  qed
  assume "t \<in> {1, 2, 3, 4, 5, 6, 8, 9}" "sqlite3VdbeSerialGet buf t = Some (n, MemInt i)"
  then show ?thesis
    by (auto simp: sqlite3VdbeSerialGet_def vdbeRecordDecodeInt_def serialGet_def bind_eq_Some_conv Let_def eight FOUR_BYTE_same
        split: if_splits)
qed

lemma int_facts:
  assumes "t = type_of fmt (MemInt i)"
  shows "t \<in> {1, 2, 3, 4, 5, 6, 8, 9}" "vdbeRecordDecodeInt t (stored fmt (MemInt i) @ Y) = Some i"
    "\<exists>n. sqlite3VdbeSerialGet (stored fmt (MemInt i) @ Y) t = Some (n, MemInt i)"
proof -
  show t: "t \<in> {1, 2, 3, 4, 5, 6, 8, 9}" using int_type assms by simp
  have get: "sqlite3VdbeSerialGet (stored fmt (MemInt i) @ Y) t = Some (length (stored fmt (MemInt i)), MemInt i)"
    using serial_field[of "MemInt i" t fmt Y] assms by (simp add: storable_def expand_def)
  then show "\<exists>n. sqlite3VdbeSerialGet (stored fmt (MemInt i) @ Y) t = Some (n, MemInt i)" by blast
  show "vdbeRecordDecodeInt t (stored fmt (MemInt i) @ Y) = Some i" by (rule DecodeInt_SerialGet[OF t get])
qed

lemma real_facts:
  assumes "t = type_of fmt (MemReal r)" "storable (MemReal r)"
  shows "t = 7" "\<exists>n. sqlite3VdbeSerialGet (stored fmt (MemReal r) @ Y) t = Some (n, MemReal r)"
proof -
  show "t = 7" by (simp add: assms(1) type_of_def sqlite3VdbeSerialType_def)
  show "\<exists>n. sqlite3VdbeSerialGet (stored fmt (MemReal r) @ Y) t = Some (n, MemReal r)"
    using serial_field[OF assms(2,1), of Y] by (simp add: expand_def)
qed

lemma rd_drop: "rd (drop i m) 0 = rd m i"
  by (auto simp: rd_def)

lemma unat_ucast_u8: "unat (ucast b :: u32) = unat b" for b :: u8
proof -
  have "unat b < 2 ^ LENGTH(8)" by (rule unsigned_less)
  then have "take_bit 32 (unat b) = unat b" by (intro take_bit_nat_eq_self) simp
  then show ?thesis by (simp add: unsigned_ucast_eq unsigned_take_bit_eq)
qed

lemma type_byte:
  assumes "drop idx m = putVarint32 t @ X"
  shows "\<exists>b. rd m idx = Some b \<and> (if t < 0x80 then ucast b = t else (ucast b :: u32) \<ge> 10)"
proof (cases "t < 0x80")
  case True
  then have "rd m idx = Some (ucast t)" using assms rd_drop[of idx m] by (simp add: putVarint32_def)
  then show ?thesis using True u8_small[of t] by simp
next
  case False
  then have "(ucast t :: u64) > 0x7f" by (simp add: word_less_nat_alt unat_ucast_u64)
  then obtain p0 p where p: "sqlite3PutVarint (ucast t) = p0 # p" "bit p0 7" using PutVarint_first by blast
  then have "\<not> p0 < 128" using u8_high_bit[of p0] by simp
  then have "unat p0 \<ge> 128" by (simp add: word_less_nat_alt)
  then have "(ucast p0 :: u32) \<ge> 10" by (simp add: word_le_nat_alt unat_ucast_u8)
  moreover have "rd m idx = Some p0" using False assms p rd_drop[of idx m] by (simp add: putVarint32_def)
  ultimately show ?thesis using False by simp
qed

lemma compare_field_correct:
  fixes fmt :: nat
  assumes f: "storable f" "f \<noteq> MemNull True" and r: "comparable r" and i: "i < nAllField ki"
    and hdr: "drop idx m = putVarint32 (type_of fmt f) @ X" and data: "drop d m = stored fmt f @ Y"
    and len: "d + length (stored fmt f) \<le> nKey"
  shows "\<exists>c t. compare_field ki nKey m i idx d r = Some (Compared c t (field_oom ki (expand f) r (aColl ki ! i)))
    \<and> sgn c = sgn (sqlite3MemCompare ki (expand f) r (aColl ki ! i)) \<and> (c = 0 \<longrightarrow> t = type_of fmt f)"
proof -
  obtain t where t: "t = type_of fmt f" by blast
  obtain b where b: "rd m idx = Some b" "if t < 0x80 then ucast b = t else (ucast b :: u32) \<ge> 10"
    using type_byte[OF hdr] t by auto
  have get: "getVarint32 (drop idx m) = Some (length (putVarint32 t), t)" unfolding hdr t by (rule putVarint32_reads)
  have large: "(ucast b :: u32) \<ge> 10" if "12 \<le> t" using b(2) that by (auto simp: word_le_nat_alt split: if_splits)
  have zero: "b = 0 \<longleftrightarrow> (ucast b :: u32) = 0" by (simp add: word_unat_eq_iff unat_ucast_u8)
  note defs = compare_field_def field_oom_def sqlite3MemCompare_def
  show ?thesis
  proof (cases f)
    case (MemNull x)
    then have "x = False" using f(2) by simp
    then have "t = 0" "ucast b = (0 :: u32)" "b = 0" "expand f = MemNull False"
      using b(2) zero by (simp_all add: t MemNull type_of_def sqlite3VdbeSerialType_def expand_def)
    then show ?thesis using b(1) get t
      by (cases r) (simp_all add: defs rhs_int_def rhs_real_def rhs_str_def rhs_blob_def)
  next
    case (MemInt j)
    note facts = int_facts[OF t[unfolded MemInt]]
    have "t < 0x80" "t < 12" "\<not> t \<ge> 10" "t \<noteq> 0" "t \<noteq> 7" using facts(1) by (auto simp: word_le_nat_alt)
    moreover from this have tb: "ucast b = t" "b \<noteq> 0" using b(2) zero by auto
    moreover obtain n where "sqlite3VdbeSerialGet (drop d m) t = Some (n, MemInt j)" using facts(3) data MemInt by metis
    moreover have "vdbeRecordDecodeInt t (drop d m) = Some j" using facts(2) data MemInt by metis
    moreover have "expand f = MemInt j" by (simp add: MemInt expand_def)
    ultimately show ?thesis using b(1) get unfolding t[symmetric]
      by (cases r) (simp_all add: defs rhs_int_def rhs_real_def rhs_str_def rhs_blob_def Let_def)
  next
    case (MemReal q)
    note facts = real_facts[OF t[unfolded MemReal] f(1)[unfolded MemReal]]
    have "ucast b = t" "b \<noteq> 0" using b(2) zero facts(1) by auto
    moreover obtain n where "sqlite3VdbeSerialGet (drop d m) t = Some (n, MemReal q)" using facts(2) data MemReal by metis
    moreover have "expand f = MemReal q" by (simp add: MemReal expand_def)
    ultimately show ?thesis using b(1) get facts(1) unfolding t[symmetric]
      by (cases r) (simp_all add: defs rhs_int_def rhs_real_def rhs_str_def rhs_blob_def Let_def)
  next
    case (MemStr z)
    note facts = str_facts[OF f(1)[unfolded MemStr] t[unfolded MemStr]]
    have "(ucast b :: u32) \<ge> 10" using large facts(1) .
    moreover from this have "b \<noteq> 0" by auto
    moreover have "\<not> t < 12" using facts(1) by (simp only: not_less)
    moreover have "take (length z) (drop d m) = z" "d + length z \<le> nKey" using data len facts(5) by (simp_all add: MemStr)
    moreover have "expand f = MemStr z" by (simp add: MemStr expand_def)
    moreover have "take (min (length z) (length y)) (take (length z) w) = take (min (length z) (length y)) w" for y w :: bytes by simp
    ultimately show ?thesis using b(1) get i facts(2,3) unfolding t[symmetric]
      by (cases r) (simp_all add: defs rhs_int_def rhs_real_def rhs_str_def rhs_blob_def Let_def split_beta
          sqlite3BlobCompare_def split: option.split)
  next
    case (MemBlob z zero)
    note facts = blob_facts[OF f(1)[unfolded MemBlob] t[unfolded MemBlob]]
    let ?z = "full_blob z zero"
    have "(ucast b :: u32) \<ge> 10" using large facts(1) .
    moreover from this have "b \<noteq> 0" by auto
    moreover have "\<not> t < 12" using facts(1) by (simp only: not_less)
    moreover have "take (length ?z) (drop d m) = ?z" "d + length ?z \<le> nKey" using data len facts(5) by (simp_all add: MemBlob)
    moreover have "expand f = MemBlob ?z None" by (simp add: MemBlob expand_blob)
    ultimately show ?thesis using b(1) get i facts(2,3) unfolding t[symmetric]
      by (cases r) (simp_all add: defs rhs_int_def rhs_real_def rhs_str_def rhs_blob_def Let_def
          sqlite3BlobCompare_def split: option.split)
  qed
qed

section \<open>All fields\<close>

text \<open>The reference: the fields of the record and of the key one after the other with \<open>sqlite3MemCompare\<close>, up to
  the first difference; the second part is whether a conversion failed on the way.\<close>

fun fields_compare :: "KeyInfo \<Rightarrow> nat \<Rightarrow> Mem list \<Rightarrow> Mem list \<Rightarrow> int \<times> bool" where
  "fields_compare ki i (f # fs) (r # rs) =
     (let c = sqlite3MemCompare ki f r (aColl ki ! i); oom = field_oom ki f r (aColl ki ! i)
      in if c \<noteq> 0 then (if aSortOrder ki ! i then - c else c, oom)
         else let (c', oom') = fields_compare ki (i + 1) fs rs in (c', oom \<or> oom'))"
| "fields_compare ki i _ _ = (0, False)"

definition after :: "UnpackedRecord \<Rightarrow> int \<times> bool \<Rightarrow> UnpackedRecord" where
  "after p c = p\<lparr>errCode := (if snd c then SQLITE_NOMEM else errCode p), eqSeen := (eqSeen p \<or> fst c = 0)\<rparr>"

definition agrees :: "UnpackedRecord \<Rightarrow> int \<times> bool \<Rightarrow> (int \<times> UnpackedRecord) option \<Rightarrow> bool" where
  "agrees p c res \<longleftrightarrow>
     (\<exists>rc. res = Some (rc, after p c) \<and> (if fst c = 0 then rc = default_rc p else sgn rc = sgn (fst c)))"

definition indexable :: "Mem \<Rightarrow> bool" where
  "indexable f \<longleftrightarrow> storable f \<and> f \<noteq> MemNull True"

lemma field_loop_correct:
  fixes fmt :: nat
  assumes "\<forall>f \<in> set fs. indexable f" "\<forall>r \<in> set rs. comparable r" "fs \<noteq> []" "rs \<noteq> []"
    and "i + length rs \<le> nAllField (pKeyInfo p)"
    and "drop idx m = types fmt fs @ X" "drop d m = contents fmt fs @ Y"
    and "szHdr = idx + length (types fmt fs)" "d + length (contents fmt fs) \<le> nKey"
  shows "agrees p (fields_compare (pKeyInfo p) i (map expand fs) rs) (field_loop nKey m szHdr rs i idx d p)"
  using assms
proof (induction rs arbitrary: fs i idx d p)
  case Nil
  then show ?case by simp
next
  case (Cons r rs)
  obtain f gs where fs: "fs = f # gs" using Cons.prems(3) by (cases fs) auto
  let ?ki = "pKeyInfo p" and ?t = "type_of fmt f"
  let ?c = "sqlite3MemCompare ?ki (expand f) r (aColl ?ki ! i)" and ?o = "field_oom ?ki (expand f) r (aColl ?ki ! i)"
  let ?p = "if ?o then p\<lparr>errCode := SQLITE_NOMEM\<rparr> else p"
  have f: "storable f" "f \<noteq> MemNull True" and r: "comparable r" and i: "i < nAllField ?ki"
    using Cons.prems(1,2,5) by (simp_all add: fs indexable_def)
  have "drop idx m = putVarint32 ?t @ types fmt gs @ X" "drop d m = stored fmt f @ contents fmt gs @ Y"
    "d + length (stored fmt f) \<le> nKey" using Cons.prems(6,7,9) by (simp_all add: fs)
  from compare_field_correct[OF f r i this] obtain c t where
    field: "compare_field ?ki nKey m i idx d r = Some (Compared c t ?o)" "sgn c = sgn ?c" "c = 0 \<longrightarrow> t = ?t" by blast
  have c0: "c = 0 \<longleftrightarrow> ?c = 0" using field(2) by (metis sgn_0_0)
  show ?case
  proof (cases "?c = 0")
    case False
    then have "sgn (if aSortOrder ?ki ! i then - c else c) = sgn (if aSortOrder ?ki ! i then - ?c else ?c)"
      using field(2) by simp
    then show ?thesis using False c0 field(1) by (simp add: fs agrees_def after_def)
  next
    case True
    then have t: "t = ?t" "c = 0" using field(3) c0 by simp_all
    have steps: "sqlite3VarintLen (ucast ?t) = length (putVarint32 ?t)" "sqlite3VdbeSerialTypeLen ?t = length (stored fmt f)"
      using length_putVarint32(2)[of ?t] serial_field[OF f(1) refl, of fmt "[]"] by simp_all
    show ?thesis
    proof (cases "rs = [] \<or> gs = []")
      case True
      have "fields_compare ?ki i (map expand fs) (r # rs) = (0, ?o)"
        using True \<open>?c = 0\<close> by (cases rs; cases gs) (auto simp: fs)
      moreover have "field_loop nKey m szHdr (r # rs) i idx d p = Some (default_rc p, ?p\<lparr>eqSeen := True\<rparr>)"
        using True field(1) t steps Cons.prems(8) by (auto simp: fs Let_def)
      ultimately show ?thesis by (simp add: agrees_def after_def)
    next
      case False
      then have ne: "gs \<noteq> []" "rs \<noteq> []" by simp_all
      have "0 < length (types fmt gs)" using ne(1) length_putVarint32_le(1)[of "type_of fmt (hd gs)"] by (cases gs) auto
      then have go: "idx + length (putVarint32 ?t) < szHdr" "d + length (stored fmt f) \<le> nKey"
        using Cons.prems(8,9) by (simp_all add: fs)
      have tail: "drop (idx + length (putVarint32 ?t)) m = types fmt gs @ X"
        "drop (d + length (stored fmt f)) m = contents fmt gs @ Y"
        using Cons.prems(6,7) drop_drop[of "length (putVarint32 ?t)" idx m] drop_drop[of "length (stored fmt f)" d m]
        by (simp_all add: fs add.commute)
      have ki: "pKeyInfo ?p = ?ki" by simp
      have IH: "agrees ?p (fields_compare ?ki (i + 1) (map expand gs) rs)
          (field_loop nKey m szHdr rs (i + 1) (idx + length (putVarint32 ?t)) (d + length (stored fmt f)) ?p)"
        by (rule Cons.IH[OF _ _ ne _ tail, of "i + 1" ?p, unfolded ki]) (use Cons.prems(1,2,5,8,9) in \<open>simp_all add: fs\<close>)
      have "field_loop nKey m szHdr (r # rs) i idx d p =
          field_loop nKey m szHdr rs (i + 1) (idx + length (putVarint32 ?t)) (d + length (stored fmt f)) ?p"
        using field(1) t steps go ne by simp
      moreover have "agrees p (fields_compare ?ki i (map expand fs) (r # rs)) = agrees ?p (fields_compare ?ki (i + 1) (map expand gs) rs)"
        using \<open>?c = 0\<close> by (intro ext) (auto simp: fs agrees_def after_def split_beta)
      ultimately show ?thesis using IH by simp
    qed
  qed
qed

lemma RecordCompare_correct:
  fixes fmt :: nat
  assumes "\<forall>f \<in> set fs. indexable f" "\<forall>r \<in> set (aMem p). comparable r" "fs \<noteq> []" "aMem p \<noteq> []"
    and "length (aMem p) \<le> nAllField (pKeyInfo p)" "length fs \<le> 2 ^ 16"
  shows "agrees p (fields_compare (pKeyInfo p) 0 (map expand fs) (aMem p))
    (sqlite3VdbeRecordCompare (length (record_bytes fmt fs)) (record_bytes fmt fs @ pad) p)"
proof -
  note q = record_parts(1,3,4)[OF assms(6), of fmt pad] and l = record_parts(2,5,6)[OF assms(6), of fmt]
  show ?thesis
    using field_loop_correct[where p = p and i = 0 and nKey = "length (record_bytes fmt fs)", OF assms(1-4) _ q(2,3) l(2)] assms(5) l(3)
    by (simp add: sqlite3VdbeRecordCompare_def sqlite3VdbeRecordCompareWithSkip_def q(1) l(1))
qed

section \<open>Short headers\<close>

lemma short_header:
  fixes fmt :: nat and pad :: bytes
  assumes "length fs \<le> 13"
  defines "h \<equiv> header_size (length (types fmt fs))" and "buf \<equiv> record_bytes fmt fs @ pad"
  shows "h = 1 + length (types fmt fs)" "h \<le> 66" "\<exists>b. rd buf 0 = Some b \<and> unat b = h"
    "drop 1 buf = types fmt fs @ contents fmt fs @ pad" "drop h buf = contents fmt fs @ pad"
proof -
  have n: "length fs \<le> 2 ^ 16" using assms(1) by simp
  note p = record_parts[OF n, of fmt, folded h_def]
  have t: "length (types fmt fs) \<le> 65" using length_types[of fmt fs] assms(1) by simp
  then show h: "h = 1 + length (types fmt fs)" by (simp add: h_def header_size_def)
  then show "h \<le> 66" using t by simp
  then have small: "(of_nat h :: u32) < 0x80" by (simp add: word_less_nat_alt p(2))
  have "unat (ucast (of_nat h :: u32) :: u8) = unat (of_nat h :: u32)"
    using small by (simp add: unsigned_ucast_eq unsigned_take_bit_eq take_bit_nat_eq_self word_less_nat_alt)
  moreover have "putVarint32 (of_nat h) = [ucast (of_nat h :: u32)]" using small by (simp only: putVarint32_def if_True)
  then have buf: "buf = ucast (of_nat h :: u32) # types fmt fs @ contents fmt fs @ pad"
    by (simp only: buf_def record_bytes_def h_def[symmetric]) simp
  ultimately show "\<exists>b. rd buf 0 = Some b \<and> unat b = h" using p(2) by simp
  show "drop 1 buf = types fmt fs @ contents fmt fs @ pad" by (simp add: buf)
  show "drop h buf = contents fmt fs @ pad" using p(4)[of pad] by (simp add: buf_def)
qed

lemma Skip_correct:
  fixes fmt :: nat
  assumes fs: "fs = f # gs" and mem: "aMem p = r # rs" "rs \<noteq> []"
    and ok: "\<forall>f \<in> set fs. indexable f" "\<forall>r \<in> set (aMem p). comparable r"
    and n: "length (aMem p) \<le> nAllField (pKeyInfo p)" "length (aMem p) \<le> length fs" "length fs \<le> 13"
    and eq: "sqlite3MemCompare (pKeyInfo p) (expand f) r (aColl (pKeyInfo p) ! 0) = 0"
      "\<not> field_oom (pKeyInfo p) (expand f) r (aColl (pKeyInfo p) ! 0)"
  shows "agrees p (fields_compare (pKeyInfo p) 0 (map expand fs) (aMem p))
    (sqlite3VdbeRecordCompareWithSkip (length (record_bytes fmt fs)) (record_bytes fmt fs @ pad) p True)"
proof -
  let ?m = "record_bytes fmt fs @ pad" and ?t = "type_of fmt f"
  obtain h where h: "h = header_size (length (types fmt fs))" by blast
  note s = short_header[OF n(3), of fmt, folded h]
  have n16: "length fs \<le> 2 ^ 16" using n(3) by simp
  note l = record_parts(6)[OF n16, of fmt, folded h]
  obtain b where b: "rd ?m 0 = Some b" "unat b = h" using s(3) by blast
  have get: "getVarint32 (drop 1 ?m) = Some (length (putVarint32 ?t), ?t)"
    unfolding s(4) using putVarint32_reads[of ?t] by (simp add: fs)
  have "storable f" using ok(1) by (simp add: fs indexable_def)
  then have len: "sqlite3VdbeSerialTypeLen ?t = length (stored fmt f)" using serial_field[of f ?t fmt "[]"] by simp
  have hdr: "drop (1 + length (putVarint32 ?t)) ?m = types fmt gs @ contents fmt fs @ pad"
    using s(4)[of pad] drop_drop[of "length (putVarint32 ?t)" 1 ?m] by (simp add: fs)
  have data: "drop (h + length (stored fmt f)) ?m = contents fmt gs @ pad"
    using s(5)[of pad] drop_drop[of "length (stored fmt f)" h ?m] by (simp add: fs add.commute)
  have "gs \<noteq> []" using n(2) mem by (auto simp: fs)
  have "agrees p (fields_compare (pKeyInfo p) 1 (map expand gs) rs)
      (field_loop (length (record_bytes fmt fs)) ?m h rs 1 (1 + length (putVarint32 ?t)) (h + length (stored fmt f)) p)"
    by (rule field_loop_correct[OF _ _ \<open>gs \<noteq> []\<close> mem(2) _ hdr data])
      (use ok n(1) mem(1) s(1) l in \<open>simp_all add: fs\<close>)
  then show ?thesis
    using eq get b len l mem
    by (simp add: sqlite3VdbeRecordCompareWithSkip_def fs split_beta)
qed

section \<open>The fast versions agree\<close>

text \<open>An entry of an index and a key for it: the key has at least one and at most as many fields, and the entry
  has at most as many as the index, of which there are less than \<open>2 ^ 16\<close>.\<close>

definition key_fits :: "Mem list \<Rightarrow> UnpackedRecord \<Rightarrow> bool" where
  "key_fits fs p \<longleftrightarrow> list_all indexable fs \<and> list_all comparable (aMem p) \<and> aMem p \<noteq> []
    \<and> length (aMem p) \<le> length fs \<and> length fs \<le> nAllField (pKeyInfo p) \<and> nAllField (pKeyInfo p) < 2 ^ 16"

definition fast_results :: "UnpackedRecord \<Rightarrow> bool" where
  "fast_results p \<longleftrightarrow> (r1 p, r2 p) = (if aSortOrder (pKeyInfo p) ! 0 then (1, -1) else (-1, 1))"

lemma RecordCompare_fits:
  "key_fits fs p \<Longrightarrow> agrees p (fields_compare (pKeyInfo p) 0 (map expand fs) (aMem p))
    (sqlite3VdbeRecordCompare (length (record_bytes fmt fs)) (record_bytes fmt fs @ pad) p)"
  by (rule RecordCompare_correct) (auto simp: key_fits_def list_all_iff)

lemma agrees_first:
  assumes "fast_results p" "aMem p = r # rs"
    and "c = sqlite3MemCompare (pKeyInfo p) (expand f) r (aColl (pKeyInfo p) ! 0)" "c \<noteq> 0"
    and "\<not> field_oom (pKeyInfo p) (expand f) r (aColl (pKeyInfo p) ! 0)"
  shows "agrees p (fields_compare (pKeyInfo p) 0 (map expand (f # gs)) (aMem p)) (Some (if c < 0 then r1 p else r2 p, p))"
proof -
  have "fields_compare (pKeyInfo p) 0 (map expand (f # gs)) (aMem p) = (if aSortOrder (pKeyInfo p) ! 0 then - c else c, False)"
    using assms(2-5) by (simp add: Let_def)
  then show ?thesis using assms(1,4)
    by (cases "aSortOrder (pKeyInfo p) ! 0") (simp_all add: agrees_def after_def fast_results_def)
qed

lemma agrees_rest:
  assumes "key_fits (f # gs) p" "nAllField (pKeyInfo p) \<le> 13" "aMem p = r # rs"
    and "sqlite3MemCompare (pKeyInfo p) (expand f) r (aColl (pKeyInfo p) ! 0) = 0"
    and "\<not> field_oom (pKeyInfo p) (expand f) r (aColl (pKeyInfo p) ! 0)"
  shows "agrees p (fields_compare (pKeyInfo p) 0 (map expand (f # gs)) (aMem p))
    (if length (aMem p) > 1
     then sqlite3VdbeRecordCompareWithSkip (length (record_bytes fmt (f # gs))) (record_bytes fmt (f # gs) @ pad) p True
     else Some (default_rc p, p\<lparr>eqSeen := True\<rparr>))"
proof (cases "rs = []")
  case True
  then show ?thesis using assms(3-5) by (simp add: agrees_def after_def)
next
  case False
  then show ?thesis
    using Skip_correct[OF refl assms(3) False _ _ _ _ _ assms(4,5), where fmt = fmt and pad = pad] assms(1-3)
    by (simp add: key_fits_def list_all_iff)
qed

lemma mask_63: "unat (b :: u8) < 64 \<Longrightarrow> unat (b AND 0x3F) = unat b"
proof -
  assume b: "unat b < 64"
  have "b AND 0x3F = take_bit 6 b" by (simp add: take_bit_eq_mask mask_eq_exp_minus_1)
  then show ?thesis using b by (simp add: unsigned_take_bit_eq take_bit_nat_eq_self)
qed

lemma CompareInt_step:
  assumes "rd m 0 = Some h" "rd m 1 = Some b" "ucast b = t" "t \<in> {1, 2, 3, 4, 5, 6, 8, 9}"
    and "vdbeRecordDecodeInt t (drop (unat (h AND 0x3F)) m) = Some lhs" "hd (aMem p) = MemInt v"
  shows "vdbeRecordCompareInt nKey m p =
    (if sint v > sint lhs then Some (r1 p, p) else if sint v < sint lhs then Some (r2 p, p)
     else if length (aMem p) > 1 then sqlite3VdbeRecordCompareWithSkip nKey m p True
     else Some (default_rc p, p\<lparr>eqSeen := True\<rparr>))"
proof -
  have small: "\<not> (t = 0 \<or> t = 7 \<or> t > 9)" using assms(4) by auto
  have inline: "(if t = 1 then map_option scast (ONE_BYTE_INT aKey)
      else if t = 2 then map_option scast (TWO_BYTE_INT aKey)
      else if t = 3 then map_option scast (THREE_BYTE_INT aKey)
      else if t = 4 then map_option scast (FOUR_BYTE_UINT aKey)
      else if t = 5 then SIX_BYTE_INT aKey
      else if t = 6 then do { x \<leftarrow> FOUR_BYTE_UINT aKey; y \<leftarrow> FOUR_BYTE_UINT (drop 4 aKey); Some (push_bit 32 (ucast x) OR ucast y) }
      else if t = 8 then Some 0 else Some 1) = vdbeRecordDecodeInt t aKey" for aKey
    using assms(4) by (elim insertE) (simp_all add: vdbeRecordDecodeInt_def)
  show ?thesis
    unfolding vdbeRecordCompareInt_def
    by (simp only: assms(1,2,3,5,6) bind.bind_lunit Let_def small if_False inline Mem.case)
qed

lemma CompareInt_agrees:
  assumes fits: "key_fits (f # gs) p" "nAllField (pKeyInfo p) \<le> 13" and fast: "fast_results p"
    and key: "aMem p = MemInt v # rs"
  shows "agrees p (fields_compare (pKeyInfo p) 0 (map expand (f # gs)) (aMem p))
    (vdbeRecordCompareInt (length (record_bytes fmt (f # gs))) (record_bytes fmt (f # gs) @ pad) p)"
proof -
  let ?fs = "f # gs" and ?t = "type_of fmt f"
  let ?m = "record_bytes fmt ?fs @ pad"
  have n: "length ?fs \<le> 13" "storable f" "f \<noteq> MemNull True" using fits by (auto simp: key_fits_def indexable_def)
  obtain h where h: "h = header_size (length (types fmt ?fs))" by blast
  note s = short_header[OF n(1), of fmt, folded h]
  obtain b0 where b0: "rd ?m 0 = Some b0" "unat b0 = h" using s(3) by blast
  have "drop 1 ?m = putVarint32 ?t @ types fmt gs @ contents fmt ?fs @ pad" using s(4) by simp
  from type_byte[OF this] obtain b where b: "rd ?m 1 = Some b" "if ?t < 0x80 then ucast b = ?t else (ucast b :: u32) \<ge> 10"
    by blast
  show ?thesis
  proof (cases "\<exists>j. f = MemInt j")
    case False
    then have "(ucast b :: u32) = 0 \<or> (ucast b :: u32) = 7 \<or> (ucast b :: u32) > 9"
    proof (cases f)
      case (MemStr z)
      then show ?thesis using b(2) str_facts(1)[of z ?t fmt] n(2) by (auto simp: word_le_nat_alt word_less_nat_alt split: if_splits)
    next
      case (MemBlob z zero)
      then show ?thesis using b(2) blob_facts(1)[of z zero ?t fmt] n(2) by (auto simp: word_le_nat_alt word_less_nat_alt split: if_splits)
    qed (use b(2) n(3) in \<open>auto simp: type_of_def sqlite3VdbeSerialType_def\<close>)
    then have "vdbeRecordCompareInt (length (record_bytes fmt ?fs)) ?m p =
        sqlite3VdbeRecordCompare (length (record_bytes fmt ?fs)) ?m p"
      by (auto simp: vdbeRecordCompareInt_def b0(1) b(1)[simplified])
    then show ?thesis using RecordCompare_fits[OF fits(1)] by simp
  next
    case True
    then obtain j where j: "f = MemInt j" by blast
    note facts = int_facts[OF j[THEN arg_cong, of "type_of fmt"]]
    have t: "?t < 0x80" using facts(1) by auto
    then have tb: "ucast b = ?t" using b(2) by simp
    have "length (types fmt ?fs) \<le> 61"
      using t length_types[of fmt gs] n(1) by (simp add: putVarint32_def)
    then have "unat (b0 AND 0x3F) = h" using mask_63[of b0] s(1) b0(2) by simp
    then have "drop (unat (b0 AND 0x3F)) ?m = stored fmt (MemInt j) @ contents fmt gs @ pad" using s(5)[of pad] j by simp
    then have lhs: "vdbeRecordDecodeInt ?t (drop (unat (b0 AND 0x3F)) ?m) = Some j" using facts(2) by simp
    define c where "c = sqlite3MemCompare (pKeyInfo p) (expand f) (MemInt v) (aColl (pKeyInfo p) ! 0)"
    have c: "c = (if sint j < sint v then -1 else if sint j > sint v then 1 else 0)"
      by (simp add: c_def j expand_def sqlite3MemCompare_def)
    have oom: "\<not> field_oom (pKeyInfo p) (expand f) (MemInt v) (aColl (pKeyInfo p) ! 0)"
      by (simp add: j expand_def field_oom_def)
    have run: "vdbeRecordCompareInt (length (record_bytes fmt ?fs)) ?m p =
        (if c \<noteq> 0 then Some (if c < 0 then r1 p else r2 p, p)
         else if length (aMem p) > 1 then sqlite3VdbeRecordCompareWithSkip (length (record_bytes fmt ?fs)) ?m p True
         else Some (default_rc p, p\<lparr>eqSeen := True\<rparr>))"
      unfolding CompareInt_step[OF b0(1) b(1) tb facts(1) lhs key[THEN arg_cong, of hd, simplified]] c by simp
    show ?thesis
    proof (cases "c = 0")
      case False
      then show ?thesis unfolding run using agrees_first[OF fast key c_def False oom, where gs = gs] by simp
    next
      case True
      then show ?thesis unfolding run using agrees_rest[OF fits key _ oom, where fmt = fmt and pad = pad] c_def by simp
    qed
  qed
qed

lemma sint_small: "unat (t :: u32) < 2 ^ 31 \<Longrightarrow> sint t = int (unat t)"
proof -
  assume u: "unat t < 2 ^ 31"
  have "uint t = int (unat t)" by simp
  then have "sint t = signed_take_bit 31 (int (unat t))" using sint_uint[of t] by simp
  also have "\<dots> = int (unat t)"
  proof (rule signed_take_bit_int_eq_self)
    show "- (2 ^ 31) \<le> int (unat t)" by (rule order_trans[of _ 0]) simp_all
    have "int (unat t) < int (2 ^ 31)" using u by (simp only: of_nat_less_iff)
    then show "int (unat t) < 2 ^ 31" by (simp only: of_nat_power of_nat_numeral)
  qed
  finally show ?thesis .
qed

lemma long_type:
  assumes "12 \<le> t" "unat (t - 12) div 2 = n" "n \<le> 1000000000"
  shows "\<not> sint (t :: u32) < 12"
proof -
  have "unat t = unat (t - 12) + 12" using assms(1) by (simp add: unat_sub word_le_nat_alt)
  then have t: "unat t < 2 ^ 31" "12 \<le> unat t" using assms(2,3) by simp_all
  show ?thesis using t(2) unfolding sint_small[OF t(1)] by linarith
qed

lemma CompareString_step:
  assumes "getVarint32 (drop 1 m) = Some (k, t)" "rd m 0 = Some b" "unat b = h" "hd (aMem p) = MemStr y"
  shows "vdbeRecordCompareString n m p =
    (let nStr = unat (t - 12) div 2; nCmp = min (length y) nStr; res = memcmp (take nCmp (drop h m)) (take nCmp y);
         c = (if res = 0 then int nStr - int (length y) else res)
     in if sint t < 12 then Some (r1 p, p) else if t AND 1 = 0 then Some (r2 p, p)
        else if h + nStr > n then Some (0, p\<lparr>errCode := SQLITE_CORRUPT\<rparr>)
        else if c \<noteq> 0 then Some (if c < 0 then r1 p else r2 p, p)
        else if length (aMem p) > 1 then sqlite3VdbeRecordCompareWithSkip n m p True
        else Some (default_rc p, p\<lparr>eqSeen := True\<rparr>))"
proof -
  obtain nStr res where gen: "unat (t - 12) div 2 = nStr" "memcmp (take (min (length y) nStr) (drop h m)) (take (min (length y) nStr) y) = res"
    by blast
  show ?thesis
    unfolding vdbeRecordCompareString_def assms(1,2)
    by (simp only: bind.bind_lunit prod.case assms(3,4) Let_def Mem.case gen) auto
qed

lemma CompareString_agrees:
  assumes fits: "key_fits (f # gs) p" "nAllField (pKeyInfo p) \<le> 13" and fast: "fast_results p"
    and key: "aMem p = MemStr y # rs" and coll: "aColl (pKeyInfo p) ! 0 = None"
  shows "agrees p (fields_compare (pKeyInfo p) 0 (map expand (f # gs)) (aMem p))
    (vdbeRecordCompareString (length (record_bytes fmt (f # gs))) (record_bytes fmt (f # gs) @ pad) p)"
proof -
  let ?fs = "f # gs" and ?t = "type_of fmt f" and ?c = "sqlite3MemCompare (pKeyInfo p) (expand f) (MemStr y) None"
  let ?m = "record_bytes fmt ?fs @ pad" and ?n = "length (record_bytes fmt ?fs)"
  have n: "length ?fs \<le> 13" "length ?fs \<le> 2 ^ 16" "storable f" "f \<noteq> MemNull True"
    using fits by (auto simp: key_fits_def indexable_def)
  obtain h where h: "h = header_size (length (types fmt ?fs))" by blast
  note s = short_header[OF n(1), of fmt, folded h]
  obtain b0 where b0: "rd ?m 0 = Some b0" "unat b0 = h" using s(3) by blast
  have get: "getVarint32 (drop 1 ?m) = Some (length (putVarint32 ?t), ?t)"
    unfolding s(4) using putVarint32_reads[of ?t] by simp
  have oom: "\<not> field_oom (pKeyInfo p) (expand f) (MemStr y) (aColl (pKeyInfo p) ! 0)"
    by (simp add: field_oom_def coll split: Mem.split)
  have decide: "agrees p (fields_compare (pKeyInfo p) 0 (map expand ?fs) (aMem p)) (Some (if ?c < 0 then r1 p else r2 p, p))" if "?c \<noteq> 0"
    using agrees_first[OF fast key refl _ oom, where gs = gs] that coll by simp
  have rest: "agrees p (fields_compare (pKeyInfo p) 0 (map expand ?fs) (aMem p))
      (if length (aMem p) > 1 then sqlite3VdbeRecordCompareWithSkip ?n ?m p True
       else Some (default_rc p, p\<lparr>eqSeen := True\<rparr>))" if "?c = 0"
    using agrees_rest[OF fits key _ oom, where fmt = fmt and pad = pad] that coll by simp
  note run = CompareString_step[OF get b0 key[THEN arg_cong, of hd, simplified], of ?n]
  consider (low) "?t \<in> {0, 1, 2, 3, 4, 5, 6, 7, 8, 9}" "?c = -1" | (blob) z zero where "f = MemBlob z zero" | (str) z where "f = MemStr z"
  proof (cases f)
    case (MemInt j)
    then show ?thesis using low int_type[of fmt j] by (auto simp: sqlite3MemCompare_def expand_def)
  qed (use low blob str n(4) in \<open>auto simp: type_of_def sqlite3VdbeSerialType_def sqlite3MemCompare_def expand_def\<close>)
  then show ?thesis
  proof cases
    case low
    then have "sint ?t < 12" by auto
    then show ?thesis unfolding run using decide low(2) by (simp only: Let_def if_True) simp
  next
    case blob
    note facts = blob_facts[OF n(3)[unfolded blob] blob[THEN arg_cong, of "type_of fmt"]]
    have "length (full_blob z zero) \<le> 1000000000" using n(3) by (cases zero) (simp_all add: blob storable_def full_blob_def)
    from long_type[OF facts(1,3) this] have "\<not> sint ?t < 12" .
    moreover have "?c = 1" by (simp add: blob expand_blob sqlite3MemCompare_def)
    ultimately show ?thesis unfolding run using decide facts(2) by (simp only: Let_def if_True if_False) simp
  next
    case str
    note facts = str_facts[OF n(3)[unfolded str] str[THEN arg_cong, of "type_of fmt"]]
    have "length z \<le> 1000000000" using n(3) by (simp add: str storable_def)
    from long_type[OF facts(1,3) this] have t: "\<not> sint ?t < 12" .
    have data: "drop h ?m = z @ contents fmt gs @ pad" using s(5)[of pad] facts(5) by (simp add: str)
    have fits_page: "\<not> h + length z > ?n"
      using record_parts(6)[OF n(2), of fmt, folded h] facts(5) by (simp add: str)
    have c: "?c = (let n = min (length y) (length z); res = memcmp (take n (drop h ?m)) (take n y)
        in if res = 0 then int (length z) - int (length y) else res)"
      unfolding data by (simp add: str expand_def sqlite3MemCompare_def sqlite3BlobCompare_def Let_def min.commute)
    have "vdbeRecordCompareString ?n ?m p =
        (if ?c \<noteq> 0 then Some (if ?c < 0 then r1 p else r2 p, p)
         else if length (aMem p) > 1 then sqlite3VdbeRecordCompareWithSkip ?n ?m p True
         else Some (default_rc p, p\<lparr>eqSeen := True\<rparr>))"
      unfolding run c using t facts(2) fits_page by (simp only: Let_def facts(3) if_False)
    then show ?thesis using decide rest by (cases "?c = 0") (simp_all only: if_True if_False simp_thms)
  qed
qed

section \<open>Properties\<close>

text \<open>C39. The order of values: for all values that can be in a cell, the comparison of two values without a
  collation is the order of their keys: nulls are equal and first, then the numbers by their exact
  value, whether they are integers or floating point, then the texts by their bytes, then the blobs by
  their bytes with the zeros that are not written out. So it is a total preorder.\<close>

theorem mem_compare_order:
  assumes "comparable a" "comparable b"
  shows "sgn (sqlite3MemCompare ki a b None) = cmp3 (key_of a) (key_of b)"
  using assms by (rule MemCompare_order)

lemma mem_compare_order_witness:
  "sgn (sqlite3MemCompare \<lparr>enc = 1, nAllField = 1, aSortOrder = [False], aColl = [None], valueText = (\<lambda>_ _ z. Some z)\<rparr>
      (MemInt 9007199254740993) (MemReal 0x4340000000000000) None) = 1"
proof -
  have "comparable (MemReal 0x4340000000000000)" "key_of (MemReal 0x4340000000000000) = KNumber 9007199254740992"
    by (simp_all add: is_nan_def ieee_value_def ieee_mag_def d_exp_def d_man_def drop_bit_eq_div)
  then show ?thesis using mem_compare_order[of "MemInt 9007199254740993" "MemReal 0x4340000000000000"] by (simp add: cmp3_def less_sort_key_def)
qed

text \<open>C40. The comparison of an index entry with a key works on the bytes of the record, and has the same result as
  comparing the unpacked fields one after the other up to the first difference, with the collation and
  the direction of each; it reports a lack of memory only where a comparison on the way had one, and
  marks the key as found when no field differs. The comparison that \<open>sqlite3VdbeFindCompare\<close> chooses for
  the key, one of the two fast versions or the general one, has that result too on every entry of the
  index, whatever the type of its first field is.\<close>

theorem fast_compare_equivalent:
  assumes "key_fits fs p" "sqlite3VdbeFindCompare p = (f, p')"
  shows "agrees p (fields_compare (pKeyInfo p) 0 (map expand fs) (aMem p))
      (sqlite3VdbeRecordCompare (length (record_bytes fmt fs)) (record_bytes fmt fs @ pad) p)
    \<and> agrees p' (fields_compare (pKeyInfo p) 0 (map expand fs) (aMem p))
      (xRecordCompare f (length (record_bytes fmt fs)) (record_bytes fmt fs @ pad) p')"
proof -
  obtain r rs where mem: "aMem p = r # rs" using assms(1) by (cases "aMem p") (auto simp: key_fits_def)
  obtain g gs where fs: "fs = g # gs" using assms(1) mem by (cases fs) (auto simp: key_fits_def)
  have same: "pKeyInfo p' = pKeyInfo p" "aMem p' = aMem p"
    using assms(2) by (auto simp: sqlite3VdbeFindCompare_def Let_def split: if_splits Mem.splits)
  have fits: "key_fits (g # gs) p'" using assms(1) same by (simp add: key_fits_def fs)
  have "nAllField (pKeyInfo p') \<le> 13 \<and> fast_results p'" if "f \<noteq> CompareAny"
    using assms(2) that same
    by (auto simp: sqlite3VdbeFindCompare_def fast_results_def Let_def split: if_splits Mem.splits)
  moreover have "\<exists>v. r = MemInt v" if "f = CompareInt"
    using assms(2) that by (auto simp: sqlite3VdbeFindCompare_def mem Let_def split: if_splits Mem.splits)
  moreover have "(\<exists>y. r = MemStr y) \<and> aColl (pKeyInfo p') ! 0 = None" if "f = CompareString"
    using assms(2) that same by (auto simp: sqlite3VdbeFindCompare_def mem Let_def split: if_splits Mem.splits)
  ultimately show ?thesis
    using RecordCompare_fits[OF assms(1)] RecordCompare_fits[OF fits] CompareInt_agrees[OF fits] CompareString_agrees[OF fits] mem same fs
    by (cases f) (auto simp: xRecordCompare_def)
qed

definition sample_key :: UnpackedRecord where
  "sample_key =
     \<lparr>pKeyInfo = \<lparr>enc = 1, nAllField = 5, aSortOrder = replicate 5 True, aColl = replicate 5 None, valueText = (\<lambda>_ _ z. Some z)\<rparr>,
      aMem = [MemInt 0xFFFFFFFFFFFFFFC8, MemStr [97, 99]], default_rc = 0, errCode = 0, r1 = 0, r2 = 0, eqSeen = False\<rparr>"

lemma sample_fits: "key_fits sample sample_key"
  by (simp add: key_fits_def sample_def sample_key_def indexable_def storable_def)

lemma sample_bytes: "record_bytes 4 sample = sample_record"
  by code_simp

lemma fast_compare_equivalent_witness:
  "\<exists>rc q. xRecordCompare CompareInt 13 (sample_record @ [42]) (sample_key\<lparr>r1 := 1, r2 := -1\<rparr>) = Some (rc, q) \<and> rc > 0 \<and> \<not> eqSeen q"
proof -
  have ref: "fields_compare (pKeyInfo sample_key) 0 (map expand sample) (aMem sample_key) = (1, False)"
    "eqSeen sample_key = False" by code_simp+
  have choice: "sqlite3VdbeFindCompare sample_key = (CompareInt, sample_key\<lparr>r1 := 1, r2 := -1\<rparr>)"
    by (simp add: sqlite3VdbeFindCompare_def sample_key_def)
  have "length sample_record = 13" by (simp add: sample_record_def)
  then show ?thesis
    using fast_compare_equivalent[OF sample_fits choice, of 4 "[42]"] unfolding sample_bytes
    by (auto simp: ref agrees_def after_def sgn_1_pos)
qed

end
