(* ===== verification/Spec2Isabelle.thy ===== *)
theory Spec2Isabelle
  imports LZ_Cache_Index Sqlite_Varint Sqlite_Bitvec Sqlite_Rowset Sqlite_Chars Sqlite_Mem5 Sqlite_Number Sqlite_Utf Sqlite_Like Sqlite_Func Sqlite_Hash Sqlite_Memjournal Sqlite_Complete LZ_Cache_Router Sqlite_Compare Sqlite_Double Sqlite_Record
begin

text \<open>
  MySpotify is an iOS music player. Its own code (\<open>src/MySpotify/MySpotify\<close>) is Objective-C: screens, a
  network service, and a streaming cache that puts itself between \<open>AVPlayer\<close> and the server. It keeps its
  songs in a database through WCDB, which works on a full copy of SQLite with SQLCipher
  (\<open>src/MySpotify/Pods/WCDBOptimizedSQLCipher\<close>); by far most of the code of the repository is there. This
  development models the streaming cache and the parts of SQLite everything else in it
  rests on: encodings, containers, memory, text and numbers. Paths below are relative to these two
  directories.

  \<^bold>\<open>The application.\<close>
  \<^item> \<^theory_text>\<open>LZ_Cache_Index\<close>: \<open>LZCacheIndex.m\<close>, \<open>LZCacheRange.h\<close> (\<open>Player\<close>). Its record has the three dictionaries
    of the class, ranges are inclusive as in the code, \<open>NSUInteger\<close> is a 64-bit word. Shown: the index
    refines sets of bytes, its ranges never overlap or touch (adding sorts them, removing may leave the right
    half of a split range at the end), marks exclude each other, and
    what the router asks it (next missing byte, completion, cached length) is right.
  \<^item> \<^theory_text>\<open>LZ_Cache_Router\<close>: \<open>LZCacheRouter.mm\<close> with its stores \<open>LZMemoryCache.m\<close>, \<open>LZDiskCache.m\<close> and
    \<open>LZPreloadManager.m\<close>. Blocks on queues, replies, writes, retries and evictions are the steps of a
    relation over a record of what the objects hold; a reply may be any bytes, as no status is checked. Shown:
    no request is lost or answered twice and all can be answered; the downloads started for requests do not
    overlap (preloads take no mark and may); where each byte of an answer comes from, and a run that
    answers zeros for bytes that were never loaded.

  \<^bold>\<open>SQLite: encodings and numbers.\<close>
  \<^item> \<^theory_text>\<open>Sqlite_Varint\<close>: the variable length integers and the 4-byte integers of \<open>util.c\<close>, with the unrolled
    readers in their stages on 32-bit words; equal to a reference reader, round trips, saturation.
  \<^item> \<^theory_text>\<open>Sqlite_Number\<close>: text to integers, checked 64-bit arithmetic, the logarithmic estimates of \<open>util.c\<close>.
  \<^item> \<^theory_text>\<open>Sqlite_Utf\<close>: \<open>utf.c\<close> with its reading and writing macros; translation between the encodings keeps
    text (but for the two noncharacters its readers replace) and fits its buffer. \<^theory_text>\<open>Sqlite_Chars\<close>: tables, comparison, quoting, hexadecimal text.

  \<^bold>\<open>SQLite: containers and memory.\<close>
  \<^item> \<^theory_text>\<open>Sqlite_Bitvec\<close>: \<open>bitvec.c\<close>, its three representations as a datatype; it is a set of numbers, whatever
    allocations fail. \<^theory_text>\<open>Sqlite_Rowset\<close>: \<open>rowset.c\<close>, lists, merge sort, balanced trees, batches.
  \<^item> \<^theory_text>\<open>Sqlite_Hash\<close>: \<open>hash.c\<close>, elements with addresses on one list and buckets that point into it; a map
    without regard to case under any failures of the allocator.
  \<^item> \<^theory_text>\<open>Sqlite_Mem5\<close>: \<open>mem5.c\<close>, the buddy allocator with its control bytes; the links of the free lists are
    in the bytes of the pool itself, so that the blocks held must be shown to keep theirs.
  \<^item> \<^theory_text>\<open>Sqlite_Memjournal\<close>: \<open>memjournal.c\<close>, journals in chunks of memory that move to disk, over whatever the file
    opened there holds; a file of bytes.

  \<^bold>\<open>SQLite: rows and index entries.\<close>
  \<^item> \<^theory_text>\<open>Sqlite_Double\<close>: floating point numbers as words of 64 bits with the value IEEE 754 gives them, and
    \<open>sqlite3IntFloatCompare\<close> of \<open>vdbeaux.c\<close>, which is exact.
  \<^item> \<^theory_text>\<open>Sqlite_Record\<close>: the record format of \<open>vdbeaux.c\<close>, and \<open>OP_MakeRecord\<close> of \<open>vdbe.c\<close> from the values as they are
    after the column affinities. Buffers go on behind a record, as those of pages do; offsets are natural
    numbers, since values are at most \<open>SQLITE_MAX_LENGTH\<close> long, and records have at most \<open>2 ^ 16\<close> fields, more than
    the limit of columns. Shown: records are read back; damaged ones are read within the padding.
  \<^item> \<^theory_text>\<open>Sqlite_Compare\<close>: the order of values and the comparisons of an entry with a key, the general one and the two
    fast ones. Shown: the order is that of a linear order on keys, and all comparisons agree with
    comparing the fields one by one.

  \<^bold>\<open>SQLite: SQL.\<close>
  \<^item> \<^theory_text>\<open>Sqlite_Like\<close>: \<open>LIKE\<close> and \<open>GLOB\<close> of \<open>func.c\<close> against a declarative meaning of patterns.
    \<^theory_text>\<open>Sqlite_Func\<close>: \<open>instr\<close>, \<open>substr\<close>, \<open>quote\<close>, \<open>replace\<close>, the trims, with both errors of \<open>contextMalloc\<close>.
  \<^item> \<^theory_text>\<open>Sqlite_Complete\<close>: \<open>complete.c\<close>, scanner and state machine, against a relation that says what the tokens
    of a text are and a description of statements.

  \<^bold>\<open>How the code is modelled.\<close> C structures are records or datatypes, pointers between elements of a list
  are addresses or positions, null is \<open>None\<close> or the empty list where the text says so. Integers whose
  wrap-around matters are words or carry \<open>mod\<close>; others are natural numbers and the bounds are
  assumptions or proved. Allocation is a parameter that may fail at any call, and so are the VFS, the
  conversion of values to text and of text to floating point numbers. A write outside of a buffer, an endless
  loop, an error code are results, so that theorems can exclude or show them. Loops are structural
  recursions or functions with a measure. Fuel is used where the code's own bound is the measure:
  \<open>set_loop\<close> of the bit vectors has fuel 9, since at every level the size shrinks by a factor of 62 and
  sizes, which are \<open>u32\<close>, are below \<open>2 ^ 32\<close>, and probing a table takes at most as many steps as it has slots; theorems
  show that the fuel is never used up. Compile options are those of the application's build, which
  are in the \<open>xcconfig\<close> files of the pod, or parameters.

  \<^bold>\<open>Interfaces.\<close> \<^theory_text>\<open>Interfaces\<close> and \<^theory_text>\<open>Prelude\<close> hold the contracts, as locales: sets of bytes under keys, exclusive
  claims, dictionaries that may refuse for want of memory, simulations of abstract machines, prefix
  codes. Each is interpreted on the model's operations in the theory of their component, and the
  properties use the facts proved in the locales.

  \<^bold>\<open>Not modelled.\<close> The downloader of the streaming cache and its resource loader call the network and the
  player; the relation of the router has their replies and requests as steps. The screens, animations, widgets, network and database glue of the application only
  call frameworks. Of SQLite, the parser, code generator, virtual machine, B-tree, pager and operating
  system layers are not modelled yet, nor are its extensions; \<open>sqlite3AtoF\<close> and the other routines that
  calculate with floating point numbers would need a model of IEEE arithmetic that the library does not have
  (comparing them and converting integers is modelled).
  SQLCipher's cryptography is in a library the sources only call. The C++ of WCDB, AFNetworking,
  SDWebImage, Masonry, YYModel and LookinServer are third-party code of other purposes.
\<close>

end
